(* ===== verification/Prelude.thy ===== *)
theory Prelude
  imports Main "HOL-Library.Word" "HOL-Library.Multiset"
begin

text \<open>
  What the component theories share: the machine types of the Go code, big-endian byte strings
  (\<^verbatim>\<open>encoding/binary\<close>), slices, the two's-complement reading of a word, Go's truncating division,
  and the insertion sort that \<^verbatim>\<open>sort.Slice\<close> and \<^verbatim>\<open>sort.SliceStable\<close> run on short slices, with its
  contract stated once for every comparison that is a strict weak order.
\<close>

named_theorems wire_simps \<open>lengths and accesses of encoded byte strings\<close>

unbundle bit_operations_syntax

section \<open>Machine types\<close>

type_synonym byte = "8 word"
type_synonym uint8 = "8 word"
type_synonym uint16 = "16 word"
type_synonym uint32 = "32 word"
type_synonym uint64 = "64 word"
type_synonym int8 = "8 word"
  \<comment> \<open>a Go \<^verbatim>\<open>int8\<close>; \<open>sint\<close> reads its value\<close>

definition go_quot :: "int \<Rightarrow> int \<Rightarrow> int" where
  \<comment> \<open>Go's \<^verbatim>\<open>/\<close> truncates toward zero\<close>
  "go_quot a b = sgn a * sgn b * (\<bar>a\<bar> div \<bar>b\<bar>)"

definition go_rem :: "int \<Rightarrow> int \<Rightarrow> int" where
  \<comment> \<open>Go's \<^verbatim>\<open>%\<close> has the sign of the dividend\<close>
  "go_rem a b = a - b * go_quot a b"

lemma go_quot_nonneg: "0 \<le> a \<Longrightarrow> 0 < b \<Longrightarrow> go_quot a b = a div b"
  by (cases "a = 0") (auto simp: go_quot_def)

lemma go_rem_nonneg: "0 \<le> a \<Longrightarrow> 0 < b \<Longrightarrow> go_rem a b = a mod b"
  by (simp add: go_rem_def go_quot_nonneg minus_mult_div_eq_mod)

section \<open>Big-endian byte strings\<close>

fun be_bytes :: "nat \<Rightarrow> nat \<Rightarrow> byte list" where
  "be_bytes 0 v = []"
| "be_bytes (Suc n) v = be_bytes n (v div 256) @ [of_nat (v mod 256)]"

definition be_nat :: "byte list \<Rightarrow> nat" where
  "be_nat bs = foldl (\<lambda>a b. a * 256 + unat b) 0 bs"

definition put_uint16 :: "uint16 \<Rightarrow> byte list" where "put_uint16 w = be_bytes 2 (unat w)"
definition put_uint32 :: "uint32 \<Rightarrow> byte list" where "put_uint32 w = be_bytes 4 (unat w)"
definition put_uint64 :: "uint64 \<Rightarrow> byte list" where "put_uint64 w = be_bytes 8 (unat w)"

definition get_uint16 :: "byte list \<Rightarrow> uint16" where "get_uint16 bs = of_nat (be_nat (take 2 bs))"
definition get_uint32 :: "byte list \<Rightarrow> uint32" where "get_uint32 bs = of_nat (be_nat (take 4 bs))"
definition get_uint64 :: "byte list \<Rightarrow> uint64" where "get_uint64 bs = of_nat (be_nat (take 8 bs))"

definition slice :: "nat \<Rightarrow> nat \<Rightarrow> 'a list \<Rightarrow> 'a list" where
  \<comment> \<open>\<^verbatim>\<open>b[i:j]\<close>\<close>
  "slice i j b = take (j - i) (drop i b)"

lemma unat_bound: "unat (w :: 'a::len word) < 2 ^ LENGTH('a)"
  by (rule unsigned_less)

lemma length_be_bytes [simp, wire_simps]: "length (be_bytes n v) = n"
  by (induction n arbitrary: v) auto

lemma be_nat_Nil [simp]: "be_nat [] = 0"
  by (simp add: be_nat_def)

lemma be_nat_snoc [simp]: "be_nat (bs @ [b]) = be_nat bs * 256 + unat b"
  by (simp add: be_nat_def)

lemma unat_byte: "unat (of_nat (v mod 256) :: byte) = v mod 256"
  by (simp add: unat_of_nat)

lemma be_nat_be_bytes: "be_nat (be_bytes n v) = v mod 256 ^ n"
proof (induction n arbitrary: v)
  case (Suc n)
  have "v mod 256 ^ Suc n = (v div 256 mod 256 ^ n) * 256 + v mod 256"
    by (simp add: mod_mult2_eq)
  with Suc show ?case by (simp add: unat_byte)
qed simp

lemma be_bytes_be_nat: "be_bytes (length bs) (be_nat bs) = bs"
proof (induction bs rule: rev_induct)
  case (snoc b bs)
  have b: "unat b < 256" using unat_bound [of b] by simp
  then have "(be_nat bs * 256 + unat b) div 256 = be_nat bs" "(be_nat bs * 256 + unat b) mod 256 = unat b"
    by auto
  with snoc show ?case by simp
qed simp

lemma be_nat_less: "be_nat bs < 256 ^ length bs"
  using be_nat_be_bytes [of "length bs" "be_nat bs"]
  by (metis be_bytes_be_nat mod_less_divisor zero_less_numeral zero_less_power)

lemma length_put [simp, wire_simps]:
  "length (put_uint16 a) = 2" "length (put_uint32 b) = 4" "length (put_uint64 c) = 8"
  by (simp_all add: put_uint16_def put_uint32_def put_uint64_def)

lemma get_put [simp, wire_simps]:
  "get_uint16 (put_uint16 a @ xs) = a" "get_uint32 (put_uint32 b @ xs) = b"
  "get_uint64 (put_uint64 c @ xs) = c"
  using unat_bound [of a] unat_bound [of b] unat_bound [of c]
  by (simp_all add: get_uint16_def put_uint16_def get_uint32_def put_uint32_def
      get_uint64_def put_uint64_def be_nat_be_bytes)

lemma get_put_exact [simp, wire_simps]:
  "get_uint16 (put_uint16 a) = a" "get_uint32 (put_uint32 b) = b" "get_uint64 (put_uint64 c) = c"
  using get_put(1) [of a "[]"] get_put(2) [of b "[]"] get_put(3) [of c "[]"] by simp_all

lemma put_get:
  "length bs = 2 \<Longrightarrow> put_uint16 (get_uint16 bs) = bs"
  "length bs = 4 \<Longrightarrow> put_uint32 (get_uint32 bs) = bs"
  "length bs = 8 \<Longrightarrow> put_uint64 (get_uint64 bs) = bs"
proof -
  note [simp] = put_uint16_def put_uint32_def put_uint64_def get_uint16_def get_uint32_def get_uint64_def
  have *: "length bs = n \<Longrightarrow> be_nat bs < 256 ^ n" for n using be_nat_less [of bs] by simp
  have **: "length bs = n \<Longrightarrow> be_bytes n (be_nat bs) = bs" for n using be_bytes_be_nat [of bs] by simp
  show "length bs = 2 \<Longrightarrow> put_uint16 (get_uint16 bs) = bs" using * [of 2] ** [of 2] by (simp add: unat_of_nat)
  show "length bs = 4 \<Longrightarrow> put_uint32 (get_uint32 bs) = bs" using * [of 4] ** [of 4] by (simp add: unat_of_nat)
  show "length bs = 8 \<Longrightarrow> put_uint64 (get_uint64 bs) = bs" using * [of 8] ** [of 8] by (simp add: unat_of_nat)
qed

lemma length_slice [simp, wire_simps]: "length (slice i j b) = min (j - i) (length b - i)"
  by (simp add: slice_def)

lemma slice_append_skip [wire_simps]: "length a \<le> i \<Longrightarrow> slice i j (a @ b) = slice (i - length a) (j - length a) b"
  by (simp add: slice_def)

lemma slice_Cons [wire_simps]: "0 < i \<Longrightarrow> slice i j (x # xs) = slice (i - 1) (j - 1) xs"
  by (cases i) (auto simp: slice_def)

lemma slice_0_append [wire_simps]: "length a = j \<Longrightarrow> slice 0 j (a @ b) = a"
  by (simp add: slice_def)

section \<open>Loops\<close>

lemma foldl_invariant:
  "P a \<Longrightarrow> (\<And>a x. x \<in> set xs \<Longrightarrow> P a \<Longrightarrow> P (f a x)) \<Longrightarrow> P (foldl f a xs)"
proof (induction xs arbitrary: a)
  case (Cons x xs)
  have "P (f a x)" using Cons.prems by simp
  then show ?case using Cons by simp
qed simp

section \<open>Insertion sort\<close>

fun insert_back :: "('a \<Rightarrow> 'a \<Rightarrow> bool) \<Rightarrow> 'a \<Rightarrow> 'a list \<Rightarrow> 'a list" where
  \<comment> \<open>the sorted prefix is kept reversed: the new element moves left past those it is less than\<close>
  "insert_back lt x [] = [x]"
| "insert_back lt x (y # ys) = (if lt x y then y # insert_back lt x ys else x # y # ys)"

definition go_sort :: "('a \<Rightarrow> 'a \<Rightarrow> bool) \<Rightarrow> 'a list \<Rightarrow> 'a list" where
  "go_sort lt xs = rev (foldl (\<lambda>acc x. insert_back lt x acc) [] xs)"

lemma mset_insert_back [simp]: "mset (insert_back lt x ys) = add_mset x (mset ys)"
  by (induction ys) auto

lemma mset_foldl_insert_back: "mset (foldl (\<lambda>acc x. insert_back lt x acc) acc xs) = mset acc + mset xs"
  by (induction xs arbitrary: acc) auto

lemma mset_go_sort [simp]: "mset (go_sort lt xs) = mset xs"
  by (simp add: go_sort_def mset_foldl_insert_back)

lemma set_go_sort [simp]: "set (go_sort lt xs) = set xs"
  by (metis mset_go_sort set_mset_mset)

lemma length_go_sort [simp]: "length (go_sort lt xs) = length xs"
  by (metis mset_go_sort size_mset)

lemma go_sort_Nil_iff [simp]: "go_sort lt xs = [] \<longleftrightarrow> xs = []"
  by (metis length_0_conv length_go_sort)

lemma distinct_go_sort [simp]: "distinct (go_sort lt xs) = distinct xs"
  by (metis mset_eq_imp_distinct_iff mset_go_sort)

text \<open>The contract of a sort under a comparison that is a strict weak order on the elements.\<close>

locale comparison =
  fixes lt :: "'a \<Rightarrow> 'a \<Rightarrow> bool"
    and dom :: "'a \<Rightarrow> bool"
  assumes asym: "dom x \<Longrightarrow> dom y \<Longrightarrow> lt x y \<Longrightarrow> \<not> lt y x"
    and neg_trans: "dom x \<Longrightarrow> dom y \<Longrightarrow> dom z \<Longrightarrow> \<not> lt x y \<Longrightarrow> \<not> lt y z \<Longrightarrow> \<not> lt x z"
begin

lemma insert_back_sorted:
  "dom x \<Longrightarrow> list_all dom ys \<Longrightarrow> sorted_wrt (\<lambda>a b. \<not> lt a b) ys \<Longrightarrow>
   sorted_wrt (\<lambda>a b. \<not> lt a b) (insert_back lt x ys)"
proof (induction ys)
  case (Cons y ys)
  show ?case
  proof (cases "lt x y")
    case True
    have "set (insert_back lt x ys) = insert x (set ys)"
      by (metis mset_insert_back set_mset_add_mset_insert set_mset_mset)
    with Cons True show ?thesis using asym [of x y] by (auto simp: list_all_iff)
  next
    case False
    have "\<not> lt x z" if "z \<in> set ys" for z
      using Cons.prems that False neg_trans [of x y z] by (simp add: list_all_iff)
    with Cons.prems False show ?thesis by simp
  qed
qed simp

lemma foldl_insert_back_sorted:
  "list_all dom xs \<Longrightarrow> list_all dom acc \<Longrightarrow> sorted_wrt (\<lambda>a b. \<not> lt a b) acc \<Longrightarrow>
   sorted_wrt (\<lambda>a b. \<not> lt a b) (foldl (\<lambda>acc x. insert_back lt x acc) acc xs)"
proof (induction xs arbitrary: acc)
  case (Cons x xs)
  have "list_all dom (insert_back lt x acc)"
    using Cons.prems by (simp add: list_all_iff)
      (metis insert_iff mset_insert_back set_mset_add_mset_insert set_mset_mset)
  then show ?case using Cons insert_back_sorted by simp
qed simp

theorem go_sort_sorted: "list_all dom xs \<Longrightarrow> sorted_wrt (\<lambda>a b. \<not> lt b a) (go_sort lt xs)"
  using foldl_insert_back_sorted [of xs "[]"] by (simp add: go_sort_def sorted_wrt_rev)

theorem go_sort_least:
  "list_all dom xs \<Longrightarrow> go_sort lt xs = y # ys \<Longrightarrow> x \<in> set xs \<Longrightarrow> \<not> lt x y"
  using go_sort_sorted [of xs] set_go_sort [of lt xs] asym [of x x]
  by (cases "x = y") (auto simp: list_all_iff)

end

end
