(* ===== verification/Float64.thy ===== *)
theory Float64
  imports Complex_Main
begin

text \<open>
  IEEE 754 binary64, the \<^verbatim>\<open>float64\<close> of Go, with round-to-nearest-even written out: every
  arithmetic operation is the exact operation on the reals followed by \<open>f64_of_real\<close>, which rounds
  and overflows to an infinity. The two zeros are one value (\<open>Fin 0\<close>): no modelled operation
  divides by a zero or looks at a sign bit. Multiply-add is not fused, as on amd64.
  \<open>rnd_mono\<close> (rounding is monotone), \<open>rnd_representable\<close> (what is representable is kept) and
  \<open>wf_f64\<close> (every result is representable) are what the component theories use.
\<close>

section \<open>Rounding\<close>

fun bitlen :: "nat \<Rightarrow> nat" where
  "bitlen n = (if n = 0 then 0 else Suc (bitlen (n div 2)))"
declare bitlen.simps [simp del]

definition ilog2 :: "real \<Rightarrow> int" where
  "ilog2 x = (if 1 \<le> x then int (bitlen (nat \<lfloor>x\<rfloor>)) - 1
              else - int (bitlen (nat (\<lceil>1 / x\<rceil> - 1))))"

definition round_half_even :: "real \<Rightarrow> int" where
  "round_half_even x =
     (let f = \<lfloor>x\<rfloor>; d = x - of_int f
      in if d < 1/2 then f else if d > 1/2 then f + 1 else if even f then f else f + 1)"

definition ulp_exp :: "real \<Rightarrow> int" where
  "ulp_exp x = max (ilog2 \<bar>x\<bar> - 52) (- 1074)"

definition rnd :: "real \<Rightarrow> real" where
  "rnd x = (if x = 0 then 0
            else (let k = ulp_exp x
                  in of_int (round_half_even (x * 2 powi (- k))) * 2 powi k))"

lemma bitlen_0 [simp]: "bitlen 0 = 0"
  by (simp add: bitlen.simps)

lemma bitlen_numeral [simp]: "bitlen (numeral n) = Suc (bitlen (numeral n div 2))"
  by (subst bitlen.simps) simp

lemma bitlen_1 [simp]: "bitlen (Suc 0) = 1" "bitlen 1 = 1"
  by (simp_all add: bitlen.simps)

lemma bitlen_less: "n < 2 ^ bitlen n"
proof (induction n rule: bitlen.induct)
  case (1 n)
  show ?case
  proof (cases "n = 0")
    case False
    with 1 have "n div 2 < 2 ^ bitlen (n div 2)" by simp
    with False show ?thesis by (subst bitlen.simps) simp
  qed simp
qed

lemma bitlen_greater: "0 < n \<Longrightarrow> 2 ^ (bitlen n - 1) \<le> n"
proof (induction n rule: bitlen.induct)
  case (1 n)
  show ?case
  proof (cases "n = 1")
    case False
    with 1 have IH: "2 ^ (bitlen (n div 2) - 1) \<le> n div 2" and pos: "0 < n div 2" by auto
    then have "2 * 2 ^ (bitlen (n div 2) - 1) \<le> n" by simp
    moreover have "bitlen (n div 2) \<noteq> 0" using pos by (subst bitlen.simps) simp
    then have "(2::nat) * 2 ^ (bitlen (n div 2) - 1) = 2 ^ (bitlen n - 1)"
      using 1 by (subst (2) bitlen.simps) (cases "bitlen (n div 2)", auto)
    ultimately show ?thesis by simp
  qed simp
qed

lemma bitlen_pos: "0 < n \<Longrightarrow> 0 < bitlen n"
  by (subst bitlen.simps) simp

lemma ilog2_ge1:
  assumes "1 \<le> x"
  shows "2 powi ilog2 x \<le> x" and "x < 2 powi (ilog2 x + 1)"
proof -
  define n where "n = nat \<lfloor>x\<rfloor>"
  have n: "0 < n" "real n \<le> x" "x < real n + 1" using assms unfolding n_def by linarith+
  define L where "L = bitlen n"
  have L: "0 < L" "2 ^ (L - 1) \<le> n" "n < 2 ^ L"
    using n bitlen_greater bitlen_less bitlen_pos unfolding L_def by auto
  have il: "ilog2 x = int (L - 1)" using assms L(1) unfolding ilog2_def L_def n_def by simp
  from L(2) have "real (2 ^ (L - 1)) \<le> x" using n by (metis of_nat_le_iff order_trans)
  then show "2 powi ilog2 x \<le> x" unfolding il by simp
  from L(3) have "n + 1 \<le> 2 ^ L" by simp
  then have "real (n + 1) \<le> real (2 ^ L)" by (simp only: of_nat_le_iff)
  moreover have "ilog2 x + 1 = int L" using L(1) il by simp
  ultimately show "x < 2 powi (ilog2 x + 1)" using n by simp
qed

lemma ilog2_lt1:
  assumes "0 < x" "x < 1"
  shows "2 powi ilog2 x \<le> x" and "x < 2 powi (ilog2 x + 1)"
proof -
  define m where "m = nat (\<lceil>1 / x\<rceil> - 1)"
  have "1 < 1 / x" using assms by (simp add: field_simps)
  then have m: "0 < m" "1 / x \<le> real m + 1" "real m < 1 / x" unfolding m_def by linarith+
  define L where "L = bitlen m"
  have L: "0 < L" "2 ^ (L - 1) \<le> m" "m < 2 ^ L"
    using m bitlen_greater bitlen_less bitlen_pos unfolding L_def by auto
  have il: "ilog2 x = - int L" using assms unfolding ilog2_def L_def m_def by simp
  from L(3) have "m + 1 \<le> 2 ^ L" by simp
  then have "real (m + 1) \<le> real (2 ^ L)" by (simp only: of_nat_le_iff)
  then have "1 / x \<le> 2 ^ L" using m by simp
  then show "2 powi ilog2 x \<le> x" using assms unfolding il
    by (simp add: power_int_minus field_simps)
  from L(2) have "real (2 ^ (L - 1)) < 1 / x" using m by (metis of_nat_le_iff order_le_less_trans)
  then have "2 ^ (L - 1) < 1 / x" by simp
  then have "x < 1 / 2 ^ (L - 1)" using assms by (simp add: field_simps)
  moreover have "ilog2 x + 1 = - int (L - 1)" using il L(1) by simp
  ultimately show "x < 2 powi (ilog2 x + 1)" by (simp add: power_int_minus field_simps)
qed

lemma ilog2_lower: "0 < x \<Longrightarrow> 2 powi ilog2 x \<le> x"
  by (cases "1 \<le> x") (auto intro: ilog2_ge1 ilog2_lt1)

lemma ilog2_upper: "0 < x \<Longrightarrow> x < 2 powi (ilog2 x + 1)"
  by (cases "1 \<le> x") (auto intro: ilog2_ge1 ilog2_lt1)

lemma ilog2_less: "0 < x \<Longrightarrow> x < 2 powi e \<Longrightarrow> ilog2 x < e"
  using ilog2_lower [of x]
  by (metis le_less_trans less_le_not_le linorder_not_le one_le_numeral power_int_increasing)

lemma ilog2_mono: "0 < x \<Longrightarrow> x \<le> y \<Longrightarrow> ilog2 x \<le> ilog2 y"
  using ilog2_less [of x "ilog2 y + 1"] ilog2_upper [of y] by linarith

lemma round_half_even_int [simp]: "round_half_even (of_int n) = n"
  by (simp add: round_half_even_def)

lemma round_half_even_mono: "x \<le> y \<Longrightarrow> round_half_even x \<le> round_half_even y"
proof (cases "\<lfloor>x\<rfloor> = \<lfloor>y\<rfloor>")
  case True
  assume "x \<le> y"
  with True show ?thesis unfolding round_half_even_def Let_def by auto
next
  case False
  assume "x \<le> y"
  with False have "\<lfloor>x\<rfloor> + 1 \<le> \<lfloor>y\<rfloor>" using floor_mono [of x y] by linarith
  moreover have "round_half_even x \<le> \<lfloor>x\<rfloor> + 1" "\<lfloor>y\<rfloor> \<le> round_half_even y"
    unfolding round_half_even_def Let_def by auto
  ultimately show ?thesis by linarith
qed

lemma round_half_even_minus: "round_half_even (- x) = - round_half_even x"
proof (cases "x \<in> \<int>")
  case True
  then obtain n where "x = of_int n" by (auto elim: Ints_cases)
  then show ?thesis using round_half_even_int [of "- n"] by (metis of_int_minus round_half_even_int)
next
  case False
  have fl: "\<lfloor>- x\<rfloor> = - \<lfloor>x\<rfloor> - 1"
    using False by (auto simp: floor_minus ceiling_altdef) (metis Ints_of_int)
  show ?thesis unfolding round_half_even_def Let_def fl by auto
qed

lemma round_half_even_error: "\<bar>of_int (round_half_even x) - x\<bar> \<le> 1 / 2"
  unfolding round_half_even_def Let_def by (auto split: if_splits)

lemma rnd_0 [simp]: "rnd 0 = 0"
  by (simp add: rnd_def)

lemma rnd_minus: "rnd (- x) = - rnd x"
  by (simp add: rnd_def ulp_exp_def Let_def round_half_even_minus)

lemma rnd_scaled: "x \<noteq> 0 \<Longrightarrow> rnd x = of_int (round_half_even (x * 2 powi (- ulp_exp x))) * 2 powi ulp_exp x"
  by (simp add: rnd_def Let_def)

lemma powi_scale_int: "0 \<le> (e::int) \<Longrightarrow> \<exists>n::int. (2::real) powi e = of_int n \<and> n = 2 ^ nat e"
  by (rule exI [of _ "2 ^ nat e"]) (simp add: power_int_def)

text \<open>A real that is an integral multiple of the unit in the last place is not changed.\<close>

lemma rnd_exact:
  assumes "x * 2 powi (- ulp_exp x) = of_int n"
  shows "rnd x = x"
proof (cases "x = 0")
  case False
  have "rnd x = of_int n * 2 powi ulp_exp x"
    using False assms by (simp add: rnd_scaled)
  also have "\<dots> = x" using assms [symmetric] by (simp add: power_int_minus)
  finally show ?thesis .
qed simp

lemma rnd_representable:
  assumes "\<bar>m\<bar> < 2 ^ 53" "- 1074 \<le> e"
  shows "rnd (of_int m * 2 powi e) = of_int m * 2 powi e"
proof (cases "m = 0")
  case False
  let ?x = "of_int m * 2 powi e :: real"
  have pos: "0 < \<bar>?x\<bar>" using False by simp
  have "\<bar>?x\<bar> < 2 ^ 53 * 2 powi e" using assms(1) by (simp add: abs_mult flip: of_int_abs)
  also have "\<dots> = 2 powi (53 + e)" by (simp add: power_int_add)
  finally have "ilog2 \<bar>?x\<bar> < 53 + e" using pos ilog2_less by blast
  then have "ulp_exp ?x \<le> e" using assms(2) unfolding ulp_exp_def by simp
  then obtain n :: int where n: "(2::real) powi (e - ulp_exp ?x) = of_int n"
    using powi_scale_int [of "e - ulp_exp ?x"] by auto
  have "?x * 2 powi (- ulp_exp ?x) = of_int m * 2 powi (e - ulp_exp ?x)"
    by (simp add: power_int_diff power_int_minus field_simps)
  also have "\<dots> = of_int (m * n)" by (simp add: n)
  finally show ?thesis by (rule rnd_exact)
qed simp

lemma rnd_powi: "- 1074 \<le> e \<Longrightarrow> rnd (2 powi e) = 2 powi e"
  using rnd_representable [of 1 e] by simp

lemma rnd_of_int: "\<bar>n\<bar> < 2 ^ 53 \<Longrightarrow> rnd (of_int n) = of_int n"
  using rnd_representable [of n 0] by simp

lemma rnd_mono_pos:
  assumes "0 < x" "x \<le> y"
  shows "rnd x \<le> rnd y"
proof (cases "ulp_exp x = ulp_exp y")
  case True
  have "x * 2 powi (- ulp_exp x) \<le> y * 2 powi (- ulp_exp x)"
    using assms by (intro mult_right_mono) auto
  then show ?thesis using assms True round_half_even_mono
    by (simp add: rnd_scaled)
next
  case False
  define e where "e = ilog2 y"
  have le: "ilog2 x \<le> e" using ilog2_mono assms unfolding e_def by simp
  then have k: "ulp_exp x < ulp_exp y" using False assms unfolding ulp_exp_def e_def by auto
  then have ky: "ulp_exp y = e - 52" and lt: "ilog2 x < e"
    using assms le unfolding ulp_exp_def e_def by auto
  have "x < 2 powi (ilog2 x + 1)" using assms ilog2_upper by blast
  also have "\<dots> \<le> 2 powi e" using lt by (intro power_int_increasing) auto
  finally have xe: "x \<le> 2 powi e" by simp
  have ye: "2 powi e \<le> y" using assms ilog2_lower unfolding e_def by simp
  obtain n where n: "(2::real) powi (e - ulp_exp x) = of_int n"
    using powi_scale_int [of "e - ulp_exp x"] k ky by auto
  have "x * 2 powi (- ulp_exp x) \<le> 2 powi e * 2 powi (- ulp_exp x)"
    using xe by (intro mult_right_mono) auto
  also have "\<dots> = of_int n" using n by (simp add: power_int_diff power_int_minus field_simps)
  finally have "round_half_even (x * 2 powi (- ulp_exp x)) \<le> n"
    using round_half_even_mono [of _ "of_int n"] by simp
  then have "rnd x \<le> of_int n * 2 powi ulp_exp x"
    using assms by (simp add: rnd_scaled)
  also have "\<dots> = 2 powi e" using n [symmetric] by (simp flip: power_int_add)
  also have "\<dots> \<le> rnd y"
  proof -
    have "of_int (2 ^ 52) = (2::real) powi (e - ulp_exp y)" unfolding ky by simp
    also have "\<dots> = 2 powi e * 2 powi (- ulp_exp y)" by (simp flip: power_int_add)
    also have "\<dots> \<le> y * 2 powi (- ulp_exp y)" using ye by (intro mult_right_mono) auto
    finally have "2 ^ 52 \<le> round_half_even (y * 2 powi (- ulp_exp y))"
      using round_half_even_mono round_half_even_int by metis
    then have "of_int (2 ^ 52) * 2 powi ulp_exp y \<le> rnd y"
      using assms by (simp only: rnd_scaled) (intro mult_right_mono, auto)
    moreover have "of_int (2 ^ 52) * (2::real) powi ulp_exp y = 2 powi e"
      unfolding ky by (simp add: power_int_diff)
    ultimately show ?thesis by simp
  qed
  finally show ?thesis .
qed

lemma rnd_nonneg: "0 \<le> x \<Longrightarrow> 0 \<le> rnd x"
proof (cases "x = 0")
  case False
  assume "0 \<le> x"
  then have "of_int 0 \<le> x * 2 powi (- ulp_exp x)" by simp
  then have "0 \<le> round_half_even (x * 2 powi (- ulp_exp x))"
    using round_half_even_mono round_half_even_int by metis
  then show ?thesis using False by (simp add: rnd_scaled)
qed simp

theorem rnd_mono: "x \<le> y \<Longrightarrow> rnd x \<le> rnd y"
proof -
  assume le: "x \<le> y"
  consider "0 < x" | "x \<le> 0" "0 \<le> y" | "y < 0" by linarith
  then show ?thesis
  proof cases
    case 1 then show ?thesis using rnd_mono_pos le by blast
  next
    case 2 then show ?thesis using rnd_nonneg [of y] rnd_nonneg [of "- x"] rnd_minus [of x] by simp
  next
    case 3 then show ?thesis using rnd_mono_pos [of "- y" "- x"] le by (simp add: rnd_minus)
  qed
qed

lemma rnd_le: "x \<le> y \<Longrightarrow> rnd y = y \<Longrightarrow> rnd x \<le> y"
  using rnd_mono by metis

lemma rnd_ge: "x \<le> y \<Longrightarrow> rnd x = x \<Longrightarrow> x \<le> rnd y"
  using rnd_mono by metis

lemma rnd_obtain:
  obtains m e where "rnd x = of_int m * 2 powi e" "\<bar>m\<bar> < 2 ^ 53" "- 1074 \<le> e"
proof (cases "x = 0")
  case True
  then show ?thesis using that [of 0 0] by simp
next
  case False
  define k where "k = ulp_exp x"
  define n where "n = round_half_even (x * 2 powi (- k))"
  have r: "rnd x = of_int n * 2 powi k" using False by (simp add: rnd_scaled k_def n_def)
  have k: "- 1074 \<le> k" "ilog2 \<bar>x\<bar> + 1 \<le> k + 53" unfolding k_def ulp_exp_def by auto
  have "\<bar>x\<bar> < 2 powi (ilog2 \<bar>x\<bar> + 1)" using False ilog2_upper by simp
  also have "\<dots> \<le> 2 powi (k + 53)" using k by (intro power_int_increasing) auto
  finally have "\<bar>x\<bar> * 2 powi (- k) \<le> 2 powi (k + 53) * 2 powi (- k)"
    by (intro mult_right_mono) auto
  also have "\<dots> = of_int (2 ^ 53)" by (simp flip: power_int_add)
  finally have b: "\<bar>x * 2 powi (- k)\<bar> \<le> of_int (2 ^ 53)" by (simp add: abs_mult)
  have "n \<le> 2 ^ 53" "- (2 ^ 53) \<le> n"
    using b round_half_even_mono [of "x * 2 powi (- k)" "of_int (2 ^ 53)"]
      round_half_even_mono [of "of_int (- (2 ^ 53))" "x * 2 powi (- k)"]
    unfolding n_def by (simp_all only: round_half_even_int abs_le_iff) auto
  then consider "\<bar>n\<bar> < 2 ^ 53" | "n = 2 ^ 53" | "n = - (2 ^ 53)" by linarith
  then show ?thesis
  proof cases
    case 1 then show ?thesis using that r k(1) by blast
  next
    case 2
    then have "rnd x = of_int 1 * 2 powi (k + 53)" using r by (simp add: power_int_add)
    then show ?thesis using that [of 1 "k + 53"] k(1) by simp
  next
    case 3
    then have "rnd x = of_int (- 1) * 2 powi (k + 53)" using r by (simp add: power_int_add)
    then show ?thesis using that [of "- 1" "k + 53"] k(1) by simp
  qed
qed

lemma rnd_idem [simp]: "rnd (rnd x) = rnd x"
  by (rule rnd_obtain [of x]) (simp add: rnd_representable)

lemma rnd_scale: "rnd r = r \<Longrightarrow> 0 \<le> k \<Longrightarrow> rnd (r * 2 powi k) = r * 2 powi k"
proof -
  assume r: "rnd r = r" and k: "0 \<le> k"
  obtain m e where m: "r = of_int m * 2 powi e" "\<bar>m\<bar> < 2 ^ 53" "- 1074 \<le> e"
    using rnd_obtain [of r] unfolding r by blast
  then have "r * 2 powi k = of_int m * 2 powi (e + k)" by (simp add: power_int_add)
  moreover have "rnd (of_int m * 2 powi (e + k)) = of_int m * 2 powi (e + k)"
    using m k by (intro rnd_representable) auto
  ultimately show ?thesis by simp
qed

section \<open>Values, order and arithmetic\<close>

datatype f64 = NaN | PInf | NInf | Fin real

definition f64_limit :: real where
  \<comment> \<open>one above the largest finite value, in the last binade\<close>
  "f64_limit = 2 ^ 1024"

definition f64_of_real :: "real \<Rightarrow> f64" where
  "f64_of_real r =
     (let v = rnd r in if f64_limit \<le> v then PInf else if v \<le> - f64_limit then NInf else Fin v)"

fun f64_neg :: "f64 \<Rightarrow> f64" where
  "f64_neg NaN = NaN"
| "f64_neg PInf = NInf"
| "f64_neg NInf = PInf"
| "f64_neg (Fin x) = Fin (- x)"

fun f64_add :: "f64 \<Rightarrow> f64 \<Rightarrow> f64" where
  "f64_add (Fin a) (Fin b) = f64_of_real (a + b)"
| "f64_add NaN y = NaN"
| "f64_add x NaN = NaN"
| "f64_add PInf NInf = NaN"
| "f64_add NInf PInf = NaN"
| "f64_add PInf y = PInf"
| "f64_add NInf y = NInf"
| "f64_add x PInf = PInf"
| "f64_add x NInf = NInf"

definition inf_of_sign :: "real \<Rightarrow> f64" where
  "inf_of_sign s = (if s = 0 then NaN else if 0 < s then PInf else NInf)"

fun f64_sign :: "f64 \<Rightarrow> real" where
  "f64_sign (Fin x) = sgn x"
| "f64_sign PInf = 1"
| "f64_sign NInf = - 1"
| "f64_sign NaN = 0"

fun f64_mul :: "f64 \<Rightarrow> f64 \<Rightarrow> f64" where
  "f64_mul (Fin a) (Fin b) = f64_of_real (a * b)"
| "f64_mul NaN y = NaN"
| "f64_mul x NaN = NaN"
| "f64_mul x y = inf_of_sign (f64_sign x * f64_sign y)"

fun f64_div :: "f64 \<Rightarrow> f64 \<Rightarrow> f64" where
  "f64_div (Fin a) (Fin b) = (if b = 0 then inf_of_sign (sgn a) else f64_of_real (a / b))"
| "f64_div NaN y = NaN"
| "f64_div x NaN = NaN"
| "f64_div (Fin a) y = Fin 0"
| "f64_div x (Fin b) = (if 0 \<le> b then x else f64_neg x)"
| "f64_div x y = NaN"

fun f64_le :: "f64 \<Rightarrow> f64 \<Rightarrow> bool" where
  "f64_le (Fin a) (Fin b) = (a \<le> b)"
| "f64_le NaN y = False"
| "f64_le x NaN = False"
| "f64_le NInf y = True"
| "f64_le x PInf = True"
| "f64_le x y = False"

fun f64_lt :: "f64 \<Rightarrow> f64 \<Rightarrow> bool" where
  "f64_lt (Fin a) (Fin b) = (a < b)"
| "f64_lt NaN y = False"
| "f64_lt x NaN = False"
| "f64_lt PInf y = False"
| "f64_lt x NInf = False"
| "f64_lt x y = True"

instantiation f64 :: "{zero, one, plus, minus, uminus, times, inverse, abs, ord}"
begin

definition zero_f64 :: f64 where "zero_f64 = Fin 0"
definition one_f64 :: f64 where "one_f64 = Fin 1"
definition plus_f64 :: "f64 \<Rightarrow> f64 \<Rightarrow> f64" where "plus_f64 = f64_add"
definition minus_f64 :: "f64 \<Rightarrow> f64 \<Rightarrow> f64" where "minus_f64 x y = f64_add x (f64_neg y)"
definition uminus_f64 :: "f64 \<Rightarrow> f64" where "uminus_f64 = f64_neg"
definition times_f64 :: "f64 \<Rightarrow> f64 \<Rightarrow> f64" where "times_f64 = f64_mul"
definition divide_f64 :: "f64 \<Rightarrow> f64 \<Rightarrow> f64" where "divide_f64 = f64_div"
definition inverse_f64 :: "f64 \<Rightarrow> f64" where "inverse_f64 = f64_div (Fin 1)"
definition abs_f64 :: "f64 \<Rightarrow> f64" where "abs_f64 x = (if f64_lt x (Fin 0) then f64_neg x else x)"
definition less_eq_f64 :: "f64 \<Rightarrow> f64 \<Rightarrow> bool" where "less_eq_f64 = f64_le"
definition less_f64 :: "f64 \<Rightarrow> f64 \<Rightarrow> bool" where "less_f64 = f64_lt"

instance ..

end

definition feq :: "f64 \<Rightarrow> f64 \<Rightarrow> bool" where
  \<comment> \<open>Go's \<^verbatim>\<open>==\<close>: a NaN is not equal to itself.\<close>
  "feq x y \<longleftrightarrow> x \<noteq> NaN \<and> x = y"

definition fmax :: "f64 \<Rightarrow> f64 \<Rightarrow> f64" where
  \<comment> \<open>\<^verbatim>\<open>math.Max\<close>\<close>
  "fmax x y = (if x = PInf \<or> y = PInf then PInf else if x = NaN \<or> y = NaN then NaN
               else if y < x then x else y)"

definition fmin :: "f64 \<Rightarrow> f64 \<Rightarrow> f64" where
  \<comment> \<open>\<^verbatim>\<open>math.Min\<close>\<close>
  "fmin x y = (if x = NInf \<or> y = NInf then NInf else if x = NaN \<or> y = NaN then NaN
               else if x < y then x else y)"

definition fmin_builtin :: "f64 \<Rightarrow> f64 \<Rightarrow> f64" where
  \<comment> \<open>the built-in \<^verbatim>\<open>min\<close> of Go, which returns NaN as soon as one argument is NaN\<close>
  "fmin_builtin x y = (if x = NaN \<or> y = NaN then NaN else if y < x then y else x)"

definition f64_of_int :: "int \<Rightarrow> f64" where
  "f64_of_int n = f64_of_real (of_int n)"

definition ldexp1 :: "int \<Rightarrow> f64" where
  \<comment> \<open>\<^verbatim>\<open>math.Ldexp(1, n)\<close>\<close>
  "ldexp1 n = f64_of_real (2 powi n)"

definition wf_f64 :: "f64 \<Rightarrow> bool" where
  "wf_f64 x = (case x of Fin r \<Rightarrow> rnd r = r \<and> \<bar>r\<bar> < f64_limit | _ \<Rightarrow> True)"

lemmas f64_arith_defs = zero_f64_def one_f64_def plus_f64_def minus_f64_def uminus_f64_def
  times_f64_def divide_f64_def inverse_f64_def abs_f64_def less_eq_f64_def less_f64_def

lemma f64_fin_simps [simp]:
  "Fin a + Fin b = f64_of_real (a + b)"
  "Fin a - Fin b = f64_of_real (a - b)"
  "Fin a * Fin b = f64_of_real (a * b)"
  "b \<noteq> 0 \<Longrightarrow> Fin a / Fin b = f64_of_real (a / b)"
  "- Fin a = Fin (- a)"
  "\<bar>Fin a\<bar> = Fin \<bar>a\<bar>"
  "Fin a \<le> Fin b \<longleftrightarrow> a \<le> b"
  "Fin a < Fin b \<longleftrightarrow> a < b"
  by (auto simp: f64_arith_defs)

lemma f64_nan_simps [simp]:
  "NaN + x = NaN" "x + NaN = NaN" "NaN - x = NaN" "x - NaN = NaN"
  "NaN * x = NaN" "x * NaN = NaN" "NaN / x = NaN" "x / NaN = NaN"
  "- NaN = NaN" "\<bar>NaN\<bar> = NaN"
  "\<not> NaN \<le> x" "\<not> x \<le> NaN" "\<not> NaN < x" "\<not> x < NaN"
  by (cases x; simp add: f64_arith_defs)+

lemma f64_inf_order [simp]:
  "x \<le> PInf \<longleftrightarrow> x \<noteq> NaN" "NInf \<le> x \<longleftrightarrow> x \<noteq> NaN"
  "PInf \<le> x \<longleftrightarrow> x = PInf" "x \<le> NInf \<longleftrightarrow> x = NInf"
  "\<not> PInf < x" "\<not> x < NInf"
  "x < PInf \<longleftrightarrow> x \<noteq> NaN \<and> x \<noteq> PInf" "NInf < x \<longleftrightarrow> x \<noteq> NaN \<and> x \<noteq> NInf"
  by (cases x; simp add: f64_arith_defs)+

lemma f64_zero_fin: "(0::f64) = Fin 0" and f64_one_fin: "(1::f64) = Fin 1"
  by (simp_all add: f64_arith_defs)

section \<open>Order laws\<close>

lemma f64_le_trans: "x \<le> y \<Longrightarrow> y \<le> z \<Longrightarrow> x \<le> (z::f64)"
  by (cases x; cases y; cases z) auto

lemma f64_le_less_trans: "x \<le> y \<Longrightarrow> y < z \<Longrightarrow> x < (z::f64)"
  by (cases x; cases y; cases z) auto

lemma f64_less_le_trans: "x < y \<Longrightarrow> y \<le> z \<Longrightarrow> x < (z::f64)"
  by (cases x; cases y; cases z) auto

lemma f64_less_trans: "x < y \<Longrightarrow> y < z \<Longrightarrow> x < (z::f64)"
  by (cases x; cases y; cases z) auto

lemma f64_less_imp_le: "x < y \<Longrightarrow> x \<le> (y::f64)"
  by (cases x; cases y) auto

lemma f64_antisym: "x \<le> y \<Longrightarrow> y \<le> x \<Longrightarrow> x = (y::f64)"
  by (cases x; cases y) auto

lemma f64_not_less: "x \<noteq> NaN \<Longrightarrow> y \<noteq> NaN \<Longrightarrow> \<not> x < y \<longleftrightarrow> y \<le> (x::f64)"
  by (cases x; cases y) auto

lemma f64_not_le: "x \<noteq> NaN \<Longrightarrow> y \<noteq> NaN \<Longrightarrow> \<not> x \<le> y \<longleftrightarrow> y < (x::f64)"
  by (cases x; cases y) auto

lemma f64_le_refl [simp]: "x \<le> (x::f64) \<longleftrightarrow> x \<noteq> NaN"
  by (cases x) auto

lemma f64_less_irrefl [simp]: "\<not> x < (x::f64)"
  by (cases x) auto

lemma f64_le_less_eq: "x \<le> y \<longleftrightarrow> x < y \<or> (x = y \<and> x \<noteq> (NaN::f64))"
  by (cases x; cases y) auto

lemma f64_le_not_NaN: "x \<le> y \<Longrightarrow> x \<noteq> NaN \<and> y \<noteq> (NaN::f64)"
  by (cases x; cases y) auto

lemma f64_less_not_NaN: "x < y \<Longrightarrow> x \<noteq> NaN \<and> y \<noteq> (NaN::f64)"
  by (cases x; cases y) auto

lemma f64_less_asym: "x < y \<Longrightarrow> \<not> y < (x::f64)"
  by (cases x; cases y) auto

lemma fmax_ge: "x \<noteq> NaN \<Longrightarrow> y \<noteq> NaN \<Longrightarrow> x \<le> fmax x y \<and> y \<le> fmax x y"
  by (cases x; cases y) (auto simp: fmax_def)

lemma fmin_le: "x \<noteq> NaN \<Longrightarrow> y \<noteq> NaN \<Longrightarrow> fmin x y \<le> x \<and> fmin x y \<le> y"
  by (cases x; cases y) (auto simp: fmin_def)

lemma fmax_Fin [simp]: "fmax (Fin a) (Fin b) = Fin (max a b)"
  by (auto simp: fmax_def max_def)

lemma fmin_Fin [simp]: "fmin (Fin a) (Fin b) = Fin (min a b)"
  by (auto simp: fmin_def min_def)

lemma fmin_builtin_Fin [simp]: "fmin_builtin (Fin a) (Fin b) = Fin (min a b)"
  by (auto simp: fmin_builtin_def min_def)

section \<open>Rounded results\<close>

lemma f64_limit_pos [simp]: "0 < f64_limit" "2 ^ 53 < f64_limit" "\<not> f64_limit \<le> 0"
proof -
  show a: "2 ^ 53 < f64_limit" unfolding f64_limit_def by (rule power_strict_increasing) simp_all
  show b: "0 < f64_limit" by (rule less_trans [OF _ a]) simp
  show "\<not> f64_limit \<le> 0" using b by simp
qed

lemma f64_of_real_mono: "x \<le> y \<Longrightarrow> f64_of_real x \<le> f64_of_real y"
  using rnd_mono [of x y] by (auto simp: f64_of_real_def Let_def)

lemma f64_of_real_exact: "rnd r = r \<Longrightarrow> \<bar>r\<bar> < f64_limit \<Longrightarrow> f64_of_real r = Fin r"
  by (auto simp: f64_of_real_def Let_def abs_less_iff)

lemma f64_of_real_not_NaN [simp]: "f64_of_real r \<noteq> NaN"
  by (simp add: f64_of_real_def Let_def)

lemma f64_of_real_0 [simp]: "f64_of_real 0 = Fin 0"
  by (rule f64_of_real_exact) simp_all

lemma wf_f64_of_real [simp]: "wf_f64 (f64_of_real r)"
  by (auto simp: f64_of_real_def wf_f64_def Let_def abs_less_iff)

lemma f64_of_real_ge: "wf_f64 (Fin a) \<Longrightarrow> a \<le> r \<Longrightarrow> Fin a \<le> f64_of_real r"
  using f64_of_real_mono [of a r] by (simp add: f64_of_real_exact wf_f64_def)

lemma f64_of_real_le: "wf_f64 (Fin a) \<Longrightarrow> r \<le> a \<Longrightarrow> f64_of_real r \<le> Fin a"
  using f64_of_real_mono [of r a] by (simp add: f64_of_real_exact wf_f64_def)

lemma wf_f64_int: "\<bar>n\<bar> < 2 ^ 53 \<Longrightarrow> wf_f64 (Fin (of_int n))"
proof -
  assume n: "\<bar>n\<bar> < 2 ^ 53"
  then have "\<bar>of_int n\<bar> < (2::real) ^ 53" by (simp flip: of_int_abs)
  also have "\<dots> < f64_limit" by (rule f64_limit_pos)
  finally show ?thesis using rnd_of_int [OF n] by (simp add: wf_f64_def)
qed

lemma wf_f64_uminus: "wf_f64 x \<Longrightarrow> wf_f64 (- x)"
  by (cases x) (auto simp: wf_f64_def rnd_minus f64_arith_defs)

lemma wf_f64_abs: "wf_f64 x \<Longrightarrow> wf_f64 \<bar>x\<bar>"
  by (cases x) (auto simp: wf_f64_def rnd_minus abs_real_def f64_arith_defs)

lemma wf_f64_add [simp]: "wf_f64 ((x::f64) + y)"
  unfolding plus_f64_def by (cases x; cases y) (auto simp: wf_f64_def [of NaN] wf_f64_def [of PInf] wf_f64_def [of NInf])

lemma wf_f64_diff [simp]: "wf_f64 ((x::f64) - y)"
  using wf_f64_add [of x "- y"] by (simp add: f64_arith_defs)

lemma inf_of_sign_cases: "inf_of_sign s \<in> {NaN, PInf, NInf}"
  by (simp add: inf_of_sign_def)

lemma wf_f64_special [simp]: "wf_f64 NaN" "wf_f64 PInf" "wf_f64 NInf" "wf_f64 (Fin 0)" "wf_f64 (inf_of_sign s)"
  using inf_of_sign_cases [of s] by (auto simp: wf_f64_def)

lemma wf_f64_mult [simp]: "wf_f64 ((x::f64) * y)"
  unfolding times_f64_def by (cases x; cases y) auto

lemma wf_f64_fmax: "wf_f64 x \<Longrightarrow> wf_f64 y \<Longrightarrow> wf_f64 (fmax x y)"
  by (simp add: fmax_def)

lemma wf_f64_fmin: "wf_f64 x \<Longrightarrow> wf_f64 y \<Longrightarrow> wf_f64 (fmin x y)"
  by (simp add: fmin_def)

lemma f64_add_nonneg: "Fin 0 \<le> x \<Longrightarrow> Fin 0 \<le> y \<Longrightarrow> Fin 0 \<le> x + y"
  by (cases x; cases y) (auto simp: f64_arith_defs intro: f64_of_real_ge [unfolded less_eq_f64_def])

lemma f64_mult_nonneg:
  "Fin 0 \<le> x \<Longrightarrow> Fin 0 \<le> y \<Longrightarrow> y \<noteq> PInf \<Longrightarrow> x \<noteq> PInf \<Longrightarrow> Fin 0 \<le> x * y"
  by (cases x; cases y) (auto simp: f64_arith_defs intro: f64_of_real_ge [unfolded less_eq_f64_def])

lemma f64_add_increasing:
  "wf_f64 x \<Longrightarrow> x \<noteq> NaN \<Longrightarrow> Fin 0 \<le> y \<Longrightarrow> x \<noteq> NInf \<Longrightarrow> x \<le> x + y"
  by (cases x; cases y) (auto simp: f64_arith_defs intro: f64_of_real_ge [unfolded less_eq_f64_def])

text \<open>
  Evaluation: \<open>simp add: f64_eval\<close> computes an operation on concrete operands. The overflow test
  is decided on the binary exponent, so that no 1024-bit numeral is built.
\<close>

lemma f64_add_NaN_iff [simp]: "x + Fin y = NaN \<longleftrightarrow> x = NaN" "Fin y + x = NaN \<longleftrightarrow> x = NaN"
  "x - Fin y = NaN \<longleftrightarrow> x = NaN" "Fin y - x = NaN \<longleftrightarrow> x = NaN"
  by (cases x; simp add: f64_arith_defs)+

lemma f64_square_nonneg: "x \<noteq> NaN \<Longrightarrow> Fin 0 \<le> x * (x::f64)"
  by (cases x) (simp_all add: f64_arith_defs inf_of_sign_def f64_of_real_ge [unfolded less_eq_f64_def])

lemma f64_scale_nonneg: "0 < r \<Longrightarrow> Fin 0 \<le> x \<Longrightarrow> Fin 0 \<le> Fin r * x"
  by (cases x) (simp_all add: f64_arith_defs inf_of_sign_def f64_of_real_ge [unfolded less_eq_f64_def])

lemma f64_div_nonneg: "Fin 0 \<le> x \<Longrightarrow> 0 < r \<Longrightarrow> Fin 0 \<le> x / Fin r"
  by (cases x) (simp_all add: f64_arith_defs inf_of_sign_def f64_of_real_ge [unfolded less_eq_f64_def])

lemma f64_between_Fin: "Fin a \<le> x \<Longrightarrow> x \<le> Fin b \<Longrightarrow> \<exists>r. x = Fin r \<and> a \<le> r \<and> r \<le> b"
  by (cases x) auto

lemma f64_of_real_between:
  "wf_f64 (Fin a) \<Longrightarrow> wf_f64 (Fin b) \<Longrightarrow> a \<le> r \<Longrightarrow> r \<le> b \<Longrightarrow> Fin a \<le> f64_of_real r \<and> f64_of_real r \<le> Fin b"
  by (simp add: f64_of_real_ge f64_of_real_le)

lemma ilog2_overflow: "v \<noteq> 0 \<Longrightarrow> 1024 \<le> ilog2 \<bar>v\<bar> \<longleftrightarrow> f64_limit \<le> \<bar>v\<bar>"
proof
  assume v: "v \<noteq> 0" and "1024 \<le> ilog2 \<bar>v\<bar>"
  then have "(2::real) powi 1024 \<le> 2 powi ilog2 \<bar>v\<bar>" by (intro power_int_increasing) auto
  also have "\<dots> \<le> \<bar>v\<bar>" using v ilog2_lower by simp
  finally show "f64_limit \<le> \<bar>v\<bar>" by (simp only: f64_limit_def power_int_numeral)
next
  assume v: "v \<noteq> 0" and b: "f64_limit \<le> \<bar>v\<bar>"
  show "1024 \<le> ilog2 \<bar>v\<bar>"
  proof (rule ccontr)
    assume "\<not> 1024 \<le> ilog2 \<bar>v\<bar>"
    then have "(2::real) powi (ilog2 \<bar>v\<bar> + 1) \<le> 2 powi 1024" by (intro power_int_increasing) auto
    also have "\<dots> = f64_limit" by (simp only: f64_limit_def power_int_numeral)
    finally have "\<bar>v\<bar> < f64_limit"
      using ilog2_upper [of "\<bar>v\<bar>"] v by (meson less_le_trans zero_less_abs_iff)
    with b show False by simp
  qed
qed

lemma f64_of_real_eval [code]:
  "f64_of_real r =
     (let v = rnd r in if v \<noteq> 0 \<and> 1024 \<le> ilog2 \<bar>v\<bar> then (if 0 < v then PInf else NInf) else Fin v)"
proof -
  define v where "v = rnd r"
  have pos: "0 < f64_limit" by simp
  have iff: "v \<noteq> 0 \<Longrightarrow> 1024 \<le> ilog2 \<bar>v\<bar> \<longleftrightarrow> f64_limit \<le> \<bar>v\<bar>" by (rule ilog2_overflow)
  have "(if f64_limit \<le> v then PInf else if v \<le> - f64_limit then NInf else Fin v) =
        (if v \<noteq> 0 \<and> 1024 \<le> ilog2 \<bar>v\<bar> then if 0 < v then PInf else NInf else Fin v)"
  proof (cases "v < 0")
    case True
    then have "1024 \<le> ilog2 \<bar>v\<bar> \<longleftrightarrow> v \<le> - f64_limit" "\<not> f64_limit \<le> v" using pos iff by linarith+
    with True show ?thesis by simp
  next
    case False
    then show ?thesis using pos iff by (cases "v = 0") auto
  qed
  then show ?thesis by (simp only: f64_of_real_def v_def Let_def)
qed

lemmas f64_eval = f64_of_real_eval rnd_def ulp_exp_def ilog2_def round_half_even_def Let_def

section \<open>Square root\<close>

fun isqrt :: "nat \<Rightarrow> nat" where
  "isqrt n = (if n = 0 then 0
              else (let r = 2 * isqrt (n div 4) in if Suc r * Suc r \<le> n then Suc r else r))"
declare isqrt.simps [simp del]

definition sqrt_prec :: "real \<Rightarrow> int" where
  "sqrt_prec x = (109 - ilog2 x) div 2"

definition sqrt_sticky :: "real \<Rightarrow> real" where
  \<comment> \<open>55 or more bits of the root, with one more bit that says whether the rest is zero\<close>
  "sqrt_sticky x =
     (let k = sqrt_prec x; y = x * 2 powi (2 * k); s = isqrt (nat \<lfloor>y\<rfloor>)
      in (if of_nat (s * s) = y then of_nat s else of_nat s + 1 / 2) * 2 powi (- k))"

definition fsqrt :: "f64 \<Rightarrow> f64" where
  \<comment> \<open>\<^verbatim>\<open>math.Sqrt\<close>\<close>
  "fsqrt x = (case x of
      NaN \<Rightarrow> NaN | PInf \<Rightarrow> PInf | NInf \<Rightarrow> NaN
    | Fin r \<Rightarrow> if r < 0 then NaN else if r = 0 then Fin 0 else f64_of_real (sqrt_sticky r))"

lemma isqrt_bounds: "isqrt n * isqrt n \<le> n \<and> n < Suc (isqrt n) * Suc (isqrt n)"
proof (induction n rule: isqrt.induct)
  case (1 n)
  show ?case
  proof (cases "n = 0")
    case True
    then show ?thesis by (simp add: isqrt.simps)
  next
    case False
    define q where "q = isqrt (n div 4)"
    from 1 False have q: "q * q \<le> n div 4" "n div 4 < Suc q * Suc q" unfolding q_def by auto
    have i: "isqrt n = (if Suc (2 * q) * Suc (2 * q) \<le> n then Suc (2 * q) else 2 * q)"
      using False by (subst isqrt.simps) (simp add: q_def Let_def)
    have "4 * (q * q) \<le> n" using q(1) by simp
    then have lo: "(2 * q) * (2 * q) \<le> n" by (simp add: algebra_simps)
    have "n < 4 * (Suc q * Suc q)" using q(2) by simp
    then have hi: "n < Suc (Suc (2 * q)) * Suc (Suc (2 * q))" by (simp add: algebra_simps)
    show ?thesis using lo hi unfolding i by auto
  qed
qed

text \<open>No rounding boundary lies strictly between two neighbours of a 55-bit grid.\<close>

lemma round_half_even_grid:
  fixes s :: int
  assumes "2 \<le> j" "of_int s < u" "u < of_int s + 1" "of_int s < v" "v < of_int s + 1"
  shows "round_half_even (u * 2 powi (- int j)) = round_half_even (v * 2 powi (- int j))"
proof -
  define P where "P = (2::int) ^ j"
  define H where "H = (2::int) ^ (j - 1)"
  have P: "P = 2 * H" "0 < H" "real_of_int P = 2 powi int j" using assms(1) unfolding P_def H_def
    by (auto simp: power_int_def) (cases j, auto)
  define f where "f = s div P"
  have f: "f * P \<le> s" "s + 1 \<le> f * P + P"
    using P div_mult_mod_eq [of s P] pos_mod_bound [of P s] pos_mod_sign [of P s]
    unfolding f_def by linarith+
  have fl: "\<lfloor>w / of_int P\<rfloor> = f" and half: "w / of_int P - of_int f < 1 / 2 \<longleftrightarrow> s < f * P + H"
    and half': "w / of_int P - of_int f > 1 / 2 \<longleftrightarrow> \<not> s < f * P + H"
    if w: "of_int s < w" "w < of_int s + 1" for w :: real
  proof -
    have Pp: "0 < real_of_int P" using P by simp
    have r: "real_of_int (f * P) \<le> of_int s" "of_int s + 1 \<le> real_of_int (f * P + P)" using f by linarith+
    show "\<lfloor>w / of_int P\<rfloor> = f"
      using r w Pp by (simp add: floor_eq_iff field_simps)
    have e: "w / of_int P - of_int f < 1 / 2 \<longleftrightarrow> w < of_int (f * P + H)"
      "w / of_int P - of_int f > 1 / 2 \<longleftrightarrow> w > of_int (f * P + H)"
      using Pp P(1) by (simp_all add: field_simps) linarith+
    show "w / of_int P - of_int f < 1 / 2 \<longleftrightarrow> s < f * P + H"
      unfolding e using w by linarith
    show "w / of_int P - of_int f > 1 / 2 \<longleftrightarrow> \<not> s < f * P + H"
      unfolding e using w by linarith
  qed
  have "w * 2 powi (- int j) = w / of_int P" for w :: real
    using P by (simp add: power_int_minus field_simps)
  then show ?thesis
    using fl [OF assms(2,3)] fl [OF assms(4,5)] half [OF assms(2,3)] half [OF assms(4,5)]
      half' [OF assms(2,3)] half' [OF assms(4,5)]
    by (simp add: round_half_even_def Let_def)
qed

lemma rnd_grid:
  fixes s :: int
  assumes "2 ^ 54 \<le> s" "of_int s < u * 2 powi k" "u * 2 powi k < of_int s + 1"
    "of_int s < v * 2 powi k" "v * 2 powi k < of_int s + 1"
  shows "rnd u = rnd v"
proof -
  define x where "x = of_int s * (2::real) powi (- k)"
  have s: "0 < s" using assms(1) by (rule less_le_trans [rotated]) simp
  have x: "0 < x" using s by (simp add: x_def)
  define e where "e = ilog2 x"
  have sk: "of_int s = x * 2 powi k" by (simp add: x_def power_int_minus)
  have lo: "2 powi e \<le> x" and hi: "x < 2 powi (e + 1)" using x ilog2_lower ilog2_upper unfolding e_def by auto
  have e54: "54 \<le> e + k"
  proof (rule ccontr)
    assume "\<not> 54 \<le> e + k"
    then have "(2::real) powi (e + 1 + k) \<le> 2 powi 54" by (intro power_int_increasing) auto
    moreover have "of_int s < (2::real) powi (e + 1) * 2 powi k" unfolding sk using hi by (intro mult_strict_right_mono) auto
    ultimately have "of_int s < (2::real) ^ 54" by (simp add: power_int_add)
    with assms(1) show False by (metis of_int_less_iff of_int_numeral of_int_power linorder_not_less)
  qed
  have pw: "(2::real) powi (e + 1) * 2 powi k = of_int (2 ^ nat (e + 1 + k))"
  proof -
    have "(2::real) powi (e + 1) * 2 powi k = 2 powi (e + 1 + k)" by (simp add: power_int_add)
    also have "\<dots> = of_int (2 ^ nat (e + 1 + k))" using e54 by (simp add: power_int_def)
    finally show ?thesis .
  qed
  have same: "ilog2 \<bar>w\<bar> = e \<and> w > 0" if w: "of_int s < w * 2 powi k" "w * 2 powi k < of_int s + 1" for w
  proof -
    have "x * 2 powi k < w * 2 powi k" using w(1) unfolding sk .
    then have xw: "x < w" by simp
    have "of_int s < (2::real) powi (e + 1) * 2 powi k" unfolding sk using hi by (intro mult_strict_right_mono) auto
    also note pw
    finally have "s + 1 \<le> 2 ^ nat (e + 1 + k)" by (simp only: of_int_less_iff)
    then have "of_int s + 1 \<le> real_of_int (2 ^ nat (e + 1 + k))" by linarith
    also note pw [symmetric]
    finally have "w * 2 powi k < 2 powi (e + 1) * 2 powi k" using w by linarith
    then have "w < 2 powi (e + 1)" by simp
    then have "ilog2 w \<le> e" using ilog2_less [of w "e + 1"] x xw by simp
    moreover have "e \<le> ilog2 w" using ilog2_mono x xw unfolding e_def by simp
    ultimately show ?thesis using x xw by simp
  qed
  define q where "q = max (e - 52) (- 1074)"
  have q: "ulp_exp u = q" "ulp_exp v = q" "u \<noteq> 0" "v \<noteq> 0"
    using same [OF assms(2,3)] same [OF assms(4,5)] unfolding ulp_exp_def q_def by auto
  have qk: "2 \<le> q + k" using e54 unfolding q_def by simp
  define j where "j = nat (q + k)"
  have j: "int j = q + k" "2 \<le> j" using qk unfolding j_def by simp_all
  have sc: "w * 2 powi (- q) = (w * 2 powi k) * 2 powi (- int j)" for w :: real
  proof -
    have "- q = k + (- int j)" using j by simp
    then have "(2::real) powi (- q) = 2 powi k * 2 powi (- int j)" by (simp only: power_int_add [OF disjI1 [OF zero_neq_numeral [symmetric]]])
    then show ?thesis by simp
  qed
  show ?thesis
    using round_half_even_grid [OF j(2) assms(2-5)] q by (simp add: rnd_scaled sc)
qed

lemma sqrt_sticky_correct:
  assumes "0 < x"
  shows "rnd (sqrt_sticky x) = rnd (sqrt x)"
proof -
  define k where "k = sqrt_prec x"
  define y where "y = x * 2 powi (2 * k)"
  define s where "s = isqrt (nat \<lfloor>y\<rfloor>)"
  have st: "sqrt_sticky x = (if real (s * s) = y then real s else real s + 1 / 2) * 2 powi (- k)"
    by (simp add: sqrt_sticky_def k_def y_def s_def Let_def)
  have y: "0 < y" using assms by (simp add: y_def)
  have ry: "sqrt y = sqrt x * 2 powi k"
    by (simp add: y_def real_sqrt_mult power_int_mult mult.commute [of 2] power2_eq_square flip: power2_eq_square)
  have b: "s * s \<le> nat \<lfloor>y\<rfloor>" "nat \<lfloor>y\<rfloor> < Suc s * Suc s" using isqrt_bounds unfolding s_def by blast+
  have lo: "real (s * s) \<le> y" using b(1) y by linarith
  have "nat \<lfloor>y\<rfloor> + 1 \<le> Suc s * Suc s" using b(2) by simp
  then have hi: "y < real (Suc s * Suc s)" by linarith
  show ?thesis
  proof (cases "real (s * s) = y")
    case True
    then have "sqrt y = real s" by (metis abs_of_nat of_nat_mult real_sqrt_mult_self real_sqrt_mult)
    then have "real s * 2 powi (- k) = sqrt x" unfolding ry by (simp add: power_int_minus field_simps)
    then show ?thesis unfolding st using True by simp
  next
    case False
    then have lt: "real s < sqrt y" using lo by (simp add: real_less_rsqrt power2_eq_square)
    have gt: "sqrt y < real s + 1" using hi y by (intro real_less_lsqrt) (simp_all add: power2_eq_square algebra_simps)
    have "108 \<le> ilog2 x + 2 * k" unfolding k_def sqrt_prec_def by linarith
    then have "(2::real) powi 108 \<le> 2 powi (ilog2 x + 2 * k)" by (intro power_int_increasing) auto
    also have "\<dots> = 2 powi ilog2 x * 2 powi (2 * k)" by (simp add: power_int_add)
    also have "\<dots> \<le> y" unfolding y_def using ilog2_lower [OF assms] by (intro mult_right_mono) auto
    finally have "real (2 ^ 54 * 2 ^ 54) < real (Suc s * Suc s)" using hi by simp
    then have "2 ^ 54 * 2 ^ 54 < Suc s * Suc s" by (simp only: of_nat_less_iff)
    then have "2 ^ 54 < Suc s" by (metis mult_le_mono linorder_not_less)
    then have s54: "2 ^ 54 \<le> int s" by simp
    have k0: "(2::real) powi (- k) * 2 powi k = 1" by (simp flip: power_int_add)
    show ?thesis unfolding st using False
      by (simp del: of_nat_mult, intro rnd_grid [OF s54, of _ k])
        (use lt gt ry k0 in \<open>auto simp: mult.assoc\<close>)
  qed
qed

theorem fsqrt_correct: "0 \<le> r \<Longrightarrow> fsqrt (Fin r) = f64_of_real (sqrt r)"
proof (cases "r = 0")
  case False
  assume "0 \<le> r"
  then show ?thesis using False sqrt_sticky_correct [of r] by (simp add: fsqrt_def f64_of_real_def)
qed (simp add: fsqrt_def)

lemma fsqrt_nonneg: "Fin 0 \<le> x \<Longrightarrow> Fin 0 \<le> fsqrt x"
  by (cases x) (auto simp: fsqrt_correct f64_of_real_ge, simp add: fsqrt_def)

lemma wf_fsqrt [simp]: "wf_f64 (fsqrt x)"
  by (cases x) (auto simp: fsqrt_def)

lemma isqrt_0 [simp]: "isqrt 0 = 0"
  by (simp add: isqrt.simps)

lemma isqrt_numeral [simp]:
  "isqrt (numeral n) = (let r = 2 * isqrt (numeral n div 4) in if Suc r * Suc r \<le> numeral n then Suc r else r)"
  by (subst isqrt.simps) simp

lemma isqrt_1 [simp]: "isqrt (Suc 0) = 1" "isqrt 1 = 1"
  by (simp_all add: isqrt.simps)

lemmas fsqrt_eval = fsqrt_def sqrt_sticky_def sqrt_prec_def
section \<open>Conversions\<close>

definition f64_trunc :: "f64 \<Rightarrow> int option" where
  \<comment> \<open>a conversion to an integer type truncates; the result for NaN and the infinities is left
     to the implementation by the language, here \<open>None\<close>\<close>
  "f64_trunc x = (case x of Fin r \<Rightarrow> Some (if 0 \<le> r then \<lfloor>r\<rfloor> else \<lceil>r\<rceil>) | _ \<Rightarrow> None)"

definition fround :: "f64 \<Rightarrow> f64" where
  \<comment> \<open>\<^verbatim>\<open>math.Round\<close>: half away from zero\<close>
  "fround x = (case x of Fin r \<Rightarrow> Fin (of_int (if 0 \<le> r then \<lfloor>r + 1 / 2\<rfloor> else \<lceil>r - 1 / 2\<rceil>)) | _ \<Rightarrow> x)"

lemma f64_of_int_small: "\<bar>n\<bar> < 2 ^ 53 \<Longrightarrow> f64_of_int n = Fin (of_int n)"
  using wf_f64_int [of n] by (simp add: f64_of_int_def f64_of_real_exact wf_f64_def)

lemma f64_of_int_mono: "m \<le> n \<Longrightarrow> f64_of_int m \<le> f64_of_int n"
  by (simp add: f64_of_int_def f64_of_real_mono)

lemma ldexp1_small: "- 1074 \<le> n \<Longrightarrow> n < 1024 \<Longrightarrow> ldexp1 n = Fin (2 powi n)"
proof -
  assume n: "- 1074 \<le> n" "n < 1024"
  have "(2::real) powi n < 2 powi 1024" using n by (intro power_int_strict_increasing) auto
  also have "\<dots> = f64_limit" by (simp only: f64_limit_def power_int_numeral)
  finally show ?thesis using n rnd_powi [of n] unfolding ldexp1_def
    by (intro f64_of_real_exact) auto
qed

lemma ldexp1_mono: "m \<le> n \<Longrightarrow> ldexp1 m \<le> ldexp1 n"
  unfolding ldexp1_def by (intro f64_of_real_mono power_int_increasing) auto

section \<open>Bounded computations\<close>

lemma wf_f64_powi: "- 1074 \<le> e \<Longrightarrow> e < 1024 \<Longrightarrow> wf_f64 (Fin (2 powi e))"
  using ldexp1_small [of e] wf_f64_of_real unfolding ldexp1_def by metis

lemma f64_of_real_bounded:
  assumes "\<bar>r\<bar> \<le> of_int n" "n < 2 ^ 53"
  shows "\<exists>s. f64_of_real r = Fin s \<and> \<bar>s\<bar> \<le> of_int n"
proof -
  have n: "0 \<le> n" using assms(1) by (simp add: abs_le_iff)
  have "Fin (of_int (- n)) \<le> f64_of_real r \<and> f64_of_real r \<le> Fin (of_int n)"
    using assms n by (intro f64_of_real_between wf_f64_int) (auto simp: abs_le_iff)
  then obtain s where "f64_of_real r = Fin s" "of_int (- n) \<le> s" "s \<le> of_int n" using f64_between_Fin by blast
  then show ?thesis by (auto simp: abs_le_iff)
qed

lemma f64_of_real_powi_bounds:
  assumes "2 powi a \<le> r" "r \<le> 2 powi b" "- 1074 \<le> a" "b < 1024"
  shows "\<exists>s. f64_of_real r = Fin s \<and> 2 powi a \<le> s \<and> s \<le> 2 powi b"
proof -
  have "a \<le> b" using assms(1,2) power_int_strict_increasing [of b a "2::real"] by (cases "a \<le> b") auto
  then have "Fin (2 powi a) \<le> f64_of_real r \<and> f64_of_real r \<le> Fin (2 powi b)"
    using assms by (intro f64_of_real_between wf_f64_powi) auto
  then show ?thesis using f64_between_Fin by blast
qed

lemma f64_mult_Fin_not_NaN: "Fin a * Fin b \<noteq> NaN"
  by (simp add: f64_arith_defs)

lemma f64_div_Fin_not_NaN: "x \<noteq> NaN \<Longrightarrow> b \<noteq> 0 \<Longrightarrow> x / Fin b \<noteq> NaN"
  by (cases x) (simp_all add: f64_arith_defs inf_of_sign_def)

lemma f64_scale_not_NaN: "x \<noteq> NaN \<Longrightarrow> b \<noteq> 0 \<Longrightarrow> x * Fin b \<noteq> NaN"
  by (cases x) (simp_all add: f64_arith_defs inf_of_sign_def)

lemma f64_mult_powi_bounds:
  assumes "2 powi a \<le> x" "x \<le> 2 powi b" "2 powi c \<le> y" "y \<le> 2 powi d" "- 1074 \<le> a + c" "b + d < 1024"
  shows "\<exists>s. Fin x * Fin y = Fin s \<and> 2 powi (a + c) \<le> s \<and> s \<le> 2 powi (b + d)"
proof -
  have "0 < (2::real) powi a" "0 < (2::real) powi c" by simp_all
  then have pos: "0 \<le> x" "0 \<le> y" using assms(1,3) by linarith+
  have add: "(2::real) powi (i + j) = 2 powi i * 2 powi j" for i j by (simp add: power_int_add)
  have "2 powi (a + c) \<le> x * y" unfolding add using assms pos by (intro mult_mono) auto
  moreover have "x * y \<le> 2 powi (b + d)" unfolding add using assms pos by (intro mult_mono) auto
  ultimately show ?thesis using f64_of_real_powi_bounds [of "a + c" "x * y" "b + d"] assms by simp
qed

end
