(* ===== verification/Go_Std.thy ===== *)
theory Go_Std
  imports Prelude Float64
begin

text \<open>
  The part of Go's standard library the code computes with: \<^verbatim>\<open>time.Time\<close> and \<^verbatim>\<open>time.Duration\<close>
  (nanoseconds on one time line; a duration is an \<^verbatim>\<open>int64\<close> and \<^verbatim>\<open>Sub\<close> saturates), and the addresses
  and prefixes of \<^verbatim>\<open>net/netip\<close>.
\<close>

section \<open>Package time\<close>

type_synonym gtime = int
  \<comment> \<open>nanoseconds since the Unix epoch\<close>

type_synonym duration = int
  \<comment> \<open>nanoseconds\<close>

abbreviation (input) second_ns :: int where "second_ns \<equiv> 1000000000"

definition zero_time :: gtime where
  \<comment> \<open>\<^verbatim>\<open>time.Time{}\<close>: 1 January of the year 1\<close>
  "zero_time = - 62135596800 * 1000000000"

definition time_unix :: "gtime \<Rightarrow> int" where
  "time_unix t = t div second_ns"

definition time_nanosecond :: "gtime \<Rightarrow> int" where
  "time_nanosecond t = t mod second_ns"

definition time_of_unix :: "int \<Rightarrow> int \<Rightarrow> gtime" where
  "time_of_unix sec nsec = sec * second_ns + nsec"

definition time_sub :: "gtime \<Rightarrow> gtime \<Rightarrow> duration" where
  "time_sub t u = max (- (2 ^ 63)) (min (2 ^ 63 - 1) (t - u))"

definition duration_seconds :: "duration \<Rightarrow> f64" where
  "duration_seconds d =
     f64_of_int (go_quot d second_ns) + f64_of_int (go_rem d second_ns) / Fin 1000000000"

lemma time_unix_of_unix: "0 \<le> nsec \<Longrightarrow> nsec < second_ns \<Longrightarrow> time_unix (time_of_unix sec nsec) = sec"
  by (simp add: time_unix_def time_of_unix_def)

lemma time_of_unix_unix: "time_of_unix (time_unix t) (time_nanosecond t) = t"
  by (simp add: time_of_unix_def time_unix_def time_nanosecond_def)

lemma time_nanosecond_range: "0 \<le> time_nanosecond t" "time_nanosecond t < second_ns"
  by (simp_all add: time_nanosecond_def)

lemma time_sub_pos_iff: "0 < time_sub t u \<longleftrightarrow> u < t"
  by (auto simp: time_sub_def)

lemma time_sub_le_iff: "d < 2 ^ 63 - 1 \<Longrightarrow> - (2 ^ 63) \<le> d \<Longrightarrow> time_sub t u \<le> d \<longleftrightarrow> t - u \<le> d"
  by (auto simp: time_sub_def)

section \<open>Package net/netip\<close>

datatype ipaddr = AddrNone | Addr4 "32 word" | Addr6 "128 word" string
  \<comment> \<open>an IPv6 address carries a zone; the empty string is no zone\<close>

record addr_port =
  ap_addr :: ipaddr
  ap_port :: uint16

record ip_prefix =
  pf_addr :: ipaddr
  pf_bits :: nat

fun addr_unmap :: "ipaddr \<Rightarrow> ipaddr" where
  "addr_unmap (Addr6 a z) = (if drop_bit 32 a = 65535 then Addr4 (ucast a) else Addr6 a z)"
| "addr_unmap a = a"

fun addr_is4 :: "ipaddr \<Rightarrow> bool" where
  "addr_is4 (Addr4 a) = True"
| "addr_is4 _ = False"

fun addr_is6 :: "ipaddr \<Rightarrow> bool" where
  "addr_is6 (Addr6 a z) = True"
| "addr_is6 _ = False"

fun addr_is_unspecified :: "ipaddr \<Rightarrow> bool" where
  "addr_is_unspecified (Addr4 a) = (a = 0)"
| "addr_is_unspecified (Addr6 a z) = (a = 0 \<and> z = [])"
| "addr_is_unspecified AddrNone = False"

fun addr_is_multicast :: "ipaddr \<Rightarrow> bool" where
  \<comment> \<open>of an unmapped address\<close>
  "addr_is_multicast (Addr4 a) = (drop_bit 28 a = 14)"
| "addr_is_multicast (Addr6 a z) = (drop_bit 120 a = 255)"
| "addr_is_multicast AddrNone = False"

fun prefix_contains :: "ip_prefix \<Rightarrow> ipaddr \<Rightarrow> bool" where
  "prefix_contains p (Addr4 a) =
     (case pf_addr p of Addr4 b \<Rightarrow> drop_bit (32 - pf_bits p) (a XOR b) = 0 | _ \<Rightarrow> False)"
| "prefix_contains p (Addr6 a z) =
     (if z \<noteq> [] then False
      else case pf_addr p of Addr6 b _ \<Rightarrow> drop_bit (128 - pf_bits p) (a XOR b) = 0 | _ \<Rightarrow> False)"
| "prefix_contains p AddrNone = False"

fun addr_mask :: "nat \<Rightarrow> ipaddr \<Rightarrow> ipaddr" where
  \<comment> \<open>the address of \<^verbatim>\<open>addr.Prefix(n)\<close>: the host bits are cleared and the zone is dropped\<close>
  "addr_mask n (Addr4 a) = Addr4 (push_bit (32 - n) (drop_bit (32 - n) a))"
| "addr_mask n (Addr6 a z) = Addr6 (push_bit (128 - n) (drop_bit (128 - n) a)) []"
| "addr_mask n AddrNone = AddrNone"

definition prefix_masked :: "ip_prefix \<Rightarrow> ip_prefix" where
  "prefix_masked p = p\<lparr>pf_addr := addr_mask (pf_bits p) (pf_addr p)\<rparr>"

lemma addr_unmap_idem [simp]: "addr_unmap (addr_unmap a) = addr_unmap a"
  by (cases a) auto

end
