(* ===== verification/Go_Crypto.thy ===== *)
theory Go_Crypto
  imports Prelude
begin

text \<open>
  The three primitives of Go's \<^verbatim>\<open>crypto\<close> packages the program calls, as their standards define them:
  the AES-128 block cipher (\<^verbatim>\<open>crypto/aes\<close>, FIPS 197), MD5 (\<^verbatim>\<open>crypto/md5\<close>, RFC 1321) and SHA-256
  (\<^verbatim>\<open>crypto/sha256\<close>, FIPS 180-4). Each is executable, and the AES example of FIPS 197
  is evaluated at the end.
\<close>

section \<open>AES-128\<close>

definition sbox_rows :: "byte list list" where
  "sbox_rows =
    [[0x63, 0x7c, 0x77, 0x7b, 0xf2, 0x6b, 0x6f, 0xc5, 0x30, 0x01, 0x67, 0x2b, 0xfe, 0xd7, 0xab, 0x76],
     [0xca, 0x82, 0xc9, 0x7d, 0xfa, 0x59, 0x47, 0xf0, 0xad, 0xd4, 0xa2, 0xaf, 0x9c, 0xa4, 0x72, 0xc0],
     [0xb7, 0xfd, 0x93, 0x26, 0x36, 0x3f, 0xf7, 0xcc, 0x34, 0xa5, 0xe5, 0xf1, 0x71, 0xd8, 0x31, 0x15],
     [0x04, 0xc7, 0x23, 0xc3, 0x18, 0x96, 0x05, 0x9a, 0x07, 0x12, 0x80, 0xe2, 0xeb, 0x27, 0xb2, 0x75],
     [0x09, 0x83, 0x2c, 0x1a, 0x1b, 0x6e, 0x5a, 0xa0, 0x52, 0x3b, 0xd6, 0xb3, 0x29, 0xe3, 0x2f, 0x84],
     [0x53, 0xd1, 0x00, 0xed, 0x20, 0xfc, 0xb1, 0x5b, 0x6a, 0xcb, 0xbe, 0x39, 0x4a, 0x4c, 0x58, 0xcf],
     [0xd0, 0xef, 0xaa, 0xfb, 0x43, 0x4d, 0x33, 0x85, 0x45, 0xf9, 0x02, 0x7f, 0x50, 0x3c, 0x9f, 0xa8],
     [0x51, 0xa3, 0x40, 0x8f, 0x92, 0x9d, 0x38, 0xf5, 0xbc, 0xb6, 0xda, 0x21, 0x10, 0xff, 0xf3, 0xd2],
     [0xcd, 0x0c, 0x13, 0xec, 0x5f, 0x97, 0x44, 0x17, 0xc4, 0xa7, 0x7e, 0x3d, 0x64, 0x5d, 0x19, 0x73],
     [0x60, 0x81, 0x4f, 0xdc, 0x22, 0x2a, 0x90, 0x88, 0x46, 0xee, 0xb8, 0x14, 0xde, 0x5e, 0x0b, 0xdb],
     [0xe0, 0x32, 0x3a, 0x0a, 0x49, 0x06, 0x24, 0x5c, 0xc2, 0xd3, 0xac, 0x62, 0x91, 0x95, 0xe4, 0x79],
     [0xe7, 0xc8, 0x37, 0x6d, 0x8d, 0xd5, 0x4e, 0xa9, 0x6c, 0x56, 0xf4, 0xea, 0x65, 0x7a, 0xae, 0x08],
     [0xba, 0x78, 0x25, 0x2e, 0x1c, 0xa6, 0xb4, 0xc6, 0xe8, 0xdd, 0x74, 0x1f, 0x4b, 0xbd, 0x8b, 0x8a],
     [0x70, 0x3e, 0xb5, 0x66, 0x48, 0x03, 0xf6, 0x0e, 0x61, 0x35, 0x57, 0xb9, 0x86, 0xc1, 0x1d, 0x9e],
     [0xe1, 0xf8, 0x98, 0x11, 0x69, 0xd9, 0x8e, 0x94, 0x9b, 0x1e, 0x87, 0xe9, 0xce, 0x55, 0x28, 0xdf],
     [0x8c, 0xa1, 0x89, 0x0d, 0xbf, 0xe6, 0x42, 0x68, 0x41, 0x99, 0x2d, 0x0f, 0xb0, 0x54, 0xbb, 0x16]]"

definition sbox :: "byte \<Rightarrow> byte" where
  "sbox b = sbox_rows ! unat (drop_bit 4 b) ! unat (b AND 15)"

definition xor_bytes :: "byte list \<Rightarrow> byte list \<Rightarrow> byte list" where
  "xor_bytes a b = map2 (XOR) a b"

definition xtime :: "byte \<Rightarrow> byte" where
  "xtime b = (if b AND 0x80 \<noteq> 0 then push_bit 1 b XOR 0x1b else push_bit 1 b)"

fun mix_column :: "byte list \<Rightarrow> byte list" where
  "mix_column (a # b # c # d # rest) =
     (xtime a XOR (xtime b XOR b) XOR c XOR d) #
     (a XOR xtime b XOR (xtime c XOR c) XOR d) #
     (a XOR b XOR xtime c XOR (xtime d XOR d)) #
     ((xtime a XOR a) XOR b XOR c XOR xtime d) # mix_column rest"
| "mix_column _ = []"

definition shift_rows :: "byte list \<Rightarrow> byte list" where
  \<comment> \<open>the state is kept column by column\<close>
  "shift_rows s = map (\<lambda>i. s ! i) [0, 5, 10, 15, 4, 9, 14, 3, 8, 13, 2, 7, 12, 1, 6, 11]"

definition next_round_key :: "byte \<Rightarrow> byte list \<Rightarrow> byte list" where
  "next_round_key rcon k =
     (let t = [sbox (k ! 13) XOR rcon, sbox (k ! 14), sbox (k ! 15), sbox (k ! 12)];
          w0 = xor_bytes (slice 0 4 k) t;
          w1 = xor_bytes (slice 4 8 k) w0;
          w2 = xor_bytes (slice 8 12 k) w1;
          w3 = xor_bytes (slice 12 16 k) w2
      in w0 @ w1 @ w2 @ w3)"

fun aes_rounds :: "byte list \<Rightarrow> byte list \<Rightarrow> byte list \<Rightarrow> byte list" where
  \<comment> \<open>the round constants still to come, the last round key, the state\<close>
  "aes_rounds [] k s = s"
| "aes_rounds [rcon] k s = xor_bytes (shift_rows (map sbox s)) (next_round_key rcon k)"
| "aes_rounds (rcon # rcons) k s =
     (let k' = next_round_key rcon k
      in aes_rounds rcons k' (xor_bytes (mix_column (shift_rows (map sbox s))) k'))"

definition aes_encrypt :: "byte list \<Rightarrow> byte list \<Rightarrow> byte list" where
  "aes_encrypt key blk = aes_rounds [1, 2, 4, 8, 0x10, 0x20, 0x40, 0x80, 0x1b, 0x36] key (xor_bytes blk key)"

lemma length_xor_bytes [simp]: "length (xor_bytes a b) = min (length a) (length b)"
  by (simp add: xor_bytes_def)

lemma length_mix_column: "length s mod 4 = 0 \<Longrightarrow> length (mix_column s) = length s"
  by (induction s rule: mix_column.induct) auto

lemma length_shift_rows [simp]: "length (shift_rows s) = 16"
  by (simp add: shift_rows_def)

lemma length_next_round_key [simp]: "length k = 16 \<Longrightarrow> length (next_round_key r k) = 16"
  by (simp add: next_round_key_def Let_def)

lemma length_aes_rounds: "rcons \<noteq> [] \<Longrightarrow> length k = 16 \<Longrightarrow> length (aes_rounds rcons k s) = 16"
proof (induction rcons k s rule: aes_rounds.induct)
  case (3 r r' rs k s)
  then show ?case by (simp add: Let_def)
qed simp_all

lemma length_aes_encrypt: "length key = 16 \<Longrightarrow> length (aes_encrypt key blk) = 16"
  unfolding aes_encrypt_def by (rule length_aes_rounds) simp_all

section \<open>MD5 and SHA-256\<close>

definition rotl32 :: "nat \<Rightarrow> uint32 \<Rightarrow> uint32" where
  "rotl32 n w = push_bit n w OR drop_bit (32 - n) w"

definition rotr32 :: "nat \<Rightarrow> uint32 \<Rightarrow> uint32" where
  "rotr32 n w = drop_bit n w OR push_bit (32 - n) w"

fun chunks :: "nat \<Rightarrow> 'a list \<Rightarrow> 'a list list" where
  "chunks n xs = (if xs = [] \<or> n = 0 then [] else take n xs # chunks n (drop n xs))"

declare chunks.simps [simp del]

definition md_pad :: "(nat \<Rightarrow> byte list) \<Rightarrow> byte list \<Rightarrow> byte list" where
  \<comment> \<open>a one bit, zeros up to 56 modulo 64, and the length in bits in eight bytes\<close>
  "md_pad enc msg =
     msg @ [0x80] @ replicate ((119 - length msg mod 64) mod 64) 0 @ enc (8 * length msg)"

definition md5_k :: "uint32 list" where
  "md5_k =
    [0xd76aa478, 0xe8c7b756, 0x242070db, 0xc1bdceee, 0xf57c0faf, 0x4787c62a, 0xa8304613, 0xfd469501,
     0x698098d8, 0x8b44f7af, 0xffff5bb1, 0x895cd7be, 0x6b901122, 0xfd987193, 0xa679438e, 0x49b40821,
     0xf61e2562, 0xc040b340, 0x265e5a51, 0xe9b6c7aa, 0xd62f105d, 0x02441453, 0xd8a1e681, 0xe7d3fbc8,
     0x21e1cde6, 0xc33707d6, 0xf4d50d87, 0x455a14ed, 0xa9e3e905, 0xfcefa3f8, 0x676f02d9, 0x8d2a4c8a,
     0xfffa3942, 0x8771f681, 0x6d9d6122, 0xfde5380c, 0xa4beea44, 0x4bdecfa9, 0xf6bb4b60, 0xbebfbc70,
     0x289b7ec6, 0xeaa127fa, 0xd4ef3085, 0x04881d05, 0xd9d4d039, 0xe6db99e5, 0x1fa27cf8, 0xc4ac5665,
     0xf4292244, 0x432aff97, 0xab9423a7, 0xfc93a039, 0x655b59c3, 0x8f0ccc92, 0xffeff47d, 0x85845dd1,
     0x6fa87e4f, 0xfe2ce6e0, 0xa3014314, 0x4e0811a1, 0xf7537e82, 0xbd3af235, 0x2ad7d2bb, 0xeb86d391]"

definition md5_shift :: "nat list" where
  "md5_shift = concat (replicate 4 [7, 12, 17, 22]) @ concat (replicate 4 [5, 9, 14, 20]) @
     concat (replicate 4 [4, 11, 16, 23]) @ concat (replicate 4 [6, 10, 15, 21])"

type_synonym md5_state = "uint32 \<times> uint32 \<times> uint32 \<times> uint32"

fun md5_step :: "uint32 list \<Rightarrow> md5_state \<Rightarrow> nat \<times> uint32 \<times> nat \<Rightarrow> md5_state" where
  "md5_step m (a, b, c, d) (i, k, s) =
     (let (f, g) = (if i < 16 then ((b AND c) OR (NOT b AND d), i)
                    else if i < 32 then ((d AND b) OR (NOT d AND c), (5 * i + 1) mod 16)
                    else if i < 48 then (b XOR c XOR d, (3 * i + 5) mod 16)
                    else (c XOR (b OR NOT d), (7 * i) mod 16))
      in (d, b + rotl32 s (f + a + k + m ! g), b, c))"

definition le_nat :: "byte list \<Rightarrow> nat" where "le_nat bs = be_nat (rev bs)"

fun md5_block :: "md5_state \<Rightarrow> byte list \<Rightarrow> md5_state" where
  "md5_block (a0, b0, c0, d0) blk =
     (let m = map (\<lambda>w. of_nat (le_nat w)) (chunks 4 blk);
          (a, b, c, d) = foldl (md5_step m) (a0, b0, c0, d0) (zip [0..<64] (zip md5_k md5_shift))
      in (a0 + a, b0 + b, c0 + c, d0 + d))"

definition md5_Sum :: "byte list \<Rightarrow> byte list" where
  "md5_Sum msg =
     (let (a, b, c, d) = foldl md5_block (0x67452301, 0xefcdab89, 0x98badcfe, 0x10325476)
            (chunks 64 (md_pad (\<lambda>n. rev (be_bytes 8 n)) msg))
      in concat (map (\<lambda>w. rev (put_uint32 w)) [a, b, c, d]))"

text \<open>
  The constants of SHA-256 as the standard defines them: the first 32 bits of the fractional parts of the
  square roots of the first eight primes and of the cube roots of the first 64.
\<close>

primrec root_bits :: "nat \<Rightarrow> nat \<Rightarrow> nat \<Rightarrow> nat \<Rightarrow> nat" where
  \<comment> \<open>decides the low bits of the largest number whose power is at most \<open>n\<close>, highest first\<close>
  "root_bits e n 0 r = r"
| "root_bits e n (Suc k) r = root_bits e n k (if (r + 2 ^ k) ^ e \<le> n then r + 2 ^ k else r)"

definition root_fraction :: "nat \<Rightarrow> nat \<Rightarrow> uint32" where
  "root_fraction e p = of_nat (root_bits e (p * 2 ^ (32 * e)) 35 0)"

definition small_primes :: "nat list" where
  "small_primes =
    [2, 3, 5, 7, 11, 13, 17, 19, 23, 29, 31, 37, 41, 43, 47, 53,
     59, 61, 67, 71, 73, 79, 83, 89, 97, 101, 103, 107, 109, 113, 127, 131,
     137, 139, 149, 151, 157, 163, 167, 173, 179, 181, 191, 193, 197, 199, 211, 223,
     227, 229, 233, 239, 241, 251, 257, 263, 269, 271, 277, 281, 283, 293, 307, 311]"

definition sha256_k :: "uint32 list" where
  "sha256_k = map (root_fraction 3) small_primes"

definition sha256_start :: "uint32 list" where
  "sha256_start = map (root_fraction 2) (take 8 small_primes)"

lemma length_sha256_start: "length sha256_start = 8"
  by (simp add: sha256_start_def small_primes_def)

lemma root_bits_numeral:
  "root_bits e n (numeral k) r =
     root_bits e n (pred_numeral k) (if (r + 2 ^ pred_numeral k) ^ e \<le> n then r + 2 ^ pred_numeral k else r)"
  by (simp only: numeral_eq_Suc root_bits.simps)

lemma root_fraction_samples:
  "root_fraction 3 2 = 0x428a2f98" "root_fraction 3 311 = 0xc67178f2" "root_fraction 2 19 = 0x5be0cd19"
  by (simp_all add: root_fraction_def root_bits_numeral)

fun sha256_schedule :: "nat \<Rightarrow> uint32 list \<Rightarrow> uint32 list" where
  \<comment> \<open>the last sixteen words, oldest first; the words still to be output\<close>
  "sha256_schedule 0 w = w"
| "sha256_schedule (Suc n) w =
     (let x1 = w ! 1; x14 = w ! 14;
          s0 = rotr32 7 x1 XOR rotr32 18 x1 XOR drop_bit 3 x1;
          s1 = rotr32 17 x14 XOR rotr32 19 x14 XOR drop_bit 10 x14
      in hd w # sha256_schedule n (tl w @ [hd w + s0 + w ! 9 + s1]))"

fun sha256_step :: "uint32 list \<Rightarrow> uint32 \<times> uint32 \<Rightarrow> uint32 list" where
  "sha256_step [a, b, c, d, e, f, g, h] (k, w) =
     (let s1 = rotr32 6 e XOR rotr32 11 e XOR rotr32 25 e;
          ch = (e AND f) XOR (NOT e AND g);
          t1 = h + s1 + ch + k + w;
          s0 = rotr32 2 a XOR rotr32 13 a XOR rotr32 22 a;
          maj = (a AND b) XOR (a AND c) XOR (b AND c)
      in [t1 + (s0 + maj), a, b, c, d + t1, e, f, g])"
| "sha256_step s _ = s"

definition sha256_block :: "uint32 list \<Rightarrow> byte list \<Rightarrow> uint32 list" where
  "sha256_block h blk =
     (let w = sha256_schedule 48 (map get_uint32 (chunks 4 blk))
      in map2 (+) h (foldl sha256_step h (zip sha256_k w)))"

definition sha256_Sum256 :: "byte list \<Rightarrow> byte list" where
  "sha256_Sum256 msg =
     concat (map put_uint32 (foldl sha256_block sha256_start
       (chunks 64 (md_pad (be_bytes 8) msg))))"

lemma length_md5_Sum [simp]: "length (md5_Sum msg) = 16"
  by (simp add: md5_Sum_def split: prod.split)

lemma length_sha256_step: "length s = 8 \<Longrightarrow> length (sha256_step s kw) = 8"
  by (induction s kw rule: sha256_step.induct) (auto simp: Let_def)

lemma length_sha256_Sum256 [simp]: "length (sha256_Sum256 msg) = 32"
proof -
  have "length (sha256_block h blk) = 8" if "length h = 8" for h blk
    using that foldl_invariant [of "\<lambda>s. length s = 8" h _ sha256_step]
    by (simp add: sha256_block_def Let_def length_sha256_step)
  then have "length (foldl sha256_block h bs) = 8" if "length h = 8" for h bs
    using that foldl_invariant [of "\<lambda>s. length s = 8" h bs sha256_block] by blast
  then show ?thesis
    by (simp add: sha256_Sum256_def length_concat comp_def sum_list_triv length_sha256_start)
qed

section \<open>Evaluation\<close>

text \<open>One round and one round key at a time, so that the simplifier computes each value once.\<close>

lemma aes_rounds_step:
  "next_round_key r k = k' \<Longrightarrow> xor_bytes (mix_column (shift_rows (map sbox s))) k' = s' \<Longrightarrow>
   aes_rounds (r # r' # rs) k s = aes_rounds (r' # rs) k' s'"
  by simp

lemma next_round_key_step:
  "xor_bytes [a0, a1, a2, a3] [sbox d1 XOR r, sbox d2, sbox d3, sbox d0] = w0 \<Longrightarrow>
   xor_bytes [b0, b1, b2, b3] w0 = w1 \<Longrightarrow> xor_bytes [c0, c1, c2, c3] w1 = w2 \<Longrightarrow>
   xor_bytes [d0, d1, d2, d3] w2 = w3 \<Longrightarrow>
   next_round_key r [a0, a1, a2, a3, b0, b1, b2, b3, c0, c1, c2, c3, d0, d1, d2, d3] = w0 @ w1 @ w2 @ w3"
  by (simp add: next_round_key_def slice_def)

declare aes_rounds.simps(3) [simp del]

lemmas aes_eval = aes_encrypt_def next_round_key_step aes_rounds_step sbox_def sbox_rows_def
  xor_bytes_def xtime_def shift_rows_def

text \<open>The example of FIPS 197, appendix C.1.\<close>

lemma aes_fips197: "aes_encrypt (map of_nat [0..<16]) (map (\<lambda>i. of_nat (17 * i)) [0..<16]) =
    [0x69, 0xc4, 0xe0, 0xd8, 0x6a, 0x7b, 0x04, 0x30, 0xd8, 0xcd, 0xb7, 0x80, 0x70, 0xb4, 0xc5, 0x5a]"
  by (simp add: aes_eval upt_conv_Cons)

end
