(* ===== verification/NTP_Time.thy ===== *)
theory NTP_Time
  imports Go_Std Go_Crypto
begin

text \<open>
  \<^verbatim>\<open>internal/ntp/time.go\<close>: the 64-bit timestamp with its era arithmetic, the 32-bit short format,
  the leap indicator, the association mode, reference identifiers and kiss codes.
\<close>

section \<open>Timestamps\<close>

type_synonym ntp_time = "64 word"

abbreviation unixEpochOffset :: int where "unixEpochOffset \<equiv> 2208988800"
abbreviation eraLength :: int where "eraLength \<equiv> 4294967296"

definition int64_wrap :: "int \<Rightarrow> int" where
  "int64_wrap n = sint (word_of_int n :: 64 word)"

definition FromUnix :: "int \<Rightarrow> int \<Rightarrow> ntp_time" where
  "FromUnix sec nsec =
     (let s = word_of_int (sec + unixEpochOffset) :: 32 word;
          f = word_of_int (go_quot (int64_wrap (nsec * 2 ^ 32)) 1000000000) :: 32 word
      in push_bit 32 (ucast s) OR ucast f)"

definition FromTime :: "gtime \<Rightarrow> ntp_time" where
  "FromTime t = FromUnix (time_unix t) (time_nanosecond t)"

definition ntp_Seconds :: "ntp_time \<Rightarrow> uint32" where
  "ntp_Seconds t = ucast (drop_bit 32 t)"

definition ntp_Fraction :: "ntp_time \<Rightarrow> uint32" where
  "ntp_Fraction t = ucast t"

definition ntp_IsZero :: "ntp_time \<Rightarrow> bool" where
  "ntp_IsZero t \<longleftrightarrow> t = 0"

definition floorDiv :: "int \<Rightarrow> int \<Rightarrow> int" where
  "floorDiv a b =
     (let q = go_quot a b in if go_rem a b \<noteq> 0 \<and> (a < 0) \<noteq> (b < 0) then q - 1 else q)"

definition ntp_Unix :: "ntp_time \<Rightarrow> int \<Rightarrow> int \<times> int" where
  "ntp_Unix t nearSec =
     (let sec = uint (ntp_Seconds t) - unixEpochOffset;
          diff = nearSec - sec;
          eras = floorDiv (diff + eraLength div 2) eraLength
      in (sec + eras * eraLength, (uint (ntp_Fraction t) * 1000000000) div 2 ^ 32))"

definition ntp_Time :: "ntp_time \<Rightarrow> gtime \<Rightarrow> gtime" where
  "ntp_Time t near = (let (sec, nsec) = ntp_Unix t (time_unix near) in time_of_unix sec nsec)"

definition ntp_Sub :: "ntp_time \<Rightarrow> ntp_time \<Rightarrow> f64" where
  "ntp_Sub t u = f64_of_int (sint (t - u)) / Fin 4294967296"

definition ntp_Add :: "ntp_time \<Rightarrow> f64 \<Rightarrow> ntp_time option" where
  \<comment> \<open>\<open>None\<close>: the conversion to \<^verbatim>\<open>int64\<close> is out of range, which the language leaves open\<close>
  "ntp_Add t d =
     (case f64_trunc (fround (d * Fin 4294967296)) of
        Some n \<Rightarrow> if - (2 ^ 63) \<le> n \<and> n < 2 ^ 63 then Some (t + word_of_int n) else None
      | None \<Rightarrow> None)"

section \<open>The short format and log2 fields\<close>

type_synonym ntp_short = "32 word"

definition ShortFromSeconds :: "f64 \<Rightarrow> ntp_short" where
  "ShortFromSeconds s =
     (if s \<le> Fin 0 \<or> s = NaN then 0
      else if Fin 65536 \<le> s then - 1
      else (case f64_trunc (s * Fin 65536) of Some n \<Rightarrow> word_of_int n | None \<Rightarrow> 0))"

definition short_Seconds :: "ntp_short \<Rightarrow> f64" where
  "short_Seconds s = f64_of_int (uint s) / Fin 65536"

definition Log2Seconds :: "int8 \<Rightarrow> f64" where
  "Log2Seconds e = ldexp1 (sint e)"

definition PrecisionFromSeconds :: "(f64 \<Rightarrow> int) \<Rightarrow> f64 \<Rightarrow> int8" where
  \<comment> \<open>\<open>log2_floor\<close> is \<^verbatim>\<open>math.Floor(math.Log2(s))\<close> of a positive argument\<close>
  "PrecisionFromSeconds log2_floor s =
     (if s \<le> Fin 0 \<or> s = NaN then word_of_int (- 30)
      else (let p = log2_floor s
            in if p < - 30 then word_of_int (- 30) else if p > - 6 then word_of_int (- 6)
               else word_of_int p))"

section \<open>Leap indicator, mode, reference identifier\<close>

datatype leap = LeapNone | LeapInsert | LeapDelete | LeapUnsync

fun leap_code :: "leap \<Rightarrow> byte" where
  "leap_code LeapNone = 0"
| "leap_code LeapInsert = 1"
| "leap_code LeapDelete = 2"
| "leap_code LeapUnsync = 3"

definition leap_of_code :: "byte \<Rightarrow> leap" where
  "leap_of_code b = (if b = 0 then LeapNone else if b = 1 then LeapInsert
                     else if b = 2 then LeapDelete else LeapUnsync)"

fun leap_String :: "leap \<Rightarrow> string" where
  "leap_String LeapNone = ''none''"
| "leap_String LeapInsert = ''insert''"
| "leap_String LeapDelete = ''delete''"
| "leap_String LeapUnsync = ''unsynchronized''"

datatype mode = ModeReserved | ModeSymmetricActive | ModeSymmetricPassive | ModeClient
  | ModeServer | ModeBroadcast | ModeControl | ModePrivate

fun mode_code :: "mode \<Rightarrow> byte" where
  "mode_code ModeReserved = 0"
| "mode_code ModeSymmetricActive = 1"
| "mode_code ModeSymmetricPassive = 2"
| "mode_code ModeClient = 3"
| "mode_code ModeServer = 4"
| "mode_code ModeBroadcast = 5"
| "mode_code ModeControl = 6"
| "mode_code ModePrivate = 7"

definition mode_of_code :: "byte \<Rightarrow> mode" where
  "mode_of_code b =
     (if b = 0 then ModeReserved else if b = 1 then ModeSymmetricActive
      else if b = 2 then ModeSymmetricPassive else if b = 3 then ModeClient
      else if b = 4 then ModeServer else if b = 5 then ModeBroadcast
      else if b = 6 then ModeControl else ModePrivate)"

fun mode_String :: "mode \<Rightarrow> string" where
  "mode_String ModeSymmetricActive = ''symmetric-active''"
| "mode_String ModeSymmetricPassive = ''symmetric-passive''"
| "mode_String ModeClient = ''client''"
| "mode_String ModeServer = ''server''"
| "mode_String ModeBroadcast = ''broadcast''"
| "mode_String ModeControl = ''control''"
| "mode_String ModePrivate = ''private''"
| "mode_String ModeReserved = ''reserved''"

datatype refid = RefID byte byte byte byte

fun refid_bytes :: "refid \<Rightarrow> byte list" where
  "refid_bytes (RefID a b c d) = [a, b, c, d]"

definition refid_of_bytes :: "byte list \<Rightarrow> refid" where
  \<comment> \<open>\<^verbatim>\<open>copy(r[:], b)\<close>: missing bytes stay zero\<close>
  "refid_of_bytes bs = (let g = (\<lambda>i. if i < length bs then bs ! i else 0) in RefID (g 0) (g 1) (g 2) (g 3))"

definition zero_refid :: refid where "zero_refid = RefID 0 0 0 0"

definition RefIDFromString :: "string \<Rightarrow> refid" where
  "RefIDFromString s =
     (let g = (\<lambda>i. if i < length s then of_char (s ! i) else 32) in RefID (g 0) (g 1) (g 2) (g 3))"

fun addr_bytes :: "ipaddr \<Rightarrow> byte list" where
  \<comment> \<open>\<^verbatim>\<open>AsSlice\<close>\<close>
  "addr_bytes (Addr4 a) = be_bytes 4 (unat a)"
| "addr_bytes (Addr6 a z) = be_bytes 16 (unat a)"
| "addr_bytes AddrNone = []"

definition RefIDFromAddr :: "ipaddr \<Rightarrow> refid" where
  "RefIDFromAddr a =
     (let a = addr_unmap a
      in if addr_is4 a then refid_of_bytes (addr_bytes a)
         else refid_of_bytes (take 4 (md5_Sum (addr_bytes a))))"

definition refid_IsText :: "refid \<Rightarrow> bool" where
  "refid_IsText r = list_all (\<lambda>b. \<not> (b < 32 \<or> b > 126)) (refid_bytes r)"

definition refid_Text :: "refid \<Rightarrow> string" where
  \<comment> \<open>trailing spaces removed\<close>
  "refid_Text r = map (\<lambda>b. char_of (unat b)) (rev (dropWhile (\<lambda>b. b = 32) (rev (refid_bytes r))))"

definition KissRATE :: refid where "KissRATE = RefIDFromString ''RATE''"
definition KissDENY :: refid where "KissDENY = RefIDFromString ''DENY''"
definition KissRSTR :: refid where "KissRSTR = RefIDFromString ''RSTR''"
definition KissINIT :: refid where "KissINIT = RefIDFromString ''INIT''"
definition KissSTEP :: refid where "KissSTEP = RefIDFromString ''STEP''"
definition KissHOLD :: refid where "KissHOLD = RefIDFromString ''HOLD''"
definition KissPANC :: refid where "KissPANC = RefIDFromString ''PANC''"

lemmas kiss_defs = KissRATE_def KissDENY_def KissRSTR_def KissINIT_def KissSTEP_def KissHOLD_def
  KissPANC_def RefIDFromString_def

section \<open>Era arithmetic\<close>

text \<open>The exact instant as an unbounded fixed-point number: what the 64-bit timestamp keeps modulo an era.\<close>

definition fixed_point :: "int \<Rightarrow> int \<Rightarrow> int" where
  "fixed_point sec nsec = (sec + unixEpochOffset) * 2 ^ 32 + nsec * 2 ^ 32 div 1000000000"

lemma int64_wrap_id: "- (2 ^ 63) \<le> n \<Longrightarrow> n < 2 ^ 63 \<Longrightarrow> int64_wrap n = n"
  unfolding int64_wrap_def by (simp add: sint_sbintrunc' signed_take_bit_int_eq_self)

lemma hi_or_lo:
  "(push_bit 32 (ucast (s :: 32 word)) OR ucast (f :: 32 word) :: 64 word) = word_of_int (uint s * 2 ^ 32 + uint f)"
proof -
  have "(push_bit 32 (ucast s) AND ucast f :: 64 word) = 0"
    by (rule bit_eqI) (auto simp: bit_simps dest: bit_imp_le_length)
  then have "(push_bit 32 (ucast s) OR ucast f :: 64 word) = push_bit 32 (ucast s) + ucast f"
    by (simp add: disjunctive_add_eq_or)
  also have "\<dots> = word_of_int (uint s * 2 ^ 32 + uint f)"
    by (simp only: push_bit_eq_mult ucast_eq of_int_add of_int_mult of_int_power of_int_numeral)
  finally show ?thesis .
qed

lemma mult_split_mod: "x * P = x mod P * P + x div P * (P * P)" for P :: int
proof -
  have "x * P = (x div P * P + x mod P) * P" by simp
  also have "\<dots> = x mod P * P + x div P * (P * P)" by (simp only: distrib_right mult.assoc add.commute)
  finally show ?thesis .
qed

lemma mult_add_div_mod:
  "0 \<le> f \<Longrightarrow> f < P \<Longrightarrow> (s * P + f) mod P = f" "0 \<le> f \<Longrightarrow> f < P \<Longrightarrow> (s * P + f) div P = s" for P :: int
  by simp_all

lemma word64_eqI: "a mod 2 ^ 64 = b mod 2 ^ 64 \<Longrightarrow> (word_of_int a :: 64 word) = word_of_int b"
  by (simp add: word_of_int_eq_iff take_bit_eq_mod)

lemma FromUnix_fixed_point:
  assumes "0 \<le> nsec" "nsec < second_ns"
  shows "FromUnix sec nsec = word_of_int (fixed_point sec nsec)"
proof -
  let ?f = "nsec * 2 ^ 32 div 1000000000"
  have w: "int64_wrap (nsec * 2 ^ 32) = nsec * 2 ^ 32" using assms by (intro int64_wrap_id) auto
  have f: "0 \<le> ?f" "?f < 2 ^ 32" using assms by auto
  have q: "go_quot (int64_wrap (nsec * 2 ^ 32)) 1000000000 = ?f" unfolding w using assms by (intro go_quot_nonneg) auto
  have uf: "uint (word_of_int ?f :: 32 word) = ?f" using f by (simp add: uint_word_of_int_eq take_bit_int_eq_self)
  have us: "uint (word_of_int (sec + unixEpochOffset) :: 32 word) = (sec + unixEpochOffset) mod 2 ^ 32"
    by (simp only: uint_word_of_int) simp
  have "FromUnix sec nsec = word_of_int ((sec + unixEpochOffset) mod 2 ^ 32 * 2 ^ 32 + ?f)"
    unfolding FromUnix_def Let_def hi_or_lo q uf us ..
  also have "\<dots> = word_of_int (fixed_point sec nsec)"
  proof -
    define x where "x = sec + unixEpochOffset"
    have "x * 2 ^ 32 + ?f = x mod 2 ^ 32 * 2 ^ 32 + ?f + x div 2 ^ 32 * (2 ^ 32 * 2 ^ 32)"
      using mult_split_mod [of x "2 ^ 32"] by linarith
    then have "(x * 2 ^ 32 + ?f) mod (2 ^ 32 * 2 ^ 32) = (x mod 2 ^ 32 * 2 ^ 32 + ?f) mod (2 ^ 32 * 2 ^ 32)"
      by (simp only: mod_mult_self1)
    moreover have "(2::int) ^ 32 * 2 ^ 32 = 2 ^ 64" by simp
    ultimately show ?thesis unfolding fixed_point_def x_def [symmetric] by (intro word64_eqI) (simp only:)
  qed
  finally show ?thesis .
qed

lemma floorDiv_eq: "0 < b \<Longrightarrow> floorDiv a b = a div b"
proof -
  assume b: "0 < b"
  show ?thesis
  proof (cases "a < 0")
    case False
    then show ?thesis using b by (simp add: floorDiv_def go_quot_nonneg)
  next
    case True
    have q: "go_quot a b = - ((- a) div b)" using True b by (simp add: go_quot_def)
    have m: "b * (a div b) = a - a mod b" "0 \<le> a mod b" "a mod b < b" using b by (auto simp: minus_mod_eq_mult_div)
    show ?thesis
    proof (cases "a mod b = 0")
      case z: True
      then have "(- a) div b = - (a div b)" using b by (simp add: zdiv_zminus1_eq_if)
      then show ?thesis using q m z by (simp add: floorDiv_def go_rem_def Let_def)
    next
      case nz: False
      then have d: "(- a) div b = - (a div b) - 1" using b by (simp add: zdiv_zminus1_eq_if)
      have "b * go_quot a b = b * (a div b) + b" unfolding q d by (simp add: algebra_simps)
      then have "go_rem a b \<noteq> 0" unfolding go_rem_def using m nz by linarith
      then show ?thesis using True b q d by (simp add: floorDiv_def Let_def)
    qed
  qed
qed

lemma ntp_Seconds_of_int: "uint (ntp_Seconds (word_of_int n)) = n div 2 ^ 32 mod 2 ^ 32"
proof -
  have "uint (ntp_Seconds (word_of_int n)) = take_bit 32 (drop_bit 32 (take_bit 64 n))"
    unfolding ntp_Seconds_def
    by (simp add: unsigned_ucast_eq unsigned_drop_bit_eq uint_word_of_int_eq drop_bit_take_bit)
  also have "\<dots> = take_bit 32 (drop_bit 32 n)" by (simp only: drop_bit_take_bit) simp
  finally show ?thesis by (simp only: take_bit_eq_mod drop_bit_eq_div)
qed

lemma ntp_Fraction_of_int: "uint (ntp_Fraction (word_of_int n)) = n mod 2 ^ 32"
proof -
  have "uint (ntp_Fraction (word_of_int n)) = take_bit 32 (take_bit 64 n)"
    unfolding ntp_Fraction_def by (simp add: unsigned_ucast_eq uint_word_of_int_eq)
  also have "\<dots> = take_bit 32 n" by simp
  finally show ?thesis by (simp only: take_bit_eq_mod)
qed

lemma ntp_Unix_era:
  "ntp_Unix t near = (sec, nsec) \<Longrightarrow>
     - 2147483648 \<le> near - sec \<and> near - sec < 2147483648 \<and> 0 \<le> nsec \<and> nsec < second_ns \<and>
     (sec + unixEpochOffset) mod eraLength = uint (ntp_Seconds t)"
proof -
  assume a: "ntp_Unix t near = (sec, nsec)"
  define s0 where "s0 = uint (ntp_Seconds t) - unixEpochOffset"
  define d where "d = near - s0 + 2147483648"
  have sec: "sec = s0 + d div eraLength * eraLength"
    and nsec: "nsec = uint (ntp_Fraction t) * 1000000000 div 2 ^ 32"
    using a by (auto simp: ntp_Unix_def Let_def floorDiv_eq s0_def d_def)
  have fr: "0 \<le> uint (ntp_Fraction t)" "uint (ntp_Fraction t) < 4294967296"
    using uint_bounded [of "ntp_Fraction t"] by auto
  have ss: "0 \<le> uint (ntp_Seconds t)" "uint (ntp_Seconds t) < 4294967296"
    using uint_bounded [of "ntp_Seconds t"] by auto
  have "d - d div eraLength * eraLength = d mod eraLength" by (simp add: minus_div_mult_eq_mod)
  moreover have "0 \<le> d mod eraLength" "d mod eraLength < eraLength" by simp_all
  ultimately have "- 2147483648 \<le> near - sec" "near - sec < 2147483648" unfolding sec d_def by auto
  moreover have "(sec + unixEpochOffset) mod eraLength = uint (ntp_Seconds t)"
    unfolding sec s0_def using ss by simp
  moreover have "0 \<le> nsec" "nsec < second_ns" unfolding nsec using fr by (simp_all add: pos_imp_zdiv_nonneg_iff)
  ultimately show ?thesis by blast
qed

text \<open>The wire format drops the era, and \<open>Unix\<close> recovers it: an instant within 68 years (half an era)
  of the local clock comes back with its seconds exact, in whichever era it lies, and its
  nanoseconds at most one below (the fraction is truncated twice, never rounded up).\<close>
theorem FromUnix_Unix_round_trip:
  assumes "0 \<le> nsec" and "nsec < second_ns" and "- 2147483648 \<le> near - sec" and "near - sec < 2147483648"
  shows "\<exists>n. ntp_Unix (FromUnix sec nsec) near = (sec, n) \<and> nsec - 1 \<le> n \<and> n \<le> nsec"
proof -
  define t where "t = FromUnix sec nsec"
  define f where "f = nsec * 2 ^ 32 div 1000000000"
  have f: "0 \<le> f" "f < 2 ^ 32" using assms unfolding f_def by auto
  have t: "t = word_of_int ((sec + unixEpochOffset) * 2 ^ 32 + f)"
    unfolding t_def FromUnix_fixed_point [OF assms(1,2)] fixed_point_def f_def ..
  have fr: "uint (ntp_Fraction t) = f" unfolding t ntp_Fraction_of_int by (rule mult_add_div_mod [OF f])
  have ss: "uint (ntp_Seconds t) = (sec + unixEpochOffset) mod 2 ^ 32"
    unfolding t ntp_Seconds_of_int mult_add_div_mod(2) [OF f] ..
  obtain sec' n where u: "ntp_Unix t near = (sec', n)" by (cases "ntp_Unix t near")
  have e: "- 2147483648 \<le> near - sec'" "near - sec' < 2147483648"
    "(sec' + unixEpochOffset) mod eraLength = (sec + unixEpochOffset) mod eraLength"
    using ntp_Unix_era [OF u] ss by auto
  have "sec' = sec"
  proof -
    have "eraLength dvd (sec' - sec)" using e(3) by (simp add: mod_eq_dvd_iff)
    moreover have "\<bar>sec' - sec\<bar> < eraLength" using e(1,2) assms(3,4) by linarith
    ultimately show ?thesis using zdvd_imp_le [of eraLength "\<bar>sec' - sec\<bar>"] by force
  qed
  moreover have "n = f * 1000000000 div 2 ^ 32" using u fr by (simp add: ntp_Unix_def Let_def)
  moreover have "nsec - 1 \<le> f * 1000000000 div 2 ^ 32" "f * 1000000000 div 2 ^ 32 \<le> nsec"
  proof -
    have "f * 1000000000 \<le> nsec * 4294967296" "nsec * 4294967296 < f * 1000000000 + 1000000000"
      unfolding f_def using assms by simp_all
    then show "nsec - 1 \<le> f * 1000000000 div 2 ^ 32" "f * 1000000000 div 2 ^ 32 \<le> nsec"
      by simp_all
  qed
  ultimately show ?thesis using u unfolding t_def by auto
qed

theorem FromUnix_Unix_round_trip_witness:
  "\<exists>n. ntp_Unix (FromUnix 4102444800 999999999) 2085978496 = (4102444800, n) \<and> 999999998 \<le> n \<and> n \<le> 999999999"
  using FromUnix_Unix_round_trip [of 999999999 2085978496 4102444800] by simp

text \<open>Subtracting two timestamps is right across an era boundary: for instants less than half an
  era apart the wrapped 64-bit difference is the true fixed-point difference, so \<open>Sub\<close> returns that
  difference in seconds, correctly rounded.\<close>
theorem ntp_Sub_across_eras:
  assumes "0 \<le> n1" and "n1 < second_ns" and "0 \<le> n2" and "n2 < second_ns"
    and "- (2 ^ 63) \<le> fixed_point s1 n1 - fixed_point s2 n2"
    and "fixed_point s1 n1 - fixed_point s2 n2 < 2 ^ 63"
  shows "ntp_Sub (FromUnix s1 n1) (FromUnix s2 n2) =
           f64_of_int (fixed_point s1 n1 - fixed_point s2 n2) / Fin 4294967296"
proof -
  have "sint (FromUnix s1 n1 - FromUnix s2 n2) = int64_wrap (fixed_point s1 n1 - fixed_point s2 n2)"
    using assms by (simp add: FromUnix_fixed_point int64_wrap_def)
  then show ?thesis using assms by (simp add: ntp_Sub_def int64_wrap_id)
qed

theorem ntp_Sub_across_eras_witness:
  "ntp_Sub (FromUnix 2085978497 0) (FromUnix 2085978495 500000000) = Fin (3 / 2)"
proof -
  have d: "fixed_point 2085978497 0 - fixed_point 2085978495 500000000 = 6442450944"
    by (simp add: fixed_point_def)
  have "ntp_Sub (FromUnix 2085978497 0) (FromUnix 2085978495 500000000) = f64_of_int 6442450944 / Fin 4294967296"
    using ntp_Sub_across_eras [of 0 500000000 2085978497 2085978495] unfolding d by simp
  then show ?thesis by (simp add: f64_of_int_small f64_eval)
qed

lemma short_exact:
  assumes "0 \<le> n" "n < 2 ^ 32"
  shows "f64_of_int n / Fin 65536 = Fin (of_int n / 65536)"
proof -
  have a: "\<bar>n\<bar> < 2 ^ 53" using assms by simp
  have "of_int n / 65536 = of_int n * (2::real) powi (- 16)" by (simp add: power_int_minus)
  then have r: "rnd (of_int n / 65536) = of_int n / 65536"
    using rnd_representable [OF a, of "- 16"] by simp
  have "\<bar>of_int n / 65536\<bar> < (2::real) ^ 53" using assms by simp
  then have "\<bar>of_int n / 65536\<bar> < f64_limit" using f64_limit_pos(2) by (rule less_trans)
  then show ?thesis using r a by (simp add: f64_of_int_small f64_of_real_exact)
qed

lemma uint32_range: "0 \<le> uint (s :: 32 word)" "uint (s :: 32 word) < 2 ^ 32"
  using uint_bounded [of s] by auto

lemma f64_scale16:
  assumes "wf_f64 (Fin r)" "0 < r" "r < 65536"
  shows "f64_of_real (r * 65536) = Fin (r * 65536)"
proof -
  have "rnd (r * 65536) = r * 65536" using assms rnd_scale [of r 16] by (simp add: wf_f64_def)
  moreover have "\<bar>r * 65536\<bar> < (2::real) ^ 53" using assms by simp
  then have "\<bar>r * 65536\<bar> < f64_limit" using f64_limit_pos(2) by (rule less_trans)
  ultimately show ?thesis by (simp add: f64_of_real_exact)
qed

lemma ShortFromSeconds_mid:
  assumes "wf_f64 (Fin r)" "0 < r" "r < 65536"
  shows "uint (ShortFromSeconds (Fin r)) = \<lfloor>r * 65536\<rfloor>"
proof -
  have b: "0 \<le> \<lfloor>r * 65536\<rfloor>" "\<lfloor>r * 65536\<rfloor> < 2 ^ 32" using assms by (simp_all add: floor_less_iff)
  then show ?thesis using assms
    by (simp add: ShortFromSeconds_def f64_scale16 f64_trunc_def uint_word_of_int_eq take_bit_int_eq_self)
qed

lemma ShortFromSeconds_short_Seconds: "ShortFromSeconds (short_Seconds s) = s"
proof -
  define n where "n = uint s"
  have n: "0 \<le> n" "n < 2 ^ 32" unfolding n_def by (rule uint32_range)+
  have sec: "short_Seconds s = Fin (of_int n / 65536)"
    unfolding short_Seconds_def n_def [symmetric] by (rule short_exact [OF n])
  have "wf_f64 (f64_of_int n / Fin 65536)" using n by (simp add: f64_of_int_small)
  then have wf: "wf_f64 (Fin (of_int n / 65536))" by (simp only: short_exact [OF n])
  have "uint (ShortFromSeconds (Fin (of_int n / 65536))) = n"
  proof (cases "n = 0")
    case False
    with n wf show ?thesis by (subst ShortFromSeconds_mid) auto
  qed (simp add: ShortFromSeconds_def)
  then show ?thesis unfolding sec by (metis n_def word_of_int_uint)
qed

lemma ShortFromSeconds_mono:
  assumes "wf_f64 x" "wf_f64 y" "x \<le> y"
  shows "ShortFromSeconds x \<le> ShortFromSeconds y"
proof -
  have top: "y = PInf \<or> (\<exists>b. y = Fin b \<and> 65536 \<le> b) \<Longrightarrow> ?thesis"
    by (auto simp: ShortFromSeconds_def)
  have bot: "x = NInf \<or> (\<exists>a. x = Fin a \<and> a \<le> 0) \<Longrightarrow> ?thesis"
    by (auto simp: ShortFromSeconds_def)
  consider "y = PInf \<or> (\<exists>b. y = Fin b \<and> 65536 \<le> b)" | "x = NInf \<or> (\<exists>a. x = Fin a \<and> a \<le> 0)"
    | a b where "x = Fin a" "y = Fin b" "0 < a" "a \<le> b" "b < 65536"
    using assms(3) by (cases x; cases y) (auto simp: not_le not_less, force+)
  then show ?thesis
  proof cases
    case 3
    then show ?thesis using assms
      by (simp add: word_le_def ShortFromSeconds_mid floor_mono mult_right_mono)
  qed (use top bot in auto)
qed

text \<open>The 32-bit short format saturates and never wraps: every short value survives the trip through
  \<^verbatim>\<open>float64\<close> seconds and back, the conversion is monotone over all non-NaN inputs (so a larger root
  delay or dispersion never reads as a smaller one), and both ends clamp.\<close>
theorem ShortFromSeconds_saturating:
  assumes "wf_f64 x" and "wf_f64 y" and "x \<le> y"
  shows "ShortFromSeconds x \<le> ShortFromSeconds y \<and> ShortFromSeconds (short_Seconds s) = s \<and>
         (y \<le> Fin 0 \<longrightarrow> ShortFromSeconds y = 0) \<and>
         (Fin 65536 \<le> x \<longrightarrow> ShortFromSeconds x = - 1)"
  using ShortFromSeconds_mono [OF assms] ShortFromSeconds_short_Seconds
  by (cases x) (auto simp: ShortFromSeconds_def)

theorem ShortFromSeconds_saturating_witness:
  "ShortFromSeconds (Fin (1 / 2)) \<le> ShortFromSeconds PInf \<and> ShortFromSeconds (short_Seconds 77) = 77"
proof -
  have "wf_f64 (Fin (1 / 2))" by (simp add: wf_f64_def f64_limit_def rnd_def ulp_exp_def ilog2_def round_half_even_def)
  then show ?thesis using ShortFromSeconds_saturating [of "Fin (1 / 2)" PInf 77] by simp
qed

end
