(* ===== verification/Measurement.thy ===== *)
theory Measurement
  imports NTP_Time
begin

text \<open>
  \<^verbatim>\<open>internal/discipline/measurement.go\<close>: the constants of the discipline, what a source delivers to
  the engine, and the options a source is registered with.
\<close>

definition Phi :: f64 where "Phi = f64_of_real (15 / 1000000)"

abbreviation (input) MaxDispersion :: f64 where "MaxDispersion \<equiv> Fin 16"
abbreviation (input) MaxDistance :: f64 where "MaxDistance \<equiv> Fin (3 / 2)"
abbreviation (input) MaxFrequency :: f64 where "MaxFrequency \<equiv> Fin 500"
abbreviation (input) AllanIntercept :: f64 where "AllanIntercept \<equiv> Fin 2048"
abbreviation (input) FilterStages :: nat where "FilterStages \<equiv> 8"
abbreviation (input) MinPoll :: int where "MinPoll \<equiv> 2"
abbreviation (input) MaxPoll :: int where "MaxPoll \<equiv> 17"
abbreviation (input) reachBits :: f64 where "reachBits \<equiv> Fin 8"
abbreviation (input) minFreshness :: f64 where "minFreshness \<equiv> Fin 64"
abbreviation (input) primingDispersion :: f64 where "primingDispersion \<equiv> Fin 1"

record measurement =
  me_Source :: string
  me_Now :: f64
  me_Reach :: uint8
  me_Poll :: int8
  me_Generation :: uint64
  me_Valid :: bool
  me_Acquired :: bool
  me_LeapSample :: bool
  me_LeapValue :: leap
  me_LeapObserved :: f64
  me_Invalidate :: bool
  me_At :: f64
  me_Offset :: f64
  me_Delay :: f64
  me_Dispersion :: f64
  me_Jitter :: f64
  me_Leap :: leap
  me_Stratum :: uint8
  me_RefID :: refid
  me_RootDelay :: f64
  me_RootDisp :: f64
  me_Precision :: int8
  me_RefTime :: gtime
  me_SourceRefID :: refid

record options =
  o_Prefer :: bool
  o_NoSelect :: bool
  o_Numbering :: bool
  o_PPS :: bool
  o_LeapIncapable :: bool

definition IsAcquisition :: "measurement \<Rightarrow> bool" where
  "IsAcquisition m \<longleftrightarrow> me_Valid m \<or> me_Acquired m"

definition zero_measurement :: measurement where
  \<comment> \<open>\<^verbatim>\<open>Measurement{}\<close>\<close>
  "zero_measurement =
     \<lparr>me_Source = [], me_Now = Fin 0, me_Reach = 0, me_Poll = 0, me_Generation = 0, me_Valid = False,
      me_Acquired = False, me_LeapSample = False, me_LeapValue = LeapNone, me_LeapObserved = Fin 0,
      me_Invalidate = False, me_At = Fin 0, me_Offset = Fin 0, me_Delay = Fin 0, me_Dispersion = Fin 0,
      me_Jitter = Fin 0, me_Leap = LeapNone, me_Stratum = 0, me_RefID = zero_refid, me_RootDelay = Fin 0,
      me_RootDisp = Fin 0, me_Precision = 0, me_RefTime = zero_time, me_SourceRefID = zero_refid\<rparr>"

lemma Phi_value: "Phi = Fin (8854437155380585 / 590295810358705651712)"
  by (simp add: Phi_def f64_eval)

lemma Phi_Fin: "\<exists>p. Phi = Fin p \<and> 0 < p"
  unfolding Phi_value by (intro exI conjI, rule refl) simp

end
