(* ===== verification/Selection.thy ===== *)
theory Selection
  imports Measurement
begin

text \<open>
  \<^verbatim>\<open>internal/discipline/select.go\<close>: the discipline's view of a source, and the selection, clustering and
  combining algorithms of RFC 5905, section 11.2. The code passes pointers to the source states around
  and marks the states through them; here the states are one list, a pointer is an index into it, and a
  function that marks states returns the list updated. The types of the events that selection reports are
  those of \<^verbatim>\<open>internal/discipline/system.go\<close>.

  \<^verbatim>\<open>cluster\<close> indexes its survivors with a position that stays -1 when no selection jitter exceeds -1;
  the panic of that index is the result \<open>None\<close>.
\<close>

section \<open>Events\<close>

datatype sync_state = StateUnsynced | StateSettling | StateSynced | StateHoldover

datatype event_kind =
    EventStep | EventPanicRefused | EventPopcorn | EventStateChange | EventFalseticker | EventTruechimer
  | EventPreferLost | EventPreferRegained | EventSystemSource | EventUnknownSource | EventPPSUnqualified
  | EventPPSQualified | EventTimingLoop | EventTimingLoopCleared

record event =
  ev_Kind :: event_kind
  ev_Source :: string
  ev_Value :: f64
  ev_From :: sync_state
  ev_To :: sync_state

definition mk_event :: "event_kind \<Rightarrow> string \<Rightarrow> f64 \<Rightarrow> event" where
  "mk_event k src v = \<lparr>ev_Kind = k, ev_Source = src, ev_Value = v, ev_From = StateUnsynced, ev_To = StateUnsynced\<rparr>"

section \<open>Sources\<close>

definition MinDispersion :: f64 where "MinDispersion = f64_of_real (1 / 1000)"
definition PPSGuard :: f64 where "PPSGuard = f64_of_real (4 / 10)"
definition ppsAgreementFloor :: f64 where "ppsAgreementFloor = f64_of_real (1 / 1000)"
abbreviation (input) ClusterMin :: nat where "ClusterMin \<equiv> 3"

datatype select_status =
    StatusUnreachable | StatusNoSelect | StatusInvalid | StatusUnqualified | StatusFalseticker
  | StatusOutlier | StatusSurvivor | StatusSystem

fun status_String :: "select_status \<Rightarrow> string" where
  "status_String StatusUnreachable = ''unreachable''"
| "status_String StatusNoSelect = ''noselect''"
| "status_String StatusInvalid = ''invalid''"
| "status_String StatusUnqualified = ''unqualified''"
| "status_String StatusFalseticker = ''falseticker''"
| "status_String StatusOutlier = ''outlier''"
| "status_String StatusSurvivor = ''survivor''"
| "status_String StatusSystem = ''system''"

record source_state =
  ss_Name :: string
  ss_Options :: options
  ss_Reach :: uint8
  ss_Poll :: int8
  ss_Valid :: bool
  ss_At :: f64
  ss_Updated :: f64
  ss_Offset :: f64
  ss_Delay :: f64
  ss_Dispersion :: f64
  ss_Jitter :: f64
  ss_Leap :: leap
  ss_LiveLeap :: leap
  ss_LeapUpdated :: f64
  ss_LeapKnown :: bool
  ss_Stratum :: uint8
  ss_RefID :: refid
  ss_SourceRefID :: refid
  ss_RootDelay :: f64
  ss_RootDisp :: f64
  ss_Precision :: int8
  ss_RefTime :: gtime
  ss_Status :: select_status
  ss_Distance :: f64
  ss_Current :: f64
  ss_usedAt :: f64
  ss_stale :: bool
  ss_DisagreesWith :: string
  ss_Disagreement :: f64
  ss_inLoop :: bool
  ss_everSurvived :: bool
  ss_sinceStep :: nat

definition new_source :: "string \<Rightarrow> options \<Rightarrow> source_state" where
  \<comment> \<open>\<^verbatim>\<open>&SourceState{Name: name, Options: o}\<close>\<close>
  "new_source name opts =
     \<lparr>ss_Name = name, ss_Options = opts, ss_Reach = 0, ss_Poll = 0, ss_Valid = False, ss_At = Fin 0,
      ss_Updated = Fin 0, ss_Offset = Fin 0, ss_Delay = Fin 0, ss_Dispersion = Fin 0, ss_Jitter = Fin 0,
      ss_Leap = LeapNone, ss_LiveLeap = LeapNone, ss_LeapUpdated = Fin 0, ss_LeapKnown = False, ss_Stratum = 0,
      ss_RefID = zero_refid, ss_SourceRefID = zero_refid, ss_RootDelay = Fin 0, ss_RootDisp = Fin 0,
      ss_Precision = 0, ss_RefTime = zero_time, ss_Status = StatusUnreachable, ss_Distance = Fin 0,
      ss_Current = Fin 0, ss_usedAt = Fin 0, ss_stale = False, ss_DisagreesWith = [], ss_Disagreement = Fin 0,
      ss_inLoop = False, ss_everSurvived = False, ss_sinceStep = 0\<rparr>"

abbreviation ss_PPS :: "source_state \<Rightarrow> bool" where "ss_PPS s \<equiv> o_PPS (ss_Options s)"
abbreviation ss_Prefer :: "source_state \<Rightarrow> bool" where "ss_Prefer s \<equiv> o_Prefer (ss_Options s)"
abbreviation ss_NoSelect :: "source_state \<Rightarrow> bool" where "ss_NoSelect s \<equiv> o_NoSelect (ss_Options s)"
abbreviation ss_Numbering :: "source_state \<Rightarrow> bool" where "ss_Numbering s \<equiv> o_Numbering (ss_Options s)"
abbreviation ss_LeapIncapable :: "source_state \<Rightarrow> bool" where "ss_LeapIncapable s \<equiv> o_LeapIncapable (ss_Options s)"

definition SinceStep :: "source_state \<Rightarrow> nat" where
  "SinceStep s = ss_sinceStep s"

definition apply_leap :: "source_state \<Rightarrow> measurement \<Rightarrow> source_state" where
  \<comment> \<open>the leap part of \<^verbatim>\<open>apply\<close>\<close>
  "apply_leap s m =
     (if IsAcquisition m \<and> \<not> ss_PPS s \<and> \<not> ss_LeapIncapable s then
        (let s1 = (if me_LeapSample m then s\<lparr>ss_LiveLeap := me_LeapValue m, ss_LeapUpdated := me_LeapObserved m\<rparr>
                   else if me_Valid m then s\<lparr>ss_LiveLeap := me_Leap m, ss_LeapUpdated := me_Now m\<rparr>
                   else s)
         in if me_LeapSample m \<or> me_Valid m then s1\<lparr>ss_LeapKnown := (ss_LiveLeap s1 \<noteq> LeapUnsync)\<rparr> else s1)
      else s)"

definition apply_measurement :: "source_state \<Rightarrow> measurement \<Rightarrow> source_state" where
  "apply_measurement s0 m =
     (let s1 = s0\<lparr>ss_Reach := me_Reach m, ss_Poll := me_Poll m\<rparr>;
          s2 = (if me_Invalidate m then s1\<lparr>ss_Valid := False, ss_LeapKnown := False\<rparr> else s1);
          s3 = apply_leap s2 m
      in if \<not> me_Valid m then s3
         else s3\<lparr>ss_Valid := True, ss_sinceStep := ss_sinceStep s3 + 1, ss_At := me_At m, ss_Updated := me_Now m,
                 ss_Offset := me_Offset m, ss_Delay := me_Delay m, ss_Dispersion := me_Dispersion m,
                 ss_Jitter := me_Jitter m, ss_Leap := me_Leap m, ss_Stratum := me_Stratum m, ss_RefID := me_RefID m,
                 ss_SourceRefID := me_SourceRefID m, ss_RootDelay := me_RootDelay m, ss_RootDisp := me_RootDisp m,
                 ss_Precision := me_Precision m, ss_RefTime := me_RefTime m\<rparr>)"

definition invalidate :: "source_state \<Rightarrow> source_state" where
  "invalidate s = s\<lparr>ss_Valid := False, ss_LeapKnown := False, ss_sinceStep := 0\<rparr>"

definition RootDistance :: "source_state \<Rightarrow> f64 \<Rightarrow> f64" where
  "RootDistance s now =
     (let age0 = now - ss_Updated s;
          age = (if age0 < Fin 0 then Fin 0 else age0)
      in fmax MinDispersion (ss_RootDelay s + ss_Delay s) / Fin 2 + ss_RootDisp s + ss_Dispersion s + Phi * age + ss_Jitter s)"

definition synch :: "source_state \<Rightarrow> f64" where
  "synch s = f64_of_int (uint (ss_Stratum s)) * MaxDistance + ss_Distance s"

definition candidate :: "source_state \<Rightarrow> bool \<times> select_status" where
  "candidate s =
     (if ss_Reach s = 0 then (False, StatusUnreachable)
      else if ss_NoSelect s then (False, StatusNoSelect)
      else if ss_stale s then (False, StatusUnreachable)
      else if \<not> ss_Valid s \<or> ss_Leap s = LeapUnsync \<or> ss_Stratum s \<ge> 16 \<or> ss_Distance s \<ge> MaxDistance
        then (False, StatusInvalid)
      else (True, StatusSurvivor))"

definition freshnessDeadline :: "int8 \<Rightarrow> f64" where
  "freshnessDeadline poll =
     (let p0 = sint poll;
          p1 = (if p0 < MinPoll then MinPoll else p0);
          p = (if p1 > MaxPoll then MaxPoll else p1);
          d = reachBits * ldexp1 p
      in if d < minFreshness then minFreshness else d)"

fun ppsAgreement_from :: "f64 \<Rightarrow> string \<Rightarrow> source_state \<Rightarrow> source_state list \<Rightarrow> f64 \<Rightarrow> string \<times> f64 \<times> bool" where
  "ppsAgreement_from closest name p [] now = (name, closest, False)"
| "ppsAgreement_from closest name p (n # ns) now =
     (let d = \<bar>ss_Current n - ss_Current p\<bar>
      in if d \<le> RootDistance n now + fmax (Fin 4 * ss_Jitter n) ppsAgreementFloor then ([], Fin 0, True)
         else if d < closest then ppsAgreement_from d (ss_Name n) p ns now
         else ppsAgreement_from closest name p ns now)"

definition ppsAgreement :: "source_state \<Rightarrow> source_state list \<Rightarrow> f64 \<Rightarrow> string \<times> f64 \<times> bool" where
  "ppsAgreement p numbering now = ppsAgreement_from PInf [] p numbering now"

definition timingLoop :: "source_state \<Rightarrow> refid list \<Rightarrow> bool" where
  "timingLoop s local =
     (if local = [] then False
      else if \<not> refid_IsText (ss_SourceRefID s) \<and> ss_SourceRefID s \<in> set local then True
      else if ss_Stratum s > 1 \<and> \<not> refid_IsText (ss_RefID s) \<and> ss_RefID s \<in> set local then True
      else False)"

section \<open>Intersection\<close>

type_synonym pointers = "nat list"
  \<comment> \<open>positions in the list of source states\<close>

definition set_status :: "select_status \<Rightarrow> pointers \<Rightarrow> source_state list \<Rightarrow> source_state list" where
  "set_status st ps sources = foldl (\<lambda>ss i. ss[i := (ss ! i)\<lparr>ss_Status := st\<rparr>]) sources ps"

type_synonym edge = "f64 \<times> int"
  \<comment> \<open>an end point or midpoint of a correctness interval: -1 low, 0 middle, 1 high\<close>

definition edge_less :: "edge \<Rightarrow> edge \<Rightarrow> bool" where
  "edge_less a b = (if \<not> feq (fst a) (fst b) then fst a < fst b else snd a < snd b)"

definition source_edges :: "source_state \<Rightarrow> edge list" where
  "source_edges s = [(ss_Current s - ss_Distance s, -1), (ss_Current s, 0), (ss_Current s + ss_Distance s, 1)]"

fun scan_low :: "int \<Rightarrow> int \<Rightarrow> nat \<Rightarrow> edge list \<Rightarrow> f64 \<times> nat" where
  \<comment> \<open>the count to reach, chime and mids so far: the low end and the midpoints passed\<close>
  "scan_low need chime mids [] = (NaN, mids)"
| "scan_low need chime mids (e # es) =
     (let chime' = chime - snd e
      in if chime' \<ge> need then (fst e, mids)
         else scan_low need chime' (if snd e = 0 then mids + 1 else mids) es)"

fun scan_high :: "int \<Rightarrow> int \<Rightarrow> nat \<Rightarrow> edge list \<Rightarrow> f64 \<times> nat" where
  \<comment> \<open>the same from the top: the edges are those still to come, in descending order\<close>
  "scan_high need chime mids [] = (NaN, mids)"
| "scan_high need chime mids (e # es) =
     (let chime' = chime + snd e
      in if chime' \<ge> need then (fst e, mids)
         else scan_high need chime' (if snd e = 0 then mids + 1 else mids) es)"

function find_interval :: "nat \<Rightarrow> edge list \<Rightarrow> nat \<Rightarrow> (f64 \<times> f64) option" where
  \<comment> \<open>the loop over the falsetickers allowed\<close>
  "find_interval n edges allow =
     (if 2 * allow < n then
        (let (lo, mids1) = scan_low (int n - int allow) 0 0 edges;
             (hi, mids2) = scan_high (int n - int allow) 0 mids1 (rev edges)
         in if mids2 > allow then find_interval n edges (allow + 1)
            else if hi > lo then Some (lo, hi)
            else find_interval n edges (allow + 1))
      else None)"
  by pat_completeness auto
termination
  by (relation "measure (\<lambda>(n, edges, allow). n - allow)") auto

declare find_interval.simps [simp del]

definition outside :: "f64 \<Rightarrow> f64 \<Rightarrow> source_state \<Rightarrow> bool" where
  \<comment> \<open>the correctness interval does not meet the interval from \<open>low\<close> to \<open>high\<close>\<close>
  "outside low high s \<longleftrightarrow> ss_Current s + ss_Distance s < low \<or> ss_Current s - ss_Distance s > high"

definition intersect :: "source_state list \<Rightarrow> pointers \<Rightarrow> source_state list \<times> pointers \<times> (f64 \<times> f64)" where
  \<comment> \<open>the states marked, the survivors, and \<^verbatim>\<open>sel.Low\<close>, \<^verbatim>\<open>sel.High\<close>\<close>
  "intersect sources c =
     (let n = length c
      in if n = 0 then (sources, [], (Fin 0, Fin 0))
         else (let edges = go_sort edge_less (concat (map (\<lambda>i. source_edges (sources ! i)) c))
               in case find_interval n edges 0 of
                    None \<Rightarrow> (set_status StatusFalseticker c sources, [], (Fin 0, Fin 0))
                  | Some (low, high) \<Rightarrow>
                      (set_status StatusFalseticker (filter (\<lambda>i. outside low high (sources ! i)) c) sources,
                       filter (\<lambda>i. \<not> outside low high (sources ! i)) c, (low, high))))"

section \<open>Clustering\<close>

definition selection_jitter :: "source_state list \<Rightarrow> pointers \<Rightarrow> nat \<Rightarrow> f64" where
  "selection_jitter sources surv i =
     (let cur = (\<lambda>k. ss_Current (sources ! (surv ! k)));
          sum = foldl (\<lambda>acc j. if i \<noteq> j then acc + (cur i - cur j) * (cur i - cur j) else acc) (Fin 0) [0..<length surv]
      in fsqrt (sum / f64_of_int (int (length surv) - 1)))"

definition cluster_round :: "source_state list \<Rightarrow> pointers \<Rightarrow> nat option \<times> f64 \<times> f64 \<Rightarrow> nat \<Rightarrow> nat option \<times> f64 \<times> f64" where
  \<comment> \<open>\<^verbatim>\<open>maxIdx\<close> (\<open>None\<close> is -1), \<^verbatim>\<open>maxSel\<close> and \<^verbatim>\<open>minJit\<close> after one more survivor\<close>
  "cluster_round sources surv acc i =
     (case acc of (maxIdx, maxSel, minJit) \<Rightarrow>
        (let sj = selection_jitter sources surv i;
             jit = ss_Jitter (sources ! (surv ! i))
         in (if sj > maxSel then Some i else maxIdx, if sj > maxSel then sj else maxSel,
             if jit < minJit then jit else minJit)))"

definition cluster_scan :: "source_state list \<Rightarrow> pointers \<Rightarrow> nat option \<times> f64 \<times> f64" where
  "cluster_scan sources surv = foldl (cluster_round sources surv) (None, Fin (- 1), PInf) [0..<length surv]"

lemma cluster_scan_index: "cluster_scan sources surv = (Some k, maxSel, minJit) \<Longrightarrow> k < length surv"
  using foldl_invariant [of "\<lambda>acc. \<forall>k. fst acc = Some k \<longrightarrow> k < length surv" "(None, Fin (- 1), PInf)"
      "[0..<length surv]" "cluster_round sources surv"]
  by (auto simp: cluster_scan_def cluster_round_def Let_def split: prod.splits)

function cluster :: "source_state list \<Rightarrow> pointers \<Rightarrow> (source_state list \<times> pointers) option" where
  "cluster sources surv =
     (if length surv > ClusterMin then
        (case cluster_scan sources surv of
           (maxIdx, maxSel, minJit) \<Rightarrow>
             if maxSel < minJit then Some (sources, surv)
             else (case maxIdx of
                     None \<Rightarrow> None
                   | Some k \<Rightarrow> cluster (set_status StatusOutlier [surv ! k] sources) (take k surv @ drop (Suc k) surv)))
      else Some (sources, surv))"
  by pat_completeness auto
termination
  by (relation "measure (\<lambda>(sources, surv). length surv)") (auto dest!: sym [THEN cluster_scan_index])

declare cluster.simps [simp del]

section \<open>Selection\<close>

record select_options =
  so_LocalRefIDs :: "refid list"
  so_AppliedSince :: "(f64 \<Rightarrow> f64 \<Rightarrow> f64) option"

record selection =
  sel_Survivors :: pointers
  sel_System :: "nat option"
  sel_Offset :: f64
  sel_Jitter :: f64
  sel_PreferLost :: bool
  sel_PPSQualified :: bool
  sel_Low :: f64
  sel_High :: f64
  sel_Events :: "event list"

definition refresh_source :: "select_options \<Rightarrow> f64 \<Rightarrow> source_state \<Rightarrow> source_state" where
  \<comment> \<open>the estimate expressed at the selection instant\<close>
  "refresh_source opts now s0 =
     (let s1 = s0\<lparr>ss_Distance := RootDistance s0 now,
                  ss_stale := (ss_Valid s0 \<and> now - ss_Updated s0 > freshnessDeadline (ss_Poll s0)),
                  ss_Current := (case so_AppliedSince opts of
                       Some applied \<Rightarrow> if ss_Valid s0 then ss_Offset s0 - applied (ss_At s0) now else ss_Offset s0
                     | None \<Rightarrow> ss_Offset s0)\<rparr>
      in if ss_PPS s1 then s1\<lparr>ss_DisagreesWith := [], ss_Disagreement := Fin 0\<rparr> else s1)"

definition prepare_source :: "select_options \<Rightarrow> f64 \<Rightarrow> source_state \<Rightarrow> source_state \<times> bool \<times> event list" where
  \<comment> \<open>one round of the first loop: the state, whether the source may be used, and the events\<close>
  "prepare_source opts now s0 =
     (let s = refresh_source opts now s0;
          (ok, st) = candidate s
      in if ok \<and> timingLoop s (so_LocalRefIDs opts) then
           (s\<lparr>ss_inLoop := True, ss_Status := StatusInvalid\<rparr>, False,
            if ss_inLoop s then [] else [mk_event EventTimingLoop (ss_Name s) (Fin 0)])
         else
           (s\<lparr>ss_inLoop := False, ss_Status := (if ok \<and> ss_PPS s then StatusUnqualified else st)\<rparr>, ok,
            if ss_inLoop s then [mk_event EventTimingLoopCleared (ss_Name s) (Fin 0)] else []))"

definition qualify_pps :: "source_state list \<Rightarrow> f64 \<Rightarrow> source_state list \<times> pointers \<Rightarrow> nat \<Rightarrow> source_state list \<times> pointers" where
  \<comment> \<open>one round of the loop over the PPS sources\<close>
  "qualify_pps numbering now acc p =
     (let (sources, survivors) = acc;
          (name, delta, agrees) = ppsAgreement (sources ! p) numbering now;
          s = (sources ! p)\<lparr>ss_DisagreesWith := name, ss_Disagreement := delta\<rparr>
      in if \<not> agrees then (sources[p := s\<lparr>ss_Status := StatusFalseticker\<rparr>], survivors)
         else (sources[p := s\<lparr>ss_Status := StatusSurvivor\<rparr>], survivors @ [p]))"

definition choose_system :: "source_state list \<Rightarrow> pointers \<Rightarrow> nat option" where
  \<comment> \<open>a preferred PPS source, else a preferred source\<close>
  "choose_system sources survivors =
     (case List.find (\<lambda>i. ss_PPS (sources ! i) \<and> ss_Prefer (sources ! i)) survivors of
        Some i \<Rightarrow> Some i
      | None \<Rightarrow> List.find (\<lambda>i. ss_Prefer (sources ! i)) survivors)"

definition combine_weight :: "source_state \<Rightarrow> f64" where
  "combine_weight s = Fin 1 / fmax (ss_Distance s) (f64_of_real (5 / 10000))"

definition combine :: "source_state list \<Rightarrow> pointers \<Rightarrow> nat \<Rightarrow> f64 \<times> f64" where
  \<comment> \<open>\<^verbatim>\<open>sel.Offset\<close> and \<^verbatim>\<open>sel.Jitter\<close>\<close>
  "combine sources survivors sys =
     (let (sumW, sumWO) = foldl (\<lambda>(sumW, sumWO) i. let w = combine_weight (sources ! i)
                                                in (sumW + w, sumWO + w * ss_Current (sources ! i))) (Fin 0, Fin 0) survivors;
          offset = (if ss_Prefer (sources ! sys) then ss_Current (sources ! sys) else sumWO / sumW);
          spread0 = foldl (\<lambda>acc i. let w = combine_weight (sources ! i); d = ss_Current (sources ! i) - offset
                                  in acc + w * d * d) (Fin 0) survivors;
          spread = fsqrt (spread0 / sumW);
          jit = ss_Jitter (sources ! sys)
      in (offset, fsqrt (jit * jit + spread * spread)))"

definition select_survivors ::
  "source_state list \<Rightarrow> pointers \<Rightarrow> pointers \<Rightarrow> f64 \<Rightarrow> (source_state list \<times> pointers \<times> bool \<times> (f64 \<times> f64)) option" where
  \<comment> \<open>from the candidates and the PPS sources to the sorted survivors, with \<^verbatim>\<open>sel.PPSQualified\<close> and the interval\<close>
  "select_survivors sources1 cands pps now =
     (let (sources2, surv2, interval) = intersect sources1 cands
      in case cluster sources2 surv2 of
           None \<Rightarrow> None
         | Some (sources3, surv3) \<Rightarrow>
             (let numbering = map (\<lambda>i. sources3 ! i) (filter (\<lambda>i. ss_Numbering (sources3 ! i) \<and> \<bar>ss_Current (sources3 ! i)\<bar> < PPSGuard) surv3);
                  qualified = (numbering \<noteq> []);
                  (sources4, surv4) = (if qualified then foldl (qualify_pps numbering now) (sources3, surv3) pps
                                       else (sources3, surv3));
                  survivors = go_sort (\<lambda>i j. synch (sources4 ! i) < synch (sources4 ! j)) surv4;
                  sources5 = foldl (\<lambda>ss i. ss[i := (ss ! i)\<lparr>ss_Status := StatusSurvivor, ss_everSurvived := True\<rparr>]) sources4 survivors
              in Some (sources5, survivors, qualified, interval)))"

definition SelectAt :: "source_state list \<Rightarrow> f64 \<Rightarrow> int \<Rightarrow> select_options \<Rightarrow> (source_state list \<times> selection) option" where
  "SelectAt sources now minSurvivors opts =
     (let prepared = map (prepare_source opts now) sources;
          sources1 = map fst prepared;
          events = concat (map (\<lambda>(s, ok, evs). evs) prepared);
          usable = filter (\<lambda>i. fst (snd (prepared ! i))) [0..<length sources];
          pps = filter (\<lambda>i. ss_PPS (sources1 ! i)) usable;
          cands = filter (\<lambda>i. \<not> ss_PPS (sources1 ! i)) usable;
          anySurvived = list_ex ss_everSurvived sources1;
          preferConfigured = list_ex (\<lambda>s. ss_Prefer s \<and> \<not> ss_NoSelect s) sources1
      in case select_survivors sources1 cands pps now of
           None \<Rightarrow> None
         | Some (sources5, survivors, qualified, (low, high)) \<Rightarrow>
             (let reportPreferLost = (preferConfigured \<and> (anySurvived \<or> survivors \<noteq> []));
                  sel0 = \<lparr>sel_Survivors = survivors, sel_System = None, sel_Offset = Fin 0, sel_Jitter = Fin 0,
                          sel_PreferLost = reportPreferLost, sel_PPSQualified = qualified, sel_Low = low, sel_High = high,
                          sel_Events = events\<rparr>
              in if survivors = [] \<or> int (length survivors) < minSurvivors then Some (sources5, sel0)
                 else (let chosen = choose_system sources5 survivors;
                           sys = (case chosen of None \<Rightarrow> hd survivors | Some i \<Rightarrow> i);
                           (offset, jit) = combine sources5 survivors sys
                       in Some (set_status StatusSystem [sys] sources5,
                                sel0\<lparr>sel_System := Some sys, sel_PreferLost := (reportPreferLost \<and> chosen = None),
                                     sel_Offset := offset, sel_Jitter := jit\<rparr>))))"

definition Select :: "source_state list \<Rightarrow> f64 \<Rightarrow> int \<Rightarrow> (source_state list \<times> selection) option" where
  "Select sources now minSurvivors =
     SelectAt sources now minSurvivors \<lparr>so_LocalRefIDs = [], so_AppliedSince = None\<rparr>"

section \<open>Leap votes\<close>

definition leap_voter :: "f64 \<Rightarrow> source_state \<Rightarrow> bool" where
  "leap_voter now s =
     (let age = now - ss_LeapUpdated s
      in \<not> (ss_PPS s \<or> ss_LeapIncapable s \<or> \<not> ss_LeapKnown s \<or> ss_LiveLeap s = LeapUnsync \<or>
            \<not> (age \<ge> Fin 0 \<and> age \<le> Fin 2 * Log2Seconds (ss_Poll s))))"

definition majorityLeap :: "source_state list \<Rightarrow> f64 \<Rightarrow> leap" where
  "majorityLeap surv now =
     (let ballots = map ss_LiveLeap (filter (leap_voter now) surv);
          votes = (\<lambda>l. length (filter (\<lambda>x. x = l) ballots))
      in if votes LeapNone * 2 > length ballots then LeapNone
         else if votes LeapInsert * 2 > length ballots then LeapInsert
         else if votes LeapDelete * 2 > length ballots then LeapDelete
         else LeapUnsync)"

end
