(* ===== verification/Discipline_Loop.thy ===== *)
theory Discipline_Loop
  imports Measurement
begin

text \<open>
  \<^verbatim>\<open>internal/discipline/loop.go\<close>: the clock discipline loop. Each method of \<^verbatim>\<open>Loop\<close> is a function from the
  loop to the loop after the call, with what the method returns. Constant expressions such as \<^verbatim>\<open>1e-6\<close>
  are the nearest binary64 value, and a product of constants is folded before rounding, as the compiler
  does.
\<close>

abbreviation (input) DefaultTimeConstant :: f64 where "DefaultTimeConstant \<equiv> Fin 4"
abbreviation (input) spikeGate :: f64 where "spikeGate \<equiv> Fin 3"
abbreviation (input) jitterAverage :: f64 where "jitterAverage \<equiv> Fin 8"
abbreviation (input) maxTickInterval :: f64 where "maxTickInterval \<equiv> Fin 2"
abbreviation (input) slewLogSpan :: f64 where "slewLogSpan \<equiv> Fin 4096"
abbreviation (input) million :: f64 where "million \<equiv> Fin 1000000"
definition millionth :: f64 where "millionth = f64_of_real (1 / 1000000)"

record loop_config =
  lc_StepThreshold :: f64
  lc_StepLimit :: int
  lc_Panic :: f64
  lc_PanicAtStartup :: bool
  lc_MaxSlewPPM :: f64
  lc_Precision :: f64
  lc_TimeConstant :: f64
  lc_FreqMeasure :: f64

datatype action_kind = ActionSetFrequency | ActionStep | ActionResetFilters

record action =
  ac_Kind :: action_kind
  ac_Value :: f64

record update_result =
  ur_Actions :: "action list"
  ur_Stepped :: bool
  ur_Ignored :: bool
  ur_Deferred :: bool
  ur_PanicRefused :: bool
  ur_Mu :: f64

record slew_point =
  sp_at :: f64
  sp_cum :: f64

record loop =
  l_cfg :: loop_config
  l_Freq :: f64
  l_FreqKnown :: bool
  l_Pending :: f64
  l_Jitter :: f64
  l_Updates :: nat
  l_Steps :: nat
  l_lastUpdate :: f64
  l_lastOffset :: f64
  l_tau :: f64
  l_applied :: f64
  l_appliedBase :: f64
  l_haveApply :: bool
  l_chargeFrom :: f64
  l_haveTick :: bool
  l_skipJitter :: bool
  l_firstTime :: f64
  l_firstOffset :: f64
  l_slewed :: f64
  l_slewLog :: "slew_point list"
  l_cumSlew :: f64

definition zero_result :: update_result where
  "zero_result = \<lparr>ur_Actions = [], ur_Stepped = False, ur_Ignored = False, ur_Deferred = False,
     ur_PanicRefused = False, ur_Mu = Fin 0\<rparr>"

definition clampFreq :: "f64 \<Rightarrow> f64" where
  "clampFreq f = fmax (- MaxFrequency) (fmin MaxFrequency f)"

definition NewLoop :: "loop_config \<Rightarrow> f64 \<Rightarrow> bool \<Rightarrow> loop" where
  "NewLoop cfg0 freq known =
     (let cfg = (if lc_TimeConstant cfg0 \<le> Fin 0 then cfg0\<lparr>lc_TimeConstant := DefaultTimeConstant\<rparr> else cfg0)
      in \<lparr>l_cfg = cfg, l_Freq = clampFreq freq, l_FreqKnown = known, l_Pending = Fin 0, l_Jitter = lc_Precision cfg,
          l_Updates = 0, l_Steps = 0, l_lastUpdate = Fin 0, l_lastOffset = Fin 0,
          l_tau = lc_TimeConstant cfg * ldexp1 6, l_applied = Fin 0, l_appliedBase = Fin 0, l_haveApply = False,
          l_chargeFrom = Fin 0, l_haveTick = False, l_skipJitter = False, l_firstTime = Fin 0, l_firstOffset = Fin 0,
          l_slewed = Fin 0, l_slewLog = [], l_cumSlew = Fin 0\<rparr>)"

definition stepAllowed :: "loop \<Rightarrow> bool" where
  "stepAllowed l =
     (if lc_StepLimit (l_cfg l) < 0 then True
      else if lc_StepLimit (l_cfg l) = 0 then False
      else int (l_Updates l) < lc_StepLimit (l_cfg l))"

section \<open>Accounting for the applied phase\<close>

definition elapsed :: "loop \<Rightarrow> f64 \<Rightarrow> loop \<times> f64" where
  "elapsed l now =
     (let d = now - l_chargeFrom l;
          dt = (if \<not> l_haveTick l then Fin 0
                else if d < Fin 0 then Fin 0
                else if d > maxTickInterval then maxTickInterval
                else d)
      in (l\<lparr>l_chargeFrom := now, l_haveTick := True\<rparr>, dt))"

fun drop_old :: "f64 \<Rightarrow> slew_point list \<Rightarrow> slew_point list" where
  \<comment> \<open>drops points while the one after the first is at or before the cut\<close>
  "drop_old since (a # b # ps) = (if sp_at b \<le> since then drop_old since (b # ps) else a # b # ps)"
| "drop_old since ps = ps"

definition noteSlew :: "loop \<Rightarrow> f64 \<Rightarrow> f64 \<Rightarrow> loop" where
  "noteSlew l now moved =
     (if l_slewLog l \<noteq> [] \<and> now < sp_at (last (l_slewLog l)) then l
      else (let cum = l_cumSlew l + moved
            in l\<lparr>l_cumSlew := cum,
                 l_slewLog := drop_old (now - slewLogSpan) (l_slewLog l @ [\<lparr>sp_at = now, sp_cum = cum\<rparr>])\<rparr>))"

definition chargeApplied :: "loop \<Rightarrow> f64 \<Rightarrow> loop" where
  "chargeApplied l0 now =
     (let (l, dt) = elapsed l0 now;
          ran = (l_applied l - l_appliedBase l) * millionth
      in if l_haveApply l \<and> dt > Fin 0 \<and> \<not> feq ran (Fin 0) then
           (let moved = ran * dt;
                p = l_Pending l - moved
            in noteSlew (l\<lparr>l_Pending := (if \<bar>p\<bar> < f64_of_real (1 / 10 ^ 12) then Fin 0 else p),
                           l_slewed := l_slewed l + moved\<rparr>) now moved)
         else noteSlew l now (Fin 0))"

function slew_search :: "slew_point list \<Rightarrow> f64 \<Rightarrow> nat \<Rightarrow> nat \<Rightarrow> nat \<times> nat" where
  \<comment> \<open>the binary search of \<^verbatim>\<open>cumulativeSlew\<close>\<close>
  "slew_search ps t lo hi =
     (if lo + 1 < hi then
        (let mid = (lo + hi) div 2
         in if sp_at (ps ! mid) \<le> t then slew_search ps t mid hi else slew_search ps t lo mid)
      else (lo, hi))"
  by pat_completeness auto
termination
  by (relation "measure (\<lambda>(ps, t, lo, hi). hi - lo)") auto

declare slew_search.simps [simp del]

definition cumulativeSlew :: "loop \<Rightarrow> f64 \<Rightarrow> f64" where
  "cumulativeSlew l t =
     (let ps = l_slewLog l
      in if ps = [] then Fin 0
         else (let first = hd ps; final = last ps
               in if t \<le> sp_at first then sp_cum first
                  else if t \<ge> sp_at final then
                    (if \<not> l_haveApply l then sp_cum final
                     else sp_cum final + (l_applied l - l_appliedBase l) * millionth * (t - sp_at final))
                  else (let (lo, hi) = slew_search ps t 0 (length ps - 1);
                            a = ps ! lo; b = ps ! hi
                        in if feq (sp_at b) (sp_at a) then sp_cum b
                           else sp_cum a + (sp_cum b - sp_cum a) * (t - sp_at a) / (sp_at b - sp_at a))))"

definition AppliedSince :: "loop \<Rightarrow> f64 \<Rightarrow> f64 \<Rightarrow> f64" where
  "AppliedSince l obs now = (if now \<le> obs then Fin 0 else cumulativeSlew l now - cumulativeSlew l obs)"

definition setApplied :: "loop \<Rightarrow> f64 \<Rightarrow> loop" where
  "setApplied l word = l\<lparr>l_applied := word, l_appliedBase := l_Freq l, l_haveApply := True\<rparr>"

section \<open>Updates and ticks\<close>

definition loop_step :: "loop \<Rightarrow> f64 \<Rightarrow> f64 \<Rightarrow> loop \<times> update_result" where
  "loop_step l0 offset now =
     (let l1 = l0\<lparr>l_Steps := l_Steps l0 + 1, l_Updates := l_Updates l0 + 1\<rparr>;
          l2 = fst (elapsed l1 now)
      in (l2\<lparr>l_appliedBase := l_applied l2, l_slewLog := [], l_cumSlew := Fin 0, l_Pending := Fin 0,
             l_lastOffset := Fin 0, l_lastUpdate := now, l_firstTime := now, l_firstOffset := Fin 0,
             l_slewed := Fin 0, l_skipJitter := True\<rparr>,
          zero_result\<lparr>ur_Actions := [\<lparr>ac_Kind = ActionStep, ac_Value = offset\<rparr>,
                                     \<lparr>ac_Kind = ActionResetFilters, ac_Value = Fin 0\<rparr>],
                      ur_Stepped := True\<rparr>))"

definition update_jitter :: "loop \<Rightarrow> f64 \<Rightarrow> loop" where
  "update_jitter l offset =
     (let d = fmax \<bar>offset - l_lastOffset l\<bar> (lc_Precision (l_cfg l))
      in if l_Updates l = 0 then
           l\<lparr>l_Jitter := fmax (lc_Precision (l_cfg l)) (d / fsqrt jitterAverage)\<rparr>
         else if l_skipJitter l then l\<lparr>l_skipJitter := False\<rparr>
         else l\<lparr>l_Jitter := fsqrt (l_Jitter l * l_Jitter l + (d * d - l_Jitter l * l_Jitter l) / jitterAverage)\<rparr>)"

definition update_freq :: "loop \<Rightarrow> f64 \<Rightarrow> f64 \<Rightarrow> f64 \<Rightarrow> f64 \<Rightarrow> loop" where
  \<comment> \<open>offset, now, the interval since the previous update and the time constant of this one\<close>
  "update_freq l offset now mu tau =
     (if l_Updates l = 0 then l\<lparr>l_firstTime := now, l_firstOffset := offset, l_slewed := Fin 0\<rparr>
      else if \<not> l_FreqKnown l \<and> lc_FreqMeasure (l_cfg l) > Fin 0 then
        (let el = now - l_firstTime l
         in if el \<ge> lc_FreqMeasure (l_cfg l) then
              l\<lparr>l_Freq := clampFreq (l_Freq l + (offset - l_firstOffset l + l_slewed l) / el * million), l_FreqKnown := True\<rparr>
            else l)
      else if \<bar>offset\<bar> > lc_MaxSlewPPM (l_cfg l) * millionth * tau then l
      else l\<lparr>l_Freq := clampFreq (l_Freq l + offset * fmin mu AllanIntercept / (Fin 4 * tau * tau) * million),
             l_FreqKnown := True\<rparr>)"

definition loop_Update :: "loop \<Rightarrow> f64 \<Rightarrow> int8 \<Rightarrow> f64 \<Rightarrow> bool \<Rightarrow> bool \<Rightarrow> loop \<times> update_result" where
  "loop_Update l offset poll now synced mayStep =
     (let ab = \<bar>offset\<bar>
      in if ab > lc_Panic (l_cfg l) then
           (if \<not> (l_Updates l = 0 \<and> lc_PanicAtStartup (l_cfg l)) \<or> \<not> stepAllowed l then
              (l, zero_result\<lparr>ur_PanicRefused := True\<rparr>)
            else if \<not> mayStep then (l, zero_result\<lparr>ur_Deferred := True\<rparr>)
            else loop_step l offset now)
         else if ab > lc_StepThreshold (l_cfg l) \<and> stepAllowed l then
           (if \<not> mayStep then (l, zero_result\<lparr>ur_Deferred := True\<rparr>) else loop_step l offset now)
         else
           (let mu = (if l_Updates l > 0 then now - l_lastUpdate l else Fin 0);
                tau = lc_TimeConstant (l_cfg l) * ldexp1 (sint poll)
            in if synced \<and> l_Updates l > 0 \<and> \<bar>offset - l_lastOffset l\<bar> > spikeGate * l_Jitter l \<and>
                  mu < Fin 2 * ldexp1 (sint poll) then
                 (l, zero_result\<lparr>ur_Mu := mu, ur_Ignored := True\<rparr>)
               else (let l1 = update_freq (update_jitter l offset) offset now mu tau;
                         l2 = chargeApplied l1 now
                     in (l2\<lparr>l_Pending := offset, l_lastOffset := offset, l_lastUpdate := now, l_tau := tau,
                            l_Updates := l_Updates l2 + 1\<rparr>, zero_result\<lparr>ur_Mu := mu\<rparr>))))"

definition loop_Tick :: "loop \<Rightarrow> f64 \<Rightarrow> loop \<times> action list" where
  "loop_Tick l0 now =
     (let l = chargeApplied l0 now
      in if feq (l_Pending l) (Fin 0) then
           (if \<not> l_haveApply l \<or> \<not> feq (l_applied l) (l_Freq l) then
              (setApplied l (l_Freq l), [\<lparr>ac_Kind = ActionSetFrequency, ac_Value = l_Freq l\<rparr>])
            else (l, []))
         else
           (let maxSlew = lc_MaxSlewPPM (l_cfg l) * millionth;
                adj0 = fmax (- maxSlew) (fmin maxSlew (l_Pending l / l_tau l));
                adj = (if \<bar>l_Pending l\<bar> < f64_of_real (1 / 10 ^ 9) then l_Pending l else adj0);
                word = clampFreq (l_Freq l + adj * million)
            in (setApplied l word, [\<lparr>ac_Kind = ActionSetFrequency, ac_Value = word\<rparr>])))"

definition TimeConstant :: "loop \<Rightarrow> f64" where
  "TimeConstant l = l_tau l"

definition Applied :: "loop \<Rightarrow> f64 \<times> bool" where
  "Applied l = (l_applied l, l_haveApply l)"

section \<open>The frequency stays within what the kernel accepts\<close>

definition ppm_ok :: "f64 \<Rightarrow> bool" where
  "ppm_ok f \<longleftrightarrow> - MaxFrequency \<le> f \<and> f \<le> MaxFrequency"

definition bounded :: "f64 \<Rightarrow> bool" where
  \<comment> \<open>an ordinary number of seconds\<close>
  "bounded x \<longleftrightarrow> (\<exists>r. x = Fin r \<and> \<bar>r\<bar> \<le> 1125899906842624)"

definition tuned :: "loop_config \<Rightarrow> bool" where
  \<comment> \<open>a positive time constant whose square a binary64 holds, and a slew limit that is a number\<close>
  "tuned c \<longleftrightarrow> Fin (1 / 1125899906842624) \<le> lc_TimeConstant c \<and> lc_TimeConstant c \<le> Fin 1125899906842624 \<and> lc_MaxSlewPPM c \<noteq> NaN"

definition good_config :: "loop_config \<Rightarrow> bool" where
  \<comment> \<open>the same, or no time constant, which selects the default\<close>
  "good_config c \<longleftrightarrow> (lc_TimeConstant c \<le> Fin 0 \<and> lc_MaxSlewPPM c \<noteq> NaN) \<or> tuned c"

definition effective_config :: "loop_config \<Rightarrow> loop_config" where
  \<comment> \<open>the configuration a loop runs with\<close>
  "effective_config c = (if lc_TimeConstant c \<le> Fin 0 then c\<lparr>lc_TimeConstant := DefaultTimeConstant\<rparr> else c)"

lemma NewLoop_cfg: "l_cfg (NewLoop cfg freq known) = effective_config cfg"
  by (simp add: NewLoop_def effective_config_def Let_def)

lemma effective_tuned: "good_config c \<Longrightarrow> tuned (effective_config c)"
  by (auto simp: good_config_def effective_config_def tuned_def)

lemma effective_fields [simp]:
  "lc_StepLimit (effective_config c) = lc_StepLimit c" "lc_StepThreshold (effective_config c) = lc_StepThreshold c"
  "lc_Panic (effective_config c) = lc_Panic c" "lc_PanicAtStartup (effective_config c) = lc_PanicAtStartup c"
  by (simp_all add: effective_config_def)

definition loop_ok :: "loop \<Rightarrow> bool" where
  "loop_ok l \<longleftrightarrow> tuned (l_cfg l) \<and> ppm_ok (l_Freq l) \<and> ppm_ok (l_applied l) \<and> ppm_ok (l_appliedBase l) \<and>
     l_Pending l \<noteq> NaN \<and> l_slewed l \<noteq> NaN \<and> bounded (l_firstOffset l) \<and> bounded (l_firstTime l) \<and>
     bounded (l_chargeFrom l) \<and> bounded (l_lastUpdate l) \<and> (\<exists>t. l_tau l = Fin t \<and> 0 < t)"

lemma clampFreq_ok: "f \<noteq> NaN \<Longrightarrow> ppm_ok (clampFreq f)"
  by (cases f) (auto simp: clampFreq_def ppm_ok_def fmax_def fmin_def)

lemma ppm_ok_Fin: "ppm_ok f \<longleftrightarrow> (\<exists>r. f = Fin r \<and> - 500 \<le> r \<and> r \<le> 500)"
  unfolding ppm_ok_def using f64_between_Fin [of "- 500" f 500] by auto

lemma millionth_value: "millionth = Fin (4722366482869645 / 4722366482869645213696)"
  by (simp add: millionth_def f64_eval)

lemma millionth_Fin: "\<exists>m. millionth = Fin m \<and> 0 < m \<and> m \<le> 1"
  unfolding millionth_value by (intro exI conjI, rule refl) simp_all

lemma bounded_diff: "bounded a \<Longrightarrow> bounded b \<Longrightarrow> \<exists>r. a - b = Fin r"
proof -
  assume "bounded a" "bounded b"
  then obtain x y where xy: "a = Fin x" "b = Fin y" "\<bar>x\<bar> \<le> 1125899906842624" "\<bar>y\<bar> \<le> 1125899906842624"
    by (auto simp: bounded_def)
  then have "\<bar>x - y\<bar> \<le> of_int 2251799813685248" by simp
  from f64_of_real_bounded [OF this] xy show ?thesis by auto
qed

text \<open>What one accounting interval moves is a number.\<close>

lemma ran_Fin:
  assumes "ppm_ok a" "ppm_ok b"
  shows "\<exists>r. (a - b) * millionth = Fin r \<and> \<bar>r\<bar> \<le> 1000"
proof -
  obtain x y where xy: "a = Fin x" "b = Fin y" "\<bar>x - y\<bar> \<le> 1000" using assms by (auto simp: ppm_ok_Fin)
  obtain z where z: "f64_of_real (x - y) = Fin z" "\<bar>z\<bar> \<le> 1000" using f64_of_real_bounded [of "x - y" 1000] xy by auto
  obtain m where m: "millionth = Fin m" "0 < m" "m \<le> 1" using millionth_Fin by blast
  have "\<bar>z * m\<bar> \<le> 1000 * 1" unfolding abs_mult using z m by (intro mult_mono) auto
  then have "\<exists>r. Fin z * Fin m = Fin r \<and> \<bar>r\<bar> \<le> 1000" using f64_of_real_bounded [of "z * m" 1000] by simp
  moreover have "a - b = Fin z" using xy z by simp
  ultimately show ?thesis unfolding m(1) by simp
qed

lemma elapsed_sound:
  assumes "elapsed l now = (l', dt)" "bounded now" "bounded (l_chargeFrom l)"
  shows "l' = l\<lparr>l_chargeFrom := now, l_haveTick := True\<rparr> \<and> (\<exists>r. dt = Fin r \<and> 0 \<le> r \<and> r \<le> 2)"
proof -
  obtain r where "now - l_chargeFrom l = Fin r" using bounded_diff assms by blast
  moreover from this have "dt = (if \<not> l_haveTick l \<or> r < 0 then Fin 0 else if r > 2 then Fin 2 else Fin r)"
    using assms(1) by (auto simp: elapsed_def Let_def split: if_splits)
  ultimately show ?thesis using assms(1) by (auto simp: elapsed_def Let_def)
qed

lemma noteSlew_frame:
  "noteSlew l now moved = l\<lparr>l_cumSlew := l_cumSlew (noteSlew l now moved), l_slewLog := l_slewLog (noteSlew l now moved)\<rparr>"
  by (simp add: noteSlew_def Let_def)

lemma loop_ok_noteSlew: "loop_ok (noteSlew l now moved) = loop_ok l"
  by (subst noteSlew_frame) (simp add: loop_ok_def)

lemma chargeApplied_ok:
  assumes "loop_ok l" "bounded now"
  shows "loop_ok (chargeApplied l now)"
proof -
  obtain l1 dt where e: "elapsed l now = (l1, dt)" by force
  from elapsed_sound [OF e assms(2)] assms(1)
  have l1: "l1 = l\<lparr>l_chargeFrom := now, l_haveTick := True\<rparr>" and dt: "\<exists>r. dt = Fin r \<and> 0 \<le> r \<and> r \<le> 2"
    by (auto simp: loop_ok_def)
  obtain ran where ran: "(l_applied l - l_appliedBase l) * millionth = Fin ran" "\<bar>ran\<bar> \<le> 1000"
    using ran_Fin assms(1) by (auto simp: loop_ok_def)
  obtain d where d: "dt = Fin d" "0 \<le> d" "d \<le> 2" using dt by blast
  have "\<bar>ran * d\<bar> \<le> 1000 * 2" unfolding abs_mult using ran(2) d by (intro mult_mono) auto
  then obtain m where m: "Fin ran * dt = Fin m" using f64_of_real_bounded [of "ran * d" 2000] d(1) by auto
  have "loop_ok l1" using assms l1 by (simp add: loop_ok_def)
  moreover have "loop_ok (l1\<lparr>l_Pending := (if c then Fin 0 else l_Pending l1 - Fin m), l_slewed := l_slewed l1 + Fin m\<rparr>)" for c
    using calculation by (simp add: loop_ok_def)
  moreover have "(l_applied l1 - l_appliedBase l1) * millionth = Fin ran" using ran l1 by simp
  ultimately show ?thesis
    unfolding chargeApplied_def e Let_def prod.case by (simp only: m loop_ok_noteSlew split: if_split) blast
qed

lemma time_constant_bounds:
  assumes "tuned c"
  shows "\<exists>t. lc_TimeConstant c * ldexp1 (sint (poll :: int8)) = Fin t \<and> 2 powi (- 178) \<le> t \<and> t \<le> 2 powi 177"
proof -
  obtain t where t: "lc_TimeConstant c = Fin t" "2 powi (- 50) \<le> t" "t \<le> 2 powi 50"
    using assms f64_between_Fin [of "1 / 1125899906842624" "lc_TimeConstant c" 1125899906842624]
    by (auto simp: tuned_def power_int_def power_one_over field_simps)
  have p: "- 128 \<le> sint poll" "sint poll \<le> 127"
    using sint_greater_eq [of poll] sint_less [of poll] by (simp_all del: sint_greater_eq sint_less)
  have "\<exists>s. Fin t * Fin (2 powi sint poll) = Fin s \<and> 2 powi (- 50 + sint poll) \<le> s \<and> s \<le> 2 powi (50 + sint poll)"
    using t p by (intro f64_mult_powi_bounds) auto
  then obtain s where s: "Fin t * Fin (2 powi sint poll) = Fin s" "2 powi (- 50 + sint poll) \<le> s" "s \<le> 2 powi (50 + sint poll)"
    by auto
  have "(2::real) powi (- 178) \<le> 2 powi (- 50 + sint poll)" "(2::real) powi (50 + sint poll) \<le> 2 powi 177"
    using p by (intro power_int_increasing; simp)+
  then have "2 powi (- 178) \<le> s" "s \<le> 2 powi 177" using s(2,3) by (blast intro: order_trans)+
  moreover have "lc_TimeConstant c * ldexp1 (sint poll) = Fin s" using s(1) t(1) p ldexp1_small [of "sint poll"] by simp
  ultimately show ?thesis by blast
qed

lemma tau_square_pos:
  assumes "2 powi (- 178) \<le> t" "t \<le> 2 powi 177"
  shows "\<exists>q. Fin 4 * Fin t * Fin t = Fin q \<and> 0 < q"
proof -
  obtain s where s: "Fin 4 * Fin t = Fin s" "2 powi (- 176) \<le> s" "s \<le> 2 powi 179"
    using f64_mult_powi_bounds [of 2 4 2 "- 178" t 177] assms by auto
  obtain q where "Fin s * Fin t = Fin q" "2 powi (- 354) \<le> q"
    using f64_mult_powi_bounds [of "- 176" s 179 "- 178" t 177] assms s by auto
  moreover have "0 < (2::real) powi (- 354)" by simp
  ultimately show ?thesis unfolding s(1) using less_le_trans by blast
qed

lemma clampFreq_sum_ok: "ppm_ok f \<Longrightarrow> x \<noteq> NaN \<Longrightarrow> ppm_ok (clampFreq (f + x))"
  by (rule clampFreq_ok) (auto simp: ppm_ok_Fin)

lemma update_jitter_ok: "loop_ok (update_jitter l offset) = loop_ok l"
  by (simp add: update_jitter_def loop_ok_def Let_def)

lemma update_freq_ok:
  assumes ok: "loop_ok l" and "bounded offset" "bounded now" "mu = now - l_lastUpdate l \<or> mu = Fin 0"
    and tau: "2 powi (- 178) \<le> t" "t \<le> 2 powi 177"
  shows "loop_ok (update_freq l offset now mu (Fin t))"
proof -
  obtain off where off: "offset = Fin off" using assms(2) by (auto simp: bounded_def)
  obtain d where d: "offset - l_firstOffset l = Fin d" using bounded_diff assms by (metis loop_ok_def)
  obtain el where el: "now - l_firstTime l = Fin el" using bounded_diff assms by (metis loop_ok_def)
  obtain m where m: "mu = Fin m" using bounded_diff assms by (metis loop_ok_def)
  obtain q where q: "Fin 4 * Fin t * Fin t = Fin q" "0 < q" using tau_square_pos [OF tau] by blast
  have f: "ppm_ok (l_Freq l)" and sl: "l_slewed l \<noteq> NaN" using ok by (simp_all add: loop_ok_def)
  have A: "ppm_ok (clampFreq (l_Freq l + (offset - l_firstOffset l + l_slewed l) / (now - l_firstTime l) * million))"
    if "lc_FreqMeasure (l_cfg l) > Fin 0" "now - l_firstTime l \<ge> lc_FreqMeasure (l_cfg l)"
  proof -
    have "0 < el" using that el f64_less_le_trans by fastforce
    then show ?thesis unfolding el d using f sl
      by (intro clampFreq_sum_ok f64_scale_not_NaN f64_div_Fin_not_NaN) auto
  qed
  have B: "ppm_ok (clampFreq (l_Freq l + offset * fmin mu AllanIntercept / (Fin 4 * Fin t * Fin t) * million))"
    unfolding q(1) m off fmin_Fin using f q(2)
    by (intro clampFreq_sum_ok f64_scale_not_NaN f64_div_Fin_not_NaN f64_mult_Fin_not_NaN) auto
  have C: "loop_ok (l\<lparr>l_Freq := x, l_FreqKnown := True\<rparr>)" if "ppm_ok x" for x
    using ok that by (simp add: loop_ok_def)
  have D: "loop_ok (l\<lparr>l_firstTime := now, l_firstOffset := offset, l_slewed := Fin 0\<rparr>)"
    using ok assms(2,3) by (simp add: loop_ok_def)
  show ?thesis unfolding update_freq_def Let_def using A B C D ok by (simp split: if_split)
qed

lemma loop_step_ok: "loop_ok l \<Longrightarrow> bounded now \<Longrightarrow> loop_ok (fst (loop_step l offset now))"
  by (simp add: loop_step_def loop_ok_def elapsed_def Let_def bounded_def)

lemma update_jitter_fields:
  "l_cfg (update_jitter l offset) = l_cfg l" "l_lastUpdate (update_jitter l offset) = l_lastUpdate l"
  "l_Updates (update_jitter l offset) = l_Updates l"
  by (simp_all add: update_jitter_def Let_def)

lemma loop_Update_ok:
  assumes ok: "loop_ok l" and b: "bounded offset" "bounded now"
  shows "loop_ok (fst (loop_Update l offset poll now synced mayStep))"
proof -
  have "tuned (l_cfg l)" using ok by (simp add: loop_ok_def)
  then obtain t where t: "lc_TimeConstant (l_cfg l) * ldexp1 (sint poll) = Fin t" "2 powi (- 178) \<le> t" "t \<le> 2 powi 177"
    using time_constant_bounds by blast
  have pos: "0 < t" using t(2) less_le_trans [of 0 "2 powi (- 178)" t] by simp
  define mu where "mu = (if l_Updates l > 0 then now - l_lastUpdate l else Fin 0)"
  define l1 where "l1 = chargeApplied (update_freq (update_jitter l offset) offset now mu (Fin t)) now"
  have "loop_ok (update_freq (update_jitter l offset) offset now mu (Fin t))"
    using ok b t by (intro update_freq_ok) (simp_all add: update_jitter_ok update_jitter_fields mu_def)
  then have "loop_ok l1" unfolding l1_def using b(2) by (rule chargeApplied_ok)
  then have "loop_ok (l1\<lparr>l_Pending := offset, l_lastOffset := offset, l_lastUpdate := now, l_tau := Fin t,
                           l_Updates := l_Updates l1 + 1\<rparr>)"
    using b pos by (auto simp: loop_ok_def bounded_def)
  then show ?thesis
    using ok loop_step_ok [OF ok b(2)]
    unfolding loop_Update_def Let_def t(1) mu_def [symmetric] l1_def [symmetric] by (simp split: if_split)
qed

lemma loop_Tick_ok:
  assumes ok: "loop_ok l" and b: "bounded now"
  shows "loop_ok (fst (loop_Tick l now)) \<and>
    (\<forall>a \<in> set (snd (loop_Tick l now)). ac_Kind a = ActionSetFrequency \<and> ppm_ok (ac_Value a))"
proof -
  define c where "c = chargeApplied l now"
  have c: "loop_ok c" using chargeApplied_ok [OF ok b] by (simp add: c_def)
  then obtain t where t: "l_tau c = Fin t" "0 < t" and s: "lc_MaxSlewPPM (l_cfg c) \<noteq> NaN"
    by (auto simp: loop_ok_def tuned_def)
  have f: "ppm_ok (l_Freq c)" and p: "l_Pending c \<noteq> NaN" using c by (simp_all add: loop_ok_def)
  obtain m where m: "millionth = Fin m" "0 < m" using millionth_Fin by blast
  have ms: "lc_MaxSlewPPM (l_cfg c) * millionth \<noteq> NaN"
  proof (cases "lc_MaxSlewPPM (l_cfg c)")
    case (Fin x)
    then show ?thesis unfolding m(1) by (simp only: f64_mult_Fin_not_NaN not_False_eq_True)
  qed (use s m(2) in \<open>simp_all add: m(1) f64_arith_defs inf_of_sign_def\<close>)
  have pt: "l_Pending c / l_tau c \<noteq> NaN" unfolding t using p t(2) by (intro f64_div_Fin_not_NaN) auto
  have nn: "fmax (- x) (fmin x y) \<noteq> NaN" if "x \<noteq> NaN" "y \<noteq> NaN" for x y
    using that by (cases x; cases y) (auto simp: fmax_def fmin_def uminus_f64_def)
  have w: "ppm_ok (clampFreq (l_Freq c + adj * million))" if "adj \<noteq> NaN" for adj
    using f that by (intro clampFreq_sum_ok f64_scale_not_NaN) auto
  have set_ok: "loop_ok (setApplied c x)" if "ppm_ok x" for x
    using c that by (simp add: setApplied_def loop_ok_def)
  show ?thesis
    unfolding loop_Tick_def Let_def c_def [symmetric]
    using c f w [OF p] w [OF nn [OF ms pt]] set_ok by (simp split: if_split)
qed

lemma NewLoop_ok:
  assumes "good_config cfg" "freq \<noteq> NaN"
  shows "loop_ok (NewLoop cfg freq known)"
proof -
  have ok: "tuned (effective_config cfg)" by (rule effective_tuned [OF assms(1)])
  obtain t where t: "lc_TimeConstant (effective_config cfg) * ldexp1 (sint (6 :: int8)) = Fin t" "2 powi (- 178) \<le> t"
    using time_constant_bounds [OF ok] by blast
  have "0 < t" using t(2) less_le_trans [of 0 "2 powi (- 178)" t] by simp
  moreover have "ppm_ok (Fin 0)" "bounded (Fin 0)" by (auto simp: ppm_ok_def bounded_def)
  ultimately show ?thesis using t(1) ok clampFreq_ok [OF assms(2)]
    by (simp add: NewLoop_def loop_ok_def effective_config_def [symmetric] Let_def)
qed

section \<open>Runs of the loop\<close>

text \<open>
  A run starts with \<^verbatim>\<open>NewLoop\<close> and calls \<^verbatim>\<open>Update\<close> and \<^verbatim>\<open>Tick\<close> in any order, with offsets and times that are
  ordinary numbers of seconds and in no particular order. The list is everything the run asked of the
  actuator.
\<close>

inductive loop_run :: "loop_config \<Rightarrow> loop \<Rightarrow> action list \<Rightarrow> bool" for cfg where
  loop_run_new: "freq \<noteq> NaN \<Longrightarrow> loop_run cfg (NewLoop cfg freq known) []"
| loop_run_update: "loop_run cfg l asked \<Longrightarrow> bounded offset \<Longrightarrow> bounded now \<Longrightarrow>
    loop_Update l offset poll now synced mayStep = (l', u) \<Longrightarrow> loop_run cfg l' (asked @ ur_Actions u)"
| loop_run_tick: "loop_run cfg l asked \<Longrightarrow> bounded now \<Longrightarrow> loop_Tick l now = (l', acts) \<Longrightarrow> loop_run cfg l' (asked @ acts)"

definition frequency_actions_ok :: "action list \<Rightarrow> bool" where
  "frequency_actions_ok acts \<longleftrightarrow> (\<forall>a \<in> set acts. ac_Kind a = ActionSetFrequency \<longrightarrow> ppm_ok (ac_Value a))"

definition step_offsets :: "action list \<Rightarrow> f64 list" where
  "step_offsets acts = map ac_Value (filter (\<lambda>a. ac_Kind a = ActionStep) acts)"

lemma step_offsets_append [simp]: "step_offsets (a @ b) = step_offsets a @ step_offsets b"
  by (simp add: step_offsets_def)

lemma frequency_actions_append [simp]:
  "frequency_actions_ok (a @ b) \<longleftrightarrow> frequency_actions_ok a \<and> frequency_actions_ok b"
  by (auto simp: frequency_actions_ok_def)

text \<open>When \<^verbatim>\<open>Update\<close> steps, and what it then asks for.\<close>

definition step_wanted :: "loop \<Rightarrow> f64 \<Rightarrow> bool" where
  "step_wanted l offset \<longleftrightarrow> stepAllowed l \<and>
     (if \<bar>offset\<bar> > lc_Panic (l_cfg l) then l_Updates l = 0 \<and> lc_PanicAtStartup (l_cfg l)
      else \<bar>offset\<bar> > lc_StepThreshold (l_cfg l))"

lemma loop_Update_step: "step_wanted l offset \<Longrightarrow> loop_Update l offset poll now synced True = loop_step l offset now"
  by (auto simp: loop_Update_def step_wanted_def Let_def split: if_splits)

lemma loop_Update_no_step:
  assumes "\<not> (step_wanted l offset \<and> mayStep)"
  shows "ur_Actions (snd (loop_Update l offset poll now synced mayStep)) = [] \<and>
    \<not> ur_Stepped (snd (loop_Update l offset poll now synced mayStep))"
  using assms by (auto simp: loop_Update_def step_wanted_def Let_def zero_result_def)

lemma chargeApplied_frame:
  "\<exists>p s c g. chargeApplied l now = l\<lparr>l_chargeFrom := now, l_haveTick := True, l_Pending := p, l_slewed := s, l_cumSlew := c, l_slewLog := g\<rparr>"
  unfolding chargeApplied_def elapsed_def Let_def prod.case
  by (rule exI [of _ "l_Pending (chargeApplied l now)"], rule exI [of _ "l_slewed (chargeApplied l now)"],
      rule exI [of _ "l_cumSlew (chargeApplied l now)"], rule exI [of _ "l_slewLog (chargeApplied l now)"])
    (simp add: chargeApplied_def elapsed_def noteSlew_def Let_def)

lemma chargeApplied_fields [simp]:
  "l_cfg (chargeApplied l now) = l_cfg l" "l_Updates (chargeApplied l now) = l_Updates l"
  "l_Steps (chargeApplied l now) = l_Steps l" "l_Freq (chargeApplied l now) = l_Freq l"
  using chargeApplied_frame [of l now] by auto

lemma update_freq_fields:
  "l_cfg (update_freq l offset now mu tau) = l_cfg l" "l_Updates (update_freq l offset now mu tau) = l_Updates l"
  "l_Steps (update_freq l offset now mu tau) = l_Steps l" "l_slewLog (update_freq l offset now mu tau) = l_slewLog l"
  by (simp_all add: update_freq_def Let_def)

lemma update_jitter_more_fields:
  "l_Steps (update_jitter l offset) = l_Steps l" "l_slewLog (update_jitter l offset) = l_slewLog l"
  by (simp_all add: update_jitter_def Let_def)

lemma loop_step_fields:
  "l_cfg (fst (loop_step l offset now)) = l_cfg l" "l_Updates (fst (loop_step l offset now)) = Suc (l_Updates l)"
  "l_Steps (fst (loop_step l offset now)) = Suc (l_Steps l)"
  "ur_Actions (snd (loop_step l offset now)) = [\<lparr>ac_Kind = ActionStep, ac_Value = offset\<rparr>, \<lparr>ac_Kind = ActionResetFilters, ac_Value = Fin 0\<rparr>]"
  "ur_Stepped (snd (loop_step l offset now))" "l_slewLog (fst (loop_step l offset now)) = []"
  by (simp_all add: loop_step_def elapsed_def Let_def)

lemma loop_Update_fields:
  "l_cfg (fst (loop_Update l offset poll now synced mayStep)) = l_cfg l"
  "l_Steps (fst (loop_Update l offset poll now synced mayStep)) =
     (if step_wanted l offset \<and> mayStep then Suc (l_Steps l) else l_Steps l)"
  "l_Updates (fst (loop_Update l offset poll now synced mayStep)) \<in> {l_Updates l, Suc (l_Updates l)}"
  by (auto simp: loop_Update_def step_wanted_def Let_def loop_step_fields update_freq_fields update_jitter_fields
      update_jitter_more_fields)

lemma loop_Tick_fields:
  "l_cfg (fst (loop_Tick l now)) = l_cfg l" "l_Steps (fst (loop_Tick l now)) = l_Steps l"
  "l_Updates (fst (loop_Tick l now)) = l_Updates l" "step_offsets (snd (loop_Tick l now)) = []"
  by (simp_all add: loop_Tick_def setApplied_def Let_def step_offsets_def)

definition step_justified :: "loop_config \<Rightarrow> f64 \<Rightarrow> bool" where
  "step_justified cfg v \<longleftrightarrow> lc_StepLimit cfg \<noteq> 0 \<and>
     (\<bar>v\<bar> > lc_StepThreshold cfg \<or> (lc_PanicAtStartup cfg \<and> \<bar>v\<bar> > lc_Panic cfg)) \<and>
     (\<not> lc_PanicAtStartup cfg \<longrightarrow> \<not> \<bar>v\<bar> > lc_Panic cfg)"

lemma step_wanted_justified: "step_wanted l offset \<Longrightarrow> step_justified (l_cfg l) offset"
  by (auto simp: step_wanted_def step_justified_def stepAllowed_def split: if_splits)

lemma step_justified_effective [simp]: "step_justified (effective_config cfg) v = step_justified cfg v"
  by (simp add: step_justified_def)

text \<open>The steps of a run are within their budget whatever the configuration and the numbers are.\<close>

definition budget_ok :: "loop_config \<Rightarrow> loop \<Rightarrow> action list \<Rightarrow> bool" where
  "budget_ok cfg l asked \<longleftrightarrow> l_cfg l = effective_config cfg \<and> length (step_offsets asked) = l_Steps l \<and> l_Steps l \<le> l_Updates l \<and>
     (lc_StepLimit cfg \<ge> 0 \<longrightarrow> int (l_Steps l) \<le> lc_StepLimit cfg) \<and>
     (\<forall>v \<in> set (step_offsets asked). step_justified cfg v)"

lemma budget_ok_update:
  assumes "budget_ok cfg l asked" "loop_Update l offset poll now synced mayStep = (l', u)"
  shows "budget_ok cfg l' (asked @ ur_Actions u)"
proof (cases "step_wanted l offset \<and> mayStep")
  case True
  then have st: "loop_step l offset now = (l', u)" using assms(2) loop_Update_step by auto
  have fs: "l_cfg l' = l_cfg l" "l_Updates l' = Suc (l_Updates l)" "l_Steps l' = Suc (l_Steps l)"
    "ur_Actions u = [\<lparr>ac_Kind = ActionStep, ac_Value = offset\<rparr>, \<lparr>ac_Kind = ActionResetFilters, ac_Value = Fin 0\<rparr>]"
    using loop_step_fields(1-4) [of l offset now] unfolding st by simp_all
  have "step_justified cfg offset" using step_wanted_justified True assms(1) by (fastforce simp: budget_ok_def)
  moreover have "int (Suc (l_Steps l)) \<le> lc_StepLimit cfg" if "lc_StepLimit cfg \<ge> 0"
    using True that assms(1) by (auto simp: budget_ok_def step_wanted_def stepAllowed_def split: if_splits)
  moreover have "step_offsets (ur_Actions u) = [offset]" by (simp add: fs step_offsets_def)
  ultimately show ?thesis using assms(1) by (simp add: budget_ok_def fs(1-3))
next
  case False
  then have "ur_Actions u = []" using loop_Update_no_step assms(2) by (metis snd_conv)
  moreover have "l_cfg l' = l_cfg l" "l_Steps l' = l_Steps l" "l_Updates l' \<in> {l_Updates l, Suc (l_Updates l)}"
    using loop_Update_fields [of l offset poll now synced mayStep] False assms(2) by auto
  ultimately show ?thesis using assms(1) by (auto simp: budget_ok_def)
qed

lemma budget_ok_tick:
  assumes "budget_ok cfg l asked" "loop_Tick l now = (l', acts)"
  shows "budget_ok cfg l' (asked @ acts)"
  using loop_Tick_fields [of l now] assms by (simp add: budget_ok_def)

lemma loop_run_budget: "loop_run cfg l asked \<Longrightarrow> budget_ok cfg l asked"
proof (induction rule: loop_run.induct)
  case (loop_run_new freq known)
  show ?case by (simp add: budget_ok_def NewLoop_cfg step_offsets_def) (simp add: NewLoop_def Let_def)
qed (auto intro: budget_ok_update budget_ok_tick)

lemma loop_run_frequency: "loop_run cfg l asked \<Longrightarrow> good_config cfg \<Longrightarrow> loop_ok l \<and> frequency_actions_ok asked"
proof (induction rule: loop_run.induct)
  case (loop_run_new freq known)
  then show ?case using NewLoop_ok [of cfg freq known] by (simp add: frequency_actions_ok_def)
next
  case (loop_run_update l asked offset now poll synced mayStep l' u)
  have "frequency_actions_ok (ur_Actions u)"
    using loop_Update_step [of l offset poll now synced] loop_Update_no_step [of l offset mayStep poll now synced]
      loop_step_fields(4) [of l offset now] loop_run_update(4)
    by (cases "step_wanted l offset \<and> mayStep") (auto simp: frequency_actions_ok_def)
  then show ?case using loop_Update_ok [of l offset now poll synced mayStep] loop_run_update by simp
next
  case (loop_run_tick l asked now l' acts)
  then show ?case using loop_Tick_ok [of l now] by (auto simp: frequency_actions_ok_def)
qed

section \<open>The record of applied phase\<close>

definition log_sorted :: "slew_point list \<Rightarrow> bool" where
  "log_sorted ps \<longleftrightarrow> sorted_wrt (\<lambda>a b. sp_at a \<le> sp_at b) ps \<and> (\<forall>p \<in> set ps. bounded (sp_at p))"

lemma bounded_not_NaN: "bounded x \<Longrightarrow> x \<noteq> NaN"
  by (auto simp: bounded_def)

lemma drop_old_suffix: "\<exists>pre. ps = pre @ drop_old since ps"
proof (induction since ps rule: drop_old.induct)
  case (1 since a b ps)
  then show ?case by (cases "sp_at b \<le> since") (auto intro: exI [of _ "a # _"])
qed simp_all

lemma log_sorted_drop_old: "log_sorted ps \<Longrightarrow> log_sorted (drop_old since ps)"
proof -
  assume "log_sorted ps"
  moreover obtain pre where "ps = pre @ drop_old since ps" using drop_old_suffix by blast
  ultimately show ?thesis unfolding log_sorted_def by (metis Un_iff set_append sorted_wrt_append)
qed

lemma log_sorted_snoc:
  assumes "log_sorted ps" "bounded (sp_at p)" "ps = [] \<or> \<not> sp_at p < sp_at (last ps)"
  shows "log_sorted (ps @ [p])"
proof (cases ps rule: rev_cases)
  case (snoc qs q)
  have "bounded (sp_at q)" using assms(1) snoc by (simp add: log_sorted_def)
  then have "sp_at q \<le> sp_at p" using assms(2,3) snoc f64_not_less bounded_not_NaN by auto
  moreover have "\<forall>x \<in> set qs. sp_at x \<le> sp_at q" using assms(1) snoc by (simp add: log_sorted_def sorted_wrt_append)
  ultimately show ?thesis using assms(1,2) snoc f64_le_trans
    by (auto simp: log_sorted_def sorted_wrt_append)
qed (use assms(2) in \<open>simp add: log_sorted_def\<close>)

lemma log_sorted_noteSlew: "log_sorted (l_slewLog l) \<Longrightarrow> bounded now \<Longrightarrow> log_sorted (l_slewLog (noteSlew l now moved))"
  unfolding noteSlew_def Let_def
  by (cases "l_slewLog l = []") (auto intro!: log_sorted_drop_old log_sorted_snoc simp: log_sorted_def [of "[_]"])

lemma log_sorted_chargeApplied:
  "log_sorted (l_slewLog l) \<Longrightarrow> bounded now \<Longrightarrow> log_sorted (l_slewLog (chargeApplied l now))"
  by (simp add: chargeApplied_def elapsed_def Let_def log_sorted_noteSlew)

lemma log_sorted_Update:
  assumes "log_sorted (l_slewLog l)" "bounded now"
  shows "log_sorted (l_slewLog (fst (loop_Update l offset poll now synced mayStep)))"
proof -
  have nil: "log_sorted []" by (simp add: log_sorted_def)
  have "log_sorted (l_slewLog (chargeApplied (update_freq (update_jitter l offset) offset now mu tau) now))" for mu tau
    using assms by (intro log_sorted_chargeApplied) (simp_all add: update_freq_fields update_jitter_more_fields)
  then show ?thesis using assms nil by (simp add: loop_Update_def Let_def loop_step_fields split: if_split)
qed

lemma loop_run_log_sorted: "loop_run cfg l asked \<Longrightarrow> log_sorted (l_slewLog l)"
proof (induction rule: loop_run.induct)
  case (loop_run_update l asked offset now poll synced mayStep l' u)
  then show ?case using log_sorted_Update by (metis fst_conv)
next
  case (loop_run_tick l asked now l' acts)
  have "l_slewLog (fst (loop_Tick l now)) = l_slewLog (chargeApplied l now)"
    by (simp add: loop_Tick_def setApplied_def Let_def)
  then show ?case using loop_run_tick log_sorted_chargeApplied by (metis fst_conv)
qed (simp add: NewLoop_def Let_def log_sorted_def)

lemma slew_search_sound:
  assumes "slew_search ps t lo hi = (a, b)" "lo < hi" "sp_at (ps ! lo) \<le> t" "\<not> sp_at (ps ! hi) \<le> t"
  shows "b = Suc a \<and> lo \<le> a \<and> b \<le> hi \<and> sp_at (ps ! a) \<le> t \<and> \<not> sp_at (ps ! b) \<le> t"
  using assms
proof (induction ps t lo hi rule: slew_search.induct)
  case (1 ps t lo hi)
  show ?case
  proof (cases "lo + 1 < hi")
    case True
    define mid where "mid = (lo + hi) div 2"
    have mid: "lo < mid" "mid < hi" using True by (auto simp: mid_def)
    show ?thesis
    proof (cases "sp_at (ps ! mid) \<le> t")
      case le: True
      then have "slew_search ps t mid hi = (a, b)"
        using "1.prems"(1) True by (subst (asm) slew_search.simps) (simp add: Let_def mid_def)
      then show ?thesis using "1.IH"(1) [OF True mid_def] le mid 1 by auto
    next
      case gt: False
      then have "slew_search ps t lo mid = (a, b)"
        using "1.prems"(1) True by (subst (asm) slew_search.simps) (simp add: Let_def mid_def)
      then show ?thesis using "1.IH"(2) [OF True mid_def] gt mid 1 by auto
    qed
  next
    case False
    then have "a = lo" "b = hi" using "1.prems"(1) by (subst (asm) slew_search.simps; simp)+
    then show ?thesis using False 1 by auto
  qed
qed

lemma log_sorted_nth: "log_sorted ps \<Longrightarrow> i \<le> j \<Longrightarrow> j < length ps \<Longrightarrow> sp_at (ps ! i) \<le> sp_at (ps ! j)"
  using bounded_not_NaN by (cases "i = j") (auto simp: log_sorted_def sorted_wrt_iff_nth_less)

definition slew_between :: "slew_point \<Rightarrow> slew_point \<Rightarrow> f64 \<Rightarrow> f64" where
  \<comment> \<open>linear interpolation between two accounting points\<close>
  "slew_between a b t = sp_cum a + (sp_cum b - sp_cum a) * (t - sp_at a) / (sp_at b - sp_at a)"

lemma cumulativeSlew_inside:
  assumes s: "log_sorted (l_slewLog l)" and t: "sp_at (hd (l_slewLog l)) < t" "t < sp_at (last (l_slewLog l))"
    and ne: "l_slewLog l \<noteq> []"
  shows "\<exists>i. Suc i < length (l_slewLog l) \<and>
    (\<forall>j \<le> i. sp_at (l_slewLog l ! j) \<le> t) \<and> (\<forall>j > i. j < length (l_slewLog l) \<longrightarrow> t < sp_at (l_slewLog l ! j)) \<and>
    cumulativeSlew l t = slew_between (l_slewLog l ! i) (l_slewLog l ! Suc i) t"
proof -
  define ps where "ps = l_slewLog l"
  define n where "n = length ps - 1"
  have nan: "t \<noteq> NaN" "sp_at (ps ! j) \<noteq> NaN" if "j < length ps" for j
    using t f64_less_not_NaN s bounded_not_NaN that by (auto simp: log_sorted_def ps_def)
  have ends: "hd ps = ps ! 0" "last ps = ps ! n" using ne by (simp_all add: ps_def n_def hd_conv_nth last_conv_nth)
  have n: "n < length ps" using ne by (simp add: n_def ps_def)
  have 0: "\<not> t \<le> sp_at (hd ps)"
    using f64_less_le_trans [OF t(1), of "sp_at (hd ps)"] f64_less_irrefl by (auto simp: ps_def)
  have "\<not> sp_at (last ps) \<le> t"
    using f64_less_le_trans [OF t(2), of t] f64_less_irrefl by (auto simp: ps_def)
  note 0 = 0 this
  have pos: "0 < n" using 0 t ends by (cases n) (auto simp: ps_def dest: f64_less_imp_le)
  obtain a b where ab: "slew_search ps t 0 n = (a, b)" by force
  then have found: "b = Suc a" "b \<le> n" "sp_at (ps ! a) \<le> t" "\<not> sp_at (ps ! b) \<le> t"
    using slew_search_sound [OF ab pos] t 0 ends by (auto simp: ps_def dest: f64_less_imp_le)
  have lt: "t < sp_at (ps ! b)" using found nan n f64_not_le by auto
  have "\<not> feq (sp_at (ps ! b)) (sp_at (ps ! a))"
    using found lt by (cases "sp_at (ps ! b)"; cases "sp_at (ps ! a)"; cases t) (auto simp: feq_def)
  then have "cumulativeSlew l t = slew_between (ps ! a) (ps ! Suc a) t"
    using ne 0 ab found(1)
    by (simp add: cumulativeSlew_def slew_between_def ps_def [symmetric] n_def Let_def)
  moreover have "sp_at (ps ! j) \<le> t" if "j \<le> a" for j
    using log_sorted_nth [of ps j a] s that found n f64_le_trans by (auto simp: ps_def)
  moreover have "t < sp_at (ps ! j)" if "j > a" "j < length ps" for j
    using log_sorted_nth [of ps b j] s that found lt f64_less_le_trans by (auto simp: ps_def)
  ultimately show ?thesis using found n by (intro exI [of _ a]) (auto simp: ps_def)
qed

section \<open>Properties\<close>

definition sample_config :: loop_config where
  \<comment> \<open>as the daemon configures it: no time constant, and fifteen minutes of frequency measurement\<close>
  "sample_config = \<lparr>lc_StepThreshold = f64_of_real (128 / 1000), lc_StepLimit = 3, lc_Panic = Fin 1000, lc_PanicAtStartup = True,
     lc_MaxSlewPPM = Fin 500, lc_Precision = f64_of_real (1 / 1000000), lc_TimeConstant = Fin 0, lc_FreqMeasure = Fin 900\<rparr>"

lemma sample_config_good: "good_config sample_config"
  by (simp add: good_config_def sample_config_def)

definition sample_loop :: loop where
  "sample_loop = NewLoop sample_config (Fin 12) True"

lemma bounded_small: "\<bar>r\<bar> \<le> 1125899906842624 \<Longrightarrow> bounded (Fin r)"
  by (simp add: bounded_def)

lemma sample_run: "loop_run sample_config (fst (loop_Tick sample_loop (Fin 1))) ([] @ snd (loop_Tick sample_loop (Fin 1)))"
  unfolding sample_loop_def by (rule loop_run_tick, rule loop_run_new) (simp_all add: bounded_small)

lemma sample_tick: "snd (loop_Tick sample_loop (Fin 1)) = [\<lparr>ac_Kind = ActionSetFrequency, ac_Value = Fin 12\<rparr>]"
  by (simp add: sample_loop_def NewLoop_def sample_config_def loop_Tick_def chargeApplied_def elapsed_def noteSlew_def
      clampFreq_def feq_def Let_def)

text \<open>C3: In every run of the clock discipline loop the base frequency and the word last issued stay within
  500 ppm, and every frequency the loop asks the kernel for is within 500 ppm. The run may mix updates and
  ticks in any order, with offsets and times in any order, as long as they are numbers of at most \<open>2^50\<close> seconds and the
  starting frequency is a number. The configuration has no time constant (zero or less, the daemon's own, which selects the
  default) or one between \<open>2^-50\<close> and \<open>2^50\<close>, and a slew limit that is a number.\<close>
theorem loop_frequency_bounded:
  assumes "loop_run cfg l asked" "good_config cfg"
  shows "ppm_ok (l_Freq l) \<and> ppm_ok (l_applied l) \<and>
    (\<forall>a \<in> set asked. ac_Kind a = ActionSetFrequency \<longrightarrow> - MaxFrequency \<le> ac_Value a \<and> ac_Value a \<le> MaxFrequency)"
  using loop_run_frequency [OF assms] by (simp add: loop_ok_def frequency_actions_ok_def ppm_ok_def)

theorem loop_frequency_bounded_witness:
  "lc_TimeConstant sample_config = Fin 0 \<and> loop_run sample_config (fst (loop_Tick sample_loop (Fin 1))) (snd (loop_Tick sample_loop (Fin 1))) \<and>
   snd (loop_Tick sample_loop (Fin 1)) = [\<lparr>ac_Kind = ActionSetFrequency, ac_Value = Fin 12\<rparr>] \<and>
   - MaxFrequency \<le> Fin 12 \<and> ppm_ok (l_applied (fst (loop_Tick sample_loop (Fin 1))))"
  using loop_frequency_bounded [OF sample_run sample_config_good] sample_run unfolding sample_tick by (simp add: sample_config_def)

definition stepped_once :: loop where
  "stepped_once = fst (loop_Update sample_loop (Fin 2) 6 (Fin 10) False True)"

lemma sample_step_wanted: "step_wanted sample_loop (Fin 2)"
  by (simp add: step_wanted_def stepAllowed_def sample_loop_def NewLoop_def sample_config_def Let_def f64_eval)

lemma stepped_run:
  "loop_run sample_config stepped_once [\<lparr>ac_Kind = ActionStep, ac_Value = Fin 2\<rparr>, \<lparr>ac_Kind = ActionResetFilters, ac_Value = Fin 0\<rparr>]"
proof -
  have "loop_run sample_config stepped_once ([] @ ur_Actions (snd (loop_Update sample_loop (Fin 2) 6 (Fin 10) False True)))"
    unfolding stepped_once_def sample_loop_def
    by (rule loop_run_update [OF loop_run_new, where poll = 6 and synced = False and mayStep = True]) (simp_all add: bounded_small)
  then show ?thesis by (simp add: loop_Update_step [OF sample_step_wanted] loop_step_fields(4))
qed

text \<open>C32: The step budget. In every run, whatever the configuration, each step the loop asks for is counted, a limit of N bounds
  the number of steps by N (so a limit of zero means never), and each step rests on an offset beyond the step
  threshold, or beyond the panic threshold when the startup exception is configured. A run starts from a frequency that is a number and takes
  offsets and times of at most \<open>2^50\<close> seconds, in any order.\<close>
theorem loop_step_budget:
  assumes "loop_run cfg l asked"
  shows "length (step_offsets asked) = l_Steps l \<and>
    (lc_StepLimit cfg \<ge> 0 \<longrightarrow> int (length (step_offsets asked)) \<le> lc_StepLimit cfg) \<and>
    (\<forall>v \<in> set (step_offsets asked). step_justified cfg v)"
  using loop_run_budget [OF assms] by (simp add: budget_ok_def)

theorem loop_step_budget_witness:
  "loop_run sample_config stepped_once [\<lparr>ac_Kind = ActionStep, ac_Value = Fin 2\<rparr>, \<lparr>ac_Kind = ActionResetFilters, ac_Value = Fin 0\<rparr>] \<and>
   l_Steps stepped_once = 1 \<and> 1 \<le> lc_StepLimit sample_config \<and> step_justified sample_config (Fin 2)"
  using loop_step_budget [OF stepped_run] stepped_run by (simp add: step_offsets_def sample_config_def)

text \<open>C33: The step policy of one update. It steps exactly when the caller permits it, the limit allows it, and
  the offset is beyond the step threshold, or beyond the panic threshold on the first update with the
  startup exception. A deferred, refused or ignored update asks for nothing and leaves the loop as it was,
  and an update is refused only beyond the panic threshold.\<close>
theorem loop_Update_policy:
  "loop_Update l offset poll now synced mayStep = (l', u) \<Longrightarrow>
    (ur_Stepped u \<longleftrightarrow> mayStep \<and> step_wanted l offset) \<and>
    (ur_Deferred u \<longleftrightarrow> \<not> mayStep \<and> step_wanted l offset) \<and>
    (ur_PanicRefused u \<longleftrightarrow> \<bar>offset\<bar> > lc_Panic (l_cfg l) \<and> \<not> step_wanted l offset) \<and>
    (ur_Deferred u \<or> ur_PanicRefused u \<or> ur_Ignored u \<longrightarrow> l' = l \<and> ur_Actions u = []) \<and>
    (\<not> ur_Deferred u \<and> \<not> ur_PanicRefused u \<and> \<not> ur_Ignored u \<longrightarrow> l_Updates l' = l_Updates l + 1)"
  by (auto simp: loop_Update_def step_wanted_def Let_def zero_result_def loop_step_def elapsed_def
      update_freq_fields update_jitter_fields split: if_splits)

theorem loop_Update_policy_witness:
  "ur_Stepped (snd (loop_Update sample_loop (Fin 2) 6 (Fin 10) False True))"
  using loop_Update_policy [OF surjective_pairing, of sample_loop "Fin 2" 6 "Fin 10" False True] sample_step_wanted by blast

text \<open>C37: The record of applied phase answers for any time between its first and last accounting points: in
  every run there is exactly one pair of neighbouring points around the time, all earlier points at or
  before it and all later ones after it, and the answer interpolates between those two.\<close>
theorem cumulativeSlew_interpolates:
  assumes "loop_run cfg l asked" "l_slewLog l \<noteq> []" "sp_at (hd (l_slewLog l)) < t" "t < sp_at (last (l_slewLog l))"
  shows "\<exists>i. Suc i < length (l_slewLog l) \<and>
    (\<forall>j \<le> i. sp_at (l_slewLog l ! j) \<le> t) \<and> (\<forall>j > i. j < length (l_slewLog l) \<longrightarrow> t < sp_at (l_slewLog l ! j)) \<and>
    cumulativeSlew l t = slew_between (l_slewLog l ! i) (l_slewLog l ! Suc i) t"
  using cumulativeSlew_inside [OF loop_run_log_sorted [OF assms(1)] assms(3,4,2)] .

definition ticked_twice :: loop where
  "ticked_twice = fst (loop_Tick (fst (loop_Tick sample_loop (Fin 1))) (Fin 2))"

lemma ticked_twice_log: "map sp_at (l_slewLog ticked_twice) = [Fin 1, Fin 2]"
  by (simp add: ticked_twice_def sample_loop_def NewLoop_def sample_config_def loop_Tick_def chargeApplied_def
      elapsed_def noteSlew_def clampFreq_def feq_def setApplied_def Let_def f64_eval)

theorem cumulativeSlew_interpolates_witness:
  "\<exists>i. cumulativeSlew ticked_twice (Fin (3 / 2)) =
    slew_between (l_slewLog ticked_twice ! i) (l_slewLog ticked_twice ! Suc i) (Fin (3 / 2))"
proof -
  obtain p q where pq: "l_slewLog ticked_twice = [p, q]" "sp_at p = Fin 1" "sp_at q = Fin 2"
    using ticked_twice_log by (auto simp: map_eq_Cons_conv)
  have "loop_run sample_config ticked_twice
      (([] @ snd (loop_Tick sample_loop (Fin 1))) @ snd (loop_Tick (fst (loop_Tick sample_loop (Fin 1))) (Fin 2)))"
    unfolding ticked_twice_def by (rule loop_run_tick [OF sample_run]) (simp_all add: bounded_small)
  from cumulativeSlew_interpolates [OF this, of "Fin (3 / 2)"] show ?thesis by (auto simp: pq(2,3) pq(1) [THEN arg_cong, of hd]
      pq(1) [THEN arg_cong, of last] pq(1) [THEN arg_cong, of "\<lambda>x. x = []"])
qed

end
