(* ===== verification/Discipline_System.thy ===== *)
theory Discipline_System
  imports Selection Discipline_Loop
begin

text \<open>
  \<^verbatim>\<open>internal/discipline/system.go\<close>: the sources, the selection and the loop tied together, and the state
  machine of the daemon. Each method of \<^verbatim>\<open>System\<close> is a function from the system to the system after the
  call and its result. The method panics where the selection does, or where the order names a source that
  the map does not have; both are \<open>None\<close>.
\<close>

section \<open>Types\<close>

fun state_String :: "sync_state \<Rightarrow> string" where
  "state_String StateUnsynced = ''unsynced''"
| "state_String StateSettling = ''settling''"
| "state_String StateSynced = ''synced''"
| "state_String StateHoldover = ''holdover''"

record sys_config =
  cf_Loop :: loop_config
  cf_MinSurvivors :: int
  cf_HoldoverMax :: f64
  cf_SettleUpdates :: int
  cf_LocalRefIDs :: "refid list"

record result =
  rs_Actions :: "action list"
  rs_Events :: "event list"

record source_status =
  sst_Name :: string
  sst_Status :: select_status
  sst_Prefer :: bool
  sst_NoSelect :: bool
  sst_Reach :: uint8
  sst_Poll :: int8
  sst_Offset :: f64
  sst_Delay :: f64
  sst_Dispersion :: f64
  sst_Jitter :: f64
  sst_Distance :: f64
  sst_Stratum :: uint8
  sst_RefID :: refid
  sst_Leap :: leap
  sst_Updated :: f64
  sst_DisagreesWith :: string
  sst_Disagreement :: f64

record sys_status =
  st_State :: sync_state
  st_Stratum :: uint8
  st_RefID :: refid
  st_Leap :: leap
  st_RootDelay :: f64
  st_RootDisp :: f64
  st_Offset :: f64
  st_Frequency :: f64
  st_FreqKnown :: bool
  st_Jitter :: f64
  st_Pending :: f64
  st_SystemSource :: string
  st_PreferLost :: bool
  st_PPSQualified :: bool
  st_LastUpdate :: f64
  st_Updates :: nat
  st_Steps :: nat
  st_Sources :: "source_status list"

record system =
  sy_cfg :: sys_config
  sy_sources :: "string \<rightharpoonup> source_state"
  sy_order :: "string list"
  sy_loop :: loop
  sy_state :: sync_state
  sy_sinceStep :: nat
  sy_postStepUpdates :: nat
  sy_resyncing :: bool
  sy_everSynced :: bool
  sy_rootDispAt :: f64
  sy_unsyncedReason :: refid
  sy_sel :: selection
  sy_sysName :: string
  sy_lastUpdate :: f64
  sy_haveUpdate :: bool
  sy_offset :: f64
  sy_rootDelay :: f64
  sy_rootDisp :: f64
  sy_stratum :: uint8
  sy_refID :: refid
  sy_leap :: leap
  sy_holdoverSince :: f64
  sy_preferLost :: bool

definition zero_selection :: selection where
  "zero_selection = \<lparr>sel_Survivors = [], sel_System = None, sel_Offset = Fin 0, sel_Jitter = Fin 0, sel_PreferLost = False,
     sel_PPSQualified = False, sel_Low = Fin 0, sel_High = Fin 0, sel_Events = []\<rparr>"

definition no_result :: result where
  "no_result = \<lparr>rs_Actions = [], rs_Events = []\<rparr>"

section \<open>Sources\<close>

definition sys_New :: "sys_config \<Rightarrow> f64 \<Rightarrow> bool \<Rightarrow> system" where
  "sys_New cfg0 freq freqKnown =
     (let cfg1 = (if cf_MinSurvivors cfg0 < 1 then cfg0\<lparr>cf_MinSurvivors := 1\<rparr> else cfg0);
          cfg = (if cf_SettleUpdates cfg1 < 1 then cfg1\<lparr>cf_SettleUpdates := 1\<rparr> else cfg1)
      in \<lparr>sy_cfg = cfg, sy_sources = Map.empty, sy_order = [], sy_loop = NewLoop (cf_Loop cfg) freq freqKnown,
          sy_state = StateUnsynced, sy_sinceStep = 0, sy_postStepUpdates = 0, sy_resyncing = False, sy_everSynced = False,
          sy_rootDispAt = Fin 0, sy_unsyncedReason = KissINIT, sy_sel = zero_selection, sy_sysName = [],
          sy_lastUpdate = Fin 0, sy_haveUpdate = False, sy_offset = Fin 0, sy_rootDelay = Fin 0, sy_rootDisp = Fin 0,
          sy_stratum = 16, sy_refID = KissINIT, sy_leap = LeapUnsync, sy_holdoverSince = Fin 0, sy_preferLost = False\<rparr>)"

definition AddSource :: "system \<Rightarrow> string \<Rightarrow> options \<Rightarrow> system" where
  "AddSource s name opts =
     s\<lparr>sy_order := (if sy_sources s name = None then sy_order s @ [name] else sy_order s),
       sy_sources := (sy_sources s)(name \<mapsto> new_source name opts)\<rparr>"

definition sys_all :: "system \<Rightarrow> source_state list option" where
  "sys_all s = those (map (sy_sources s) (sy_order s))"

definition put_all :: "source_state list \<Rightarrow> system \<Rightarrow> system" where
  \<comment> \<open>the states the pointers of \<^verbatim>\<open>all\<close> point to, changed\<close>
  "put_all ss s = s\<lparr>sy_sources := sy_sources s ++ map_of (zip (sy_order s) ss)\<rparr>"

section \<open>The state machine\<close>

definition setState :: "sync_state \<Rightarrow> system \<times> result \<Rightarrow> system \<times> result" where
  "setState to sr =
     (let (s, res) = sr
      in if sy_state s = to then sr
         else (s\<lparr>sy_everSynced := (sy_everSynced s \<or> to = StateSynced), sy_state := to\<rparr>,
               res\<lparr>rs_Events := rs_Events res @ [\<lparr>ev_Kind = EventStateChange, ev_Source = [], ev_Value = Fin 0,
                                                 ev_From = sy_state s, ev_To = to\<rparr>]\<rparr>))"

definition settleDone :: "system \<Rightarrow> f64 \<Rightarrow> bool" where
  "settleDone s offset =
     (if sy_postStepUpdates s < 1 then False
      else if int (sy_sinceStep s) < cf_SettleUpdates (sy_cfg s) then False
      else \<not> stepAllowed (sy_loop s) \<or> \<bar>offset\<bar> \<le> lc_StepThreshold (cf_Loop (sy_cfg s)))"

definition sys_mayStep :: "system \<Rightarrow> source_state list \<Rightarrow> pointers \<Rightarrow> nat \<Rightarrow> bool" where
  \<comment> \<open>the states, the survivors and the system source of the selection\<close>
  "sys_mayStep s ss survivors i =
     (if l_Steps (sy_loop s) = 0 then True
      else if ss_sinceStep (ss ! i) \<ge> 2 then True
      else length (filter (\<lambda>j. ss_sinceStep (ss ! j) \<ge> 1) survivors) \<ge> 2)"

definition status_events :: "(string \<rightharpoonup> select_status) \<Rightarrow> source_state \<Rightarrow> event list" where
  "status_events prev src =
     (let was = (case prev (ss_Name src) of None \<Rightarrow> StatusUnreachable | Some st \<Rightarrow> st);
          now = ss_Status src
      in (if now = StatusFalseticker \<and> was \<noteq> StatusFalseticker then [mk_event EventFalseticker (ss_Name src) (ss_Offset src)] else []) @
         (if was = StatusFalseticker \<and> now \<noteq> StatusFalseticker \<and> now \<noteq> StatusUnreachable
          then [mk_event EventTruechimer (ss_Name src) (ss_Offset src)] else []) @
         (if ss_PPS src then
            (if now = StatusUnqualified \<and> was \<noteq> StatusUnqualified then [mk_event EventPPSUnqualified (ss_Name src) (Fin 0)]
             else if was = StatusUnqualified \<and> now \<noteq> StatusUnqualified \<and> now \<noteq> StatusUnreachable \<and> now \<noteq> StatusInvalid \<and>
                     now \<noteq> StatusFalseticker then [mk_event EventPPSQualified (ss_Name src) (Fin 0)]
             else [])
          else []))"

definition lose_system :: "f64 \<Rightarrow> system \<times> result \<Rightarrow> system \<times> result" where
  \<comment> \<open>the branch of \<^verbatim>\<open>reselect\<close> without a system source\<close>
  "lose_system now sr =
     (let (s0, res) = sr; s = s0\<lparr>sy_sysName := []\<rparr>
      in if sy_state s = StateSynced then setState StateHoldover (s\<lparr>sy_holdoverSince := now\<rparr>, res)
         else if sy_state s = StateSettling \<and> sy_everSynced s then setState StateHoldover (s\<lparr>sy_holdoverSince := now\<rparr>, res)
         else if sy_state s = StateSettling then setState StateUnsynced (s\<lparr>sy_unsyncedReason := KissINIT\<rparr>, res)
         else (s, res))"

definition no_new_sample :: "system \<times> result \<Rightarrow> system \<times> result" where
  \<comment> \<open>the branch of \<^verbatim>\<open>reselect\<close> where the loop has used the system source's sample already\<close>
  "no_new_sample sr =
     (let (s1, res1) = (if sy_state (fst sr) = StateHoldover then setState StateSettling sr else sr)
      in if sy_state s1 = StateSettling \<and> settleDone s1 (sy_offset s1) then setState StateSynced (s1, res1) else (s1, res1))"

definition add_event :: "event \<Rightarrow> result \<Rightarrow> result" where
  "add_event e res = res\<lparr>rs_Events := rs_Events res @ [e]\<rparr>"

definition system_vars :: "source_state \<Rightarrow> f64 \<Rightarrow> f64 \<Rightarrow> system \<Rightarrow> system" where
  \<comment> \<open>the system source, the selection jitter and the time\<close>
  "system_vars src jitter now s =
     s\<lparr>sy_stratum := (if ss_Stratum src \<ge> 15 then 16 else ss_Stratum src + 1),
       sy_refID := ss_SourceRefID src,
       sy_rootDelay := ss_RootDelay src + ss_Delay src,
       sy_rootDisp := ss_RootDisp src + ss_Dispersion src + jitter,
       sy_rootDispAt := ss_Updated src,
       sy_lastUpdate := now,
       sy_haveUpdate := True\<rparr>"

definition after_step :: "source_state list \<Rightarrow> f64 \<Rightarrow> system \<times> result \<Rightarrow> system \<times> result" where
  \<comment> \<open>the states behind \<^verbatim>\<open>all\<close> and the offset of the step\<close>
  "after_step ss offset sr =
     (let (s, res) = sr
      in setState StateSettling
           ((put_all (map invalidate ss) s)\<lparr>sy_offset := Fin 0, sy_sinceStep := 0, sy_postStepUpdates := 0, sy_resyncing := False,
              sy_everSynced := False\<rparr>,
            add_event (mk_event EventStep [] offset) res))"

definition after_update :: "f64 \<Rightarrow> system \<times> result \<Rightarrow> system \<times> result" where
  \<comment> \<open>the default branch: the loop took the offset\<close>
  "after_update offset sr =
     (let (s0, res) = sr; s = s0\<lparr>sy_offset := offset, sy_postStepUpdates := sy_postStepUpdates s0 + 1\<rparr>
      in if sy_state s = StateSynced then (s, res)
         else if sy_resyncing s \<or> settleDone s offset then setState StateSynced (s\<lparr>sy_resyncing := False\<rparr>, res)
         else setState StateSettling (s, res))"

definition feed_loop :: "source_state list \<Rightarrow> selection \<Rightarrow> nat \<Rightarrow> f64 \<Rightarrow> system \<times> result \<Rightarrow> system \<times> result" where
  \<comment> \<open>the rest of \<^verbatim>\<open>reselect\<close>, from the loop update on\<close>
  "feed_loop ss0 sel i now sr =
     (let (s0, res0) = sr;
          ss = ss0[i := (ss0 ! i)\<lparr>ss_usedAt := ss_At (ss0 ! i)\<rparr>];
          s1 = put_all ss s0;
          (l, u) = loop_Update (sy_loop s1) (sel_Offset sel) (ss_Poll (ss ! i)) now (sy_state s1 = StateSynced)
                     (sys_mayStep s1 ss (sel_Survivors sel) i);
          s = s1\<lparr>sy_loop := l\<rparr>;
          res = res0\<lparr>rs_Actions := rs_Actions res0 @ ur_Actions u\<rparr>
      in if ur_Deferred u then (s, res)
         else if ur_PanicRefused u then
           setState StateUnsynced (s\<lparr>sy_unsyncedReason := KissPANC\<rparr>, add_event (mk_event EventPanicRefused [] (sel_Offset sel)) res)
         else if ur_Ignored u then (s, add_event (mk_event EventPopcorn [] (sel_Offset sel)) res)
         else (let (s2, res2) = (if ur_Stepped u then after_step ss (sel_Offset sel) (s, res)
                                 else after_update (sel_Offset sel) (s, res))
               in (system_vars (ss ! i) (sel_Jitter sel) now s2, res2)))"

definition note_selection :: "source_state list \<Rightarrow> source_state list \<Rightarrow> selection \<Rightarrow> f64 \<Rightarrow> system \<Rightarrow> system \<times> result" where
  \<comment> \<open>from the states before and after the selection: the events, and the system up to the leap indicator\<close>
  "note_selection before ss sel now s =
     (let prev = map_of (rev (map (\<lambda>x. (ss_Name x, ss_Status x)) before));
          events = sel_Events sel @ concat (map (status_events prev) ss) @
            (if sel_PreferLost sel \<noteq> sy_preferLost s
             then [mk_event (if sel_PreferLost sel then EventPreferLost else EventPreferRegained) [] (Fin 0)] else [])
      in ((put_all ss s)\<lparr>sy_preferLost := sel_PreferLost sel, sy_sel := sel,
             sy_leap := majorityLeap (map (nth ss) (sel_Survivors sel)) now\<rparr>,
          \<lparr>rs_Actions = [], rs_Events = events\<rparr>))"

definition note_system :: "string \<Rightarrow> system \<times> result \<Rightarrow> system \<times> result" where
  "note_system name sr =
     (let (s, res) = sr
      in if name \<noteq> sy_sysName s then (s\<lparr>sy_sysName := name\<rparr>, add_event (mk_event EventSystemSource name (Fin 0)) res)
         else (s, res))"

definition reselect :: "system \<Rightarrow> f64 \<Rightarrow> (system \<times> result) option" where
  "reselect s now =
     (case sys_all s of None \<Rightarrow> None
      | Some before \<Rightarrow>
          (case SelectAt before now (cf_MinSurvivors (sy_cfg s))
                  \<lparr>so_LocalRefIDs = cf_LocalRefIDs (sy_cfg s), so_AppliedSince = Some (AppliedSince (sy_loop s))\<rparr> of
             None \<Rightarrow> None
           | Some (ss, sel) \<Rightarrow>
               (let sr = note_selection before ss sel now s
                in case sel_System sel of
                     None \<Rightarrow> Some (lose_system now sr)
                   | Some i \<Rightarrow>
                       (let sr1 = note_system (ss_Name (ss ! i)) sr
                        in if ss_At (ss ! i) \<le> ss_usedAt (ss ! i) then Some (no_new_sample sr1)
                           else Some (feed_loop ss sel i now sr1)))))"

section \<open>Operations\<close>

definition RemoveSource :: "system \<Rightarrow> string \<Rightarrow> f64 \<Rightarrow> (system \<times> result) option" where
  "RemoveSource s name now =
     (if sy_sources s name = None then Some (s, no_result)
      else reselect (s\<lparr>sy_sources := (sy_sources s)(name := None), sy_order := remove1 name (sy_order s)\<rparr>) now)"

definition InvalidateSources :: "system \<Rightarrow> f64 \<Rightarrow> (system \<times> result) option" where
  "InvalidateSources s now =
     (case sys_all s of None \<Rightarrow> None | Some ss \<Rightarrow> reselect (put_all (map invalidate ss) s) now)"

definition Resync :: "system \<Rightarrow> f64 \<Rightarrow> (system \<times> result) option" where
  "Resync s now =
     (case sys_all s of None \<Rightarrow> None
      | Some ss \<Rightarrow> reselect ((put_all (map invalidate ss) s)\<lparr>sy_resyncing := (sy_state s = StateSynced \<or> sy_state s = StateHoldover)\<rparr>) now)"

definition sys_Update :: "system \<Rightarrow> measurement \<Rightarrow> (system \<times> result) option" where
  "sys_Update s m =
     (case sy_sources s (me_Source m) of
        None \<Rightarrow> Some (s, \<lparr>rs_Actions = [], rs_Events = [mk_event EventUnknownSource (me_Source m) (Fin 0)]\<rparr>)
      | Some src \<Rightarrow>
          (let s1 = s\<lparr>sy_sources := (sy_sources s)(me_Source m \<mapsto> apply_measurement src m)\<rparr>;
               s2 = (if me_Source m = sy_sysName s1 \<and> IsAcquisition m then s1\<lparr>sy_sinceStep := sy_sinceStep s1 + 1\<rparr> else s1)
           in reselect s2 (me_Now m)))"

definition sys_Tick :: "system \<Rightarrow> f64 \<Rightarrow> (system \<times> result) option" where
  "sys_Tick s0 now =
     (case reselect s0 now of None \<Rightarrow> None
      | Some (s1, res1) \<Rightarrow>
          (let (l, acts) = loop_Tick (sy_loop s1) now;
               s2 = s1\<lparr>sy_loop := l\<rparr>;
               res2 = res1\<lparr>rs_Actions := acts @ rs_Actions res1\<rparr>
           in if sy_state s2 = StateHoldover \<and> now - sy_holdoverSince s2 > cf_HoldoverMax (sy_cfg s2)
              then Some (setState StateUnsynced (s2\<lparr>sy_unsyncedReason := KissHOLD\<rparr>, res2))
              else Some (s2, res2)))"

definition source_line :: "source_state \<Rightarrow> source_status" where
  "source_line src =
     \<lparr>sst_Name = ss_Name src, sst_Status = ss_Status src, sst_Prefer = ss_Prefer src, sst_NoSelect = ss_NoSelect src,
      sst_Reach = ss_Reach src, sst_Poll = ss_Poll src, sst_Offset = ss_Offset src, sst_Delay = ss_Delay src,
      sst_Dispersion = ss_Dispersion src, sst_Jitter = ss_Jitter src, sst_Distance = ss_Distance src,
      sst_Stratum = ss_Stratum src, sst_RefID = ss_RefID src, sst_Leap = ss_Leap src, sst_Updated = ss_Updated src,
      sst_DisagreesWith = ss_DisagreesWith src, sst_Disagreement = ss_Disagreement src\<rparr>"

definition sys_Status :: "system \<Rightarrow> f64 \<Rightarrow> sys_status option" where
  "sys_Status s now =
     (case sys_all s of None \<Rightarrow> None
      | Some ss \<Rightarrow>
          (let st0 = \<lparr>st_State = sy_state s, st_Stratum = sy_stratum s, st_RefID = sy_refID s, st_Leap = sy_leap s,
                 st_RootDelay = sy_rootDelay s, st_RootDisp = Fin 0, st_Offset = sy_offset s, st_Frequency = l_Freq (sy_loop s),
                 st_FreqKnown = l_FreqKnown (sy_loop s), st_Jitter = l_Jitter (sy_loop s), st_Pending = l_Pending (sy_loop s),
                 st_SystemSource = sy_sysName s, st_PreferLost = sy_preferLost s, st_PPSQualified = sel_PPSQualified (sy_sel s),
                 st_LastUpdate = Fin 0, st_Updates = l_Updates (sy_loop s), st_Steps = l_Steps (sy_loop s),
                 st_Sources = map source_line ss\<rparr>;
               st1 = (if sy_haveUpdate s then
                        st0\<lparr>st_LastUpdate := sy_lastUpdate s,
                            st_RootDisp := sy_rootDisp s + Phi * fmax (Fin 0) (now - sy_rootDispAt s) + \<bar>l_Pending (sy_loop s)\<bar>\<rparr>
                      else st0)
           in Some (case sy_state s of
                StateUnsynced \<Rightarrow> st1\<lparr>st_Stratum := 16, st_Leap := LeapUnsync, st_RootDisp := MaxDispersion, st_RefID := sy_unsyncedReason s\<rparr>
              | StateSettling \<Rightarrow> (if l_Steps (sy_loop s) > 0 \<and> feq (sy_offset s) (Fin 0)
                                  then st1\<lparr>st_Leap := LeapUnsync, st_RefID := KissSTEP\<rparr> else st1\<lparr>st_Leap := LeapUnsync\<rparr>)
              | _ \<Rightarrow> st1)))"

end
