(* ===== verification/Selection_Correct.thy ===== *)
theory Selection_Correct
  imports Selection "HOL-Library.Sublist"
begin

text \<open>
  What selection promises: the intersection keeps a majority clique, clustering only discards and stops
  at three, no ineligible source survives, a PPS source survives only with a numbering source that agrees
  with it, and the marks on the sources are the outcome.
\<close>

section \<open>Counting edges\<close>

interpretation edge_order: comparison edge_less "\<lambda>e. fst e \<noteq> NaN"
proof
  fix x y z :: edge
  assume d: "fst x \<noteq> NaN" "fst y \<noteq> NaN"
  show "edge_less x y \<Longrightarrow> \<not> edge_less y x"
    using d by (auto simp: edge_less_def feq_def dest: f64_less_asym split: if_splits)
  assume z: "fst z \<noteq> NaN" "\<not> edge_less x y" "\<not> edge_less y z"
  have *: "\<not> edge_less a b \<longleftrightarrow> fst b < fst a \<or> (fst a = fst b \<and> snd b \<le> snd a)" if "fst a \<noteq> NaN" "fst b \<noteq> NaN" for a b
    using that by (auto simp: edge_less_def feq_def f64_not_less f64_le_less_eq dest: f64_less_asym)
  show "\<not> edge_less x z" using d z unfolding * [OF d] * [OF d(2) z(1)] * [OF d(1) z(1)]
    by (auto dest: f64_less_trans)
qed

lemma not_edge_less_le: "fst a \<noteq> NaN \<Longrightarrow> fst b \<noteq> NaN \<Longrightarrow> \<not> edge_less a b \<Longrightarrow> fst b \<le> fst a"
  by (auto simp: edge_less_def feq_def f64_not_less split: if_splits)

definition edge_count :: "int \<Rightarrow> edge list \<Rightarrow> nat" where
  "edge_count t es = length (filter (\<lambda>e. snd e = t) es)"

lemma sum_edges:
  "\<forall>e \<in> set es. snd e \<in> {-1, 0, 1} \<Longrightarrow> sum_list (map snd es) = int (edge_count 1 es) - int (edge_count (-1) es)"
  by (induction es) (auto simp: edge_count_def)

lemma scan_low_stop:
  "scan_low need chime mids es = (v, m) \<Longrightarrow> v \<noteq> NaN \<Longrightarrow>
   \<exists>pre e post. es = pre @ e # post \<and> fst e = v \<and> need \<le> chime - sum_list (map snd (pre @ [e]))"
proof (induction es arbitrary: chime mids)
  case (Cons a es)
  show ?case
  proof (cases "chime - snd a \<ge> need")
    case True
    then show ?thesis using Cons.prems by (intro exI [of _ "[]"] exI [of _ a] exI [of _ es]) (auto simp: Let_def)
  next
    case False
    then have "scan_low need (chime - snd a) (if snd a = 0 then mids + 1 else mids) es = (v, m)"
      using Cons.prems by (simp add: Let_def)
    from Cons.IH [OF this Cons.prems(2)]
    obtain pre e post where "es = pre @ e # post" "fst e = v" "need \<le> (chime - snd a) - sum_list (map snd (pre @ [e]))"
      by blast
    then show ?thesis by (intro exI [of _ "a # pre"] exI [of _ e] exI [of _ post]) simp
  qed
qed simp

lemma scan_high_stop:
  "scan_high need chime mids es = (v, m) \<Longrightarrow> v \<noteq> NaN \<Longrightarrow>
   \<exists>pre e post. es = pre @ e # post \<and> fst e = v \<and> need \<le> chime + sum_list (map snd (pre @ [e]))"
proof (induction es arbitrary: chime mids)
  case (Cons a es)
  show ?case
  proof (cases "chime + snd a \<ge> need")
    case True
    then show ?thesis using Cons.prems by (intro exI [of _ "[]"] exI [of _ a] exI [of _ es]) (auto simp: Let_def)
  next
    case False
    then have "scan_high need (chime + snd a) (if snd a = 0 then mids + 1 else mids) es = (v, m)"
      using Cons.prems by (simp add: Let_def)
    from Cons.IH [OF this Cons.prems(2)]
    obtain pre e post where "es = pre @ e # post" "fst e = v" "need \<le> (chime + snd a) + sum_list (map snd (pre @ [e]))"
      by blast
    then show ?thesis by (intro exI [of _ "a # pre"] exI [of _ e] exI [of _ post]) simp
  qed
qed simp

text \<open>Counts do not depend on the order of the edges.\<close>

lemma length_filter_mset: "mset xs = mset ys \<Longrightarrow> length (filter P xs) = length (filter P ys)"
  by (metis mset_filter size_mset)

definition low_edge :: "source_state \<Rightarrow> f64" where "low_edge s = ss_Current s - ss_Distance s"
definition high_edge :: "source_state \<Rightarrow> f64" where "high_edge s = ss_Current s + ss_Distance s"

lemma count_low_edges:
  "length (filter (\<lambda>e. snd e = -1 \<and> P (fst e)) (concat (map source_edges ss))) = length (filter (\<lambda>s. P (low_edge s)) ss)"
  by (induction ss) (auto simp: source_edges_def low_edge_def)

lemma count_high_edges:
  "length (filter (\<lambda>e. snd e = 1 \<and> P (fst e)) (concat (map source_edges ss))) = length (filter (\<lambda>s. P (high_edge s)) ss)"
  by (induction ss) (auto simp: source_edges_def high_edge_def)

definition covers :: "f64 \<Rightarrow> source_state \<Rightarrow> bool" where
  \<comment> \<open>the point is in the source's correctness interval\<close>
  "covers v s \<longleftrightarrow> low_edge s \<le> v \<and> v \<le> high_edge s"

definition proper :: "source_state \<Rightarrow> bool" where
  \<comment> \<open>the source's offset and distance are numbers\<close>
  "proper s \<longleftrightarrow> (\<exists>c d. ss_Current s = Fin c \<and> ss_Distance s = Fin d \<and> 0 \<le> d)"

lemma proper_edges: "proper s \<Longrightarrow> low_edge s \<le> high_edge s \<and> low_edge s \<noteq> NaN \<and> high_edge s \<noteq> NaN"
  by (auto simp: proper_def low_edge_def high_edge_def intro!: f64_of_real_mono)

lemma proper_edge_set: "\<forall>s \<in> set ss. proper s \<Longrightarrow> e \<in> set (concat (map source_edges ss)) \<Longrightarrow> fst e \<noteq> NaN \<and> snd e \<in> {-1, 0, 1}"
  using proper_edges by (fastforce simp: source_edges_def proper_def low_edge_def high_edge_def)

lemma count_covers_low:
  "\<forall>s \<in> set ss. proper s \<Longrightarrow> v \<noteq> NaN \<Longrightarrow>
   length (filter (\<lambda>s. low_edge s \<le> v) ss) = length (filter (covers v) ss) + length (filter (\<lambda>s. high_edge s < v) ss)"
proof (induction ss)
  case (Cons s ss)
  have p: "low_edge s \<le> high_edge s" "high_edge s \<noteq> NaN" using Cons.prems proper_edges by auto
  have "high_edge s < v \<Longrightarrow> low_edge s \<le> v" using p by (auto dest: f64_le_less_trans f64_less_imp_le)
  then show ?case using Cons p f64_not_less [of "high_edge s" v] by (auto simp: covers_def)
qed simp

lemma count_covers_high:
  "\<forall>s \<in> set ss. proper s \<Longrightarrow> v \<noteq> NaN \<Longrightarrow>
   length (filter (\<lambda>s. v \<le> high_edge s) ss) = length (filter (covers v) ss) + length (filter (\<lambda>s. v < low_edge s) ss)"
proof (induction ss)
  case (Cons s ss)
  have p: "low_edge s \<le> high_edge s" "low_edge s \<noteq> NaN" using Cons.prems proper_edges by auto
  have "v < low_edge s \<Longrightarrow> v \<le> high_edge s" using p by (auto dest: f64_less_le_trans f64_less_imp_le)
  then show ?case using Cons p f64_not_less [of v "low_edge s"] by (auto simp: covers_def)
qed simp

section \<open>The intersection\<close>

lemma length_filter_mono: "(\<And>x. x \<in> set xs \<Longrightarrow> P x \<Longrightarrow> Q x) \<Longrightarrow> length (filter P xs) \<le> length (filter Q xs)"
  by (induction xs) auto

lemma low_end_covered:
  assumes p: "\<forall>s \<in> set ss. proper s" and es: "es = go_sort edge_less (concat (map source_edges ss))"
    and scan: "scan_low need 0 m0 es = (v, m)" "v \<noteq> NaN"
  shows "need \<le> int (length (filter (covers v) ss))"
proof -
  obtain pre e post where sp: "es = pre @ e # post" "fst e = v" "need \<le> 0 - sum_list (map snd (pre @ [e]))"
    using scan_low_stop [OF scan] by blast
  have set_es: "set es = set (concat (map source_edges ss))" by (simp only: es set_go_sort)
  have ok: "fst x \<noteq> NaN \<and> snd x \<in> {-1, 0, 1}" if "x \<in> set es" for x using that proper_edge_set [OF p] set_es by blast
  have srt: "sorted_wrt (\<lambda>a b. \<not> edge_less b a) es"
    unfolding es using proper_edge_set [OF p] by (intro edge_order.go_sort_sorted) (auto simp: list_all_iff)
  have le: "fst x \<le> v" if "x \<in> set (pre @ [e])" for x
  proof (cases "x = e")
    case False
    then have "x \<in> set es" "e \<in> set es" "\<not> edge_less e x" using that srt sp(1) by (auto simp: sorted_wrt_append)
    then show ?thesis using not_edge_less_le [of e x] ok [of x] ok [of e] sp(2) by blast
  qed (use sp(2) scan(2) in simp)
  have ge: "v \<le> fst x" if "x \<in> set post" for x
  proof -
    have "x \<in> set es" "e \<in> set es" "\<not> edge_less x e" using that srt sp(1) by (auto simp: sorted_wrt_append)
    then show ?thesis using not_edge_less_le [of x e] ok [of x] ok [of e] sp(2) by blast
  qed
  have "edge_count (-1) (pre @ [e]) \<le> length (filter (\<lambda>x. snd x = -1 \<and> fst x \<le> v) (pre @ [e]))"
    unfolding edge_count_def using le by (intro length_filter_mono) auto
  also have "\<dots> \<le> length (filter (\<lambda>x. snd x = -1 \<and> fst x \<le> v) es)" by (simp add: sp(1))
  also have "\<dots> = length (filter (\<lambda>s. low_edge s \<le> v) ss)"
    by (subst count_low_edges [of "\<lambda>x. x \<le> v", symmetric]) (rule length_filter_mset, simp add: es)
  finally have lows: "edge_count (-1) (pre @ [e]) \<le> length (filter (\<lambda>s. low_edge s \<le> v) ss)" .
  have "length (filter (\<lambda>s. high_edge s < v) ss) = length (filter (\<lambda>x. snd x = 1 \<and> fst x < v) es)"
    by (subst count_high_edges [of "\<lambda>x. x < v", symmetric]) (rule length_filter_mset, simp add: es)
  also have "\<dots> = length (filter (\<lambda>x. snd x = 1 \<and> fst x < v) (pre @ [e]))"
    using ge f64_le_less_trans f64_less_irrefl by (fastforce simp: sp(1) filter_empty_conv)
  also have "\<dots> \<le> edge_count 1 (pre @ [e])" unfolding edge_count_def by (intro length_filter_mono) auto
  finally have highs: "length (filter (\<lambda>s. high_edge s < v) ss) \<le> edge_count 1 (pre @ [e])" .
  have "sum_list (map snd (pre @ [e])) = int (edge_count 1 (pre @ [e])) - int (edge_count (-1) (pre @ [e]))"
    using ok sp(1) by (intro sum_edges) auto
  with sp(3) lows highs count_covers_low [OF p scan(2)] show ?thesis by linarith
qed

lemma high_end_covered:
  assumes p: "\<forall>s \<in> set ss. proper s" and es: "es = go_sort edge_less (concat (map source_edges ss))"
    and scan: "scan_high need 0 m0 (rev es) = (v, m)" "v \<noteq> NaN"
  shows "need \<le> int (length (filter (covers v) ss))"
proof -
  obtain pre e post where sp: "rev es = pre @ e # post" "fst e = v" "need \<le> 0 + sum_list (map snd (pre @ [e]))"
    using scan_high_stop [OF scan] by blast
  have ms: "mset (rev es) = mset (concat (map source_edges ss))" by (simp add: es)
  then have set_es: "set (rev es) = set (concat (map source_edges ss))" by (metis set_mset_mset)
  have ok: "fst x \<noteq> NaN \<and> snd x \<in> {-1, 0, 1}" if "x \<in> set (rev es)" for x using that proper_edge_set [OF p] set_es by blast
  have "sorted_wrt (\<lambda>a b. \<not> edge_less b a) es"
    unfolding es using proper_edge_set [OF p] by (intro edge_order.go_sort_sorted) (auto simp: list_all_iff)
  then have srt: "sorted_wrt (\<lambda>a b. \<not> edge_less a b) (rev es)" by (simp add: sorted_wrt_rev)
  have ge: "v \<le> fst x" if "x \<in> set (pre @ [e])" for x
  proof (cases "x = e")
    case False
    then have "x \<in> set (rev es)" "e \<in> set (rev es)" "\<not> edge_less x e"
      using that srt unfolding sp(1) by (auto simp: sorted_wrt_append)
    then show ?thesis using not_edge_less_le [of x e] ok [of x] ok [of e] sp(2) by blast
  qed (use sp(2) scan(2) in simp)
  have le: "fst x \<le> v" if "x \<in> set post" for x
  proof -
    have "x \<in> set (rev es)" "e \<in> set (rev es)" "\<not> edge_less e x"
      using that srt unfolding sp(1) by (auto simp: sorted_wrt_append)
    then show ?thesis using not_edge_less_le [of e x] ok [of x] ok [of e] sp(2) by blast
  qed
  have "edge_count 1 (pre @ [e]) \<le> length (filter (\<lambda>x. snd x = 1 \<and> v \<le> fst x) (pre @ [e]))"
    unfolding edge_count_def using ge by (intro length_filter_mono) auto
  also have "\<dots> \<le> length (filter (\<lambda>x. snd x = 1 \<and> v \<le> fst x) (rev es))" by (simp add: sp(1))
  also have "\<dots> = length (filter (\<lambda>s. v \<le> high_edge s) ss)"
    by (subst count_high_edges [of "\<lambda>x. v \<le> x", symmetric]) (rule length_filter_mset, rule ms)
  finally have highs: "edge_count 1 (pre @ [e]) \<le> length (filter (\<lambda>s. v \<le> high_edge s) ss)" .
  have "length (filter (\<lambda>s. v < low_edge s) ss) = length (filter (\<lambda>x. snd x = -1 \<and> v < fst x) (rev es))"
    by (subst count_low_edges [of "\<lambda>x. v < x", symmetric]) (rule length_filter_mset, rule ms [symmetric])
  also have "\<dots> = length (filter (\<lambda>x. snd x = -1 \<and> v < fst x) (pre @ [e]))"
    using le f64_less_le_trans f64_less_irrefl by (fastforce simp: sp(1) filter_empty_conv)
  also have "\<dots> \<le> edge_count (-1) (pre @ [e])" unfolding edge_count_def by (intro length_filter_mono) auto
  finally have lows: "length (filter (\<lambda>s. v < low_edge s) ss) \<le> edge_count (-1) (pre @ [e])" .
  have "sum_list (map snd (pre @ [e])) = int (edge_count 1 (pre @ [e])) - int (edge_count (-1) (pre @ [e]))"
    using ok unfolding sp(1) by (intro sum_edges) auto
  with sp(3) lows highs count_covers_high [OF p scan(2)] show ?thesis by linarith
qed

lemma find_interval_covered:
  assumes p: "\<forall>s \<in> set ss. proper s" and es: "es = go_sort edge_less (concat (map source_edges ss))"
    and "find_interval (length ss) es allow = Some (low, high)"
  shows "low < high \<and> 2 * length (filter (covers low) ss) > length ss \<and> 2 * length (filter (covers high) ss) > length ss"
  using assms(3)
proof (induction "length ss - allow" arbitrary: allow rule: less_induct)
  case less
  have a: "2 * allow < length ss" using less.prems by (subst (asm) find_interval.simps) (auto split: if_splits)
  obtain lo m1 where lo: "scan_low (int (length ss) - int allow) 0 0 es = (lo, m1)" by force
  obtain hi m2 where hi: "scan_high (int (length ss) - int allow) 0 m1 (rev es) = (hi, m2)" by force
  have step: "find_interval (length ss) es allow =
      (if m2 \<le> allow \<and> lo < hi then Some (lo, hi) else find_interval (length ss) es (allow + 1))"
    by (subst find_interval.simps) (use a in \<open>auto simp: lo hi\<close>)
  show ?case
  proof (cases "m2 \<le> allow \<and> lo < hi")
    case True
    then have r: "low = lo" "high = hi" "lo \<noteq> NaN" "hi \<noteq> NaN" using less.prems step f64_less_not_NaN by auto
    then show ?thesis
      using low_end_covered [OF p es lo r(3)] high_end_covered [OF p es hi r(4)] True a by auto
  next
    case False
    then have "find_interval (length ss) es (allow + 1) = Some (low, high)"
      using less.prems unfolding step if_not_P [OF False] by blast
    then show ?thesis using less.hyps [of "allow + 1"] a by auto
  qed
qed

text \<open>The marks of a list of pointers.\<close>

lemma length_set_status [simp]: "length (set_status st ps ss) = length ss"
  unfolding set_status_def by (induction ps arbitrary: ss) auto

lemma set_status_nth:
  "\<forall>p \<in> set ps. p < length ss \<Longrightarrow> i < length ss \<Longrightarrow>
   set_status st ps ss ! i = (if i \<in> set ps then (ss ! i)\<lparr>ss_Status := st\<rparr> else ss ! i)"
proof (induction ps arbitrary: ss)
  case (Cons p ps)
  have "set_status st (p # ps) ss = set_status st ps (ss[p := (ss ! p)\<lparr>ss_Status := st\<rparr>])"
    by (simp add: set_status_def)
  then show ?case using Cons by (auto simp: nth_list_update)
qed (simp add: set_status_def)

definition unmarked :: "source_state \<Rightarrow> source_state" where
  \<comment> \<open>a state up to its mark\<close>
  "unmarked s = s\<lparr>ss_Status := StatusUnreachable\<rparr>"

lemma unmarked_set_status: "\<forall>p \<in> set ps. p < length ss \<Longrightarrow> map unmarked (set_status st ps ss) = map unmarked ss"
  by (rule nth_equalityI) (auto simp: set_status_nth unmarked_def)

lemma intersect_cases:
  assumes "intersect ss c = (ss', surv, (low, high))"
  obtains (empty) "c = []" "ss' = ss" "surv = []"
  | (none) "c \<noteq> []" "ss' = set_status StatusFalseticker c ss" "surv = []"
  | (found) "c \<noteq> []" "find_interval (length c) (go_sort edge_less (concat (map (\<lambda>i. source_edges (ss ! i)) c))) 0 = Some (low, high)"
      "ss' = set_status StatusFalseticker (filter (\<lambda>i. outside low high (ss ! i)) c) ss"
      "surv = filter (\<lambda>i. \<not> outside low high (ss ! i)) c"
  using assms unfolding intersect_def Let_def by (auto split: if_splits option.splits)

lemma intersect_majority:
  assumes "intersect ss c = (ss', surv, (low, high))" "surv \<noteq> []" "\<forall>i \<in> set c. proper (ss ! i)"
  shows "low < high \<and> 2 * length surv > length c \<and>
    2 * length (filter (\<lambda>i. covers low (ss ! i)) c) > length c \<and>
    2 * length (filter (\<lambda>i. covers high (ss ! i)) c) > length c"
  using assms(1)
proof (cases rule: intersect_cases)
  case found
  let ?xs = "map (\<lambda>i. ss ! i) c"
  have p: "\<forall>s \<in> set ?xs. proper s" using assms(3) by simp
  have e: "map (\<lambda>i. source_edges (ss ! i)) c = map source_edges ?xs" by simp
  have cov: "low < high" "2 * length (filter (covers low) ?xs) > length ?xs" "2 * length (filter (covers high) ?xs) > length ?xs"
    using find_interval_covered [OF p refl, of 0 low high] found(2) unfolding e by auto
  have keep: "\<not> outside low high (ss ! i)" if "covers low (ss ! i)" for i
  proof -
    have "low_edge (ss ! i) \<le> low" "low \<le> high_edge (ss ! i)" using that by (auto simp: covers_def)
    then have "low_edge (ss ! i) < high" "\<not> high_edge (ss ! i) < low" using cov(1)
      by (auto dest: f64_le_less_trans)
    then show ?thesis by (auto simp: outside_def low_edge_def high_edge_def dest: f64_less_asym)
  qed
  have "length (filter (\<lambda>i. covers low (ss ! i)) c) \<le> length surv"
    unfolding found(4) by (rule length_filter_mono) (rule keep)
  with cov show ?thesis by (simp add: filter_map comp_def)
qed (use assms(2) in simp_all)

section \<open>Clustering\<close>

lemma drop_nth:
  "k < length xs \<Longrightarrow> distinct xs \<Longrightarrow>
   distinct (take k xs @ drop (Suc k) xs) \<and> set (take k xs @ drop (Suc k) xs) = set xs - {xs ! k} \<and>
   subseq (take k xs @ drop (Suc k) xs) xs \<and> length (take k xs @ drop (Suc k) xs) = length xs - 1"
proof -
  assume k: "k < length xs" and d: "distinct xs"
  have e: "xs = take k xs @ xs ! k # drop (Suc k) xs" using k by (rule id_take_nth_drop)
  then have "distinct (take k xs @ xs ! k # drop (Suc k) xs)" using d by simp
  moreover have "set xs = set (take k xs) \<union> insert (xs ! k) (set (drop (Suc k) xs))"
    by (subst e) (simp only: set_append list.set)
  moreover have "subseq (take k xs @ drop (Suc k) xs) xs"
    by (subst (3) e) (intro list_emb_append_mono subseq_order.refl list_emb_Cons)
  ultimately show ?thesis using k by auto
qed

lemma subseq_subset: "subseq xs ys \<Longrightarrow> set xs \<subseteq> set ys"
  by (induction rule: list_emb.induct) auto

lemma distinct_subseq: "subseq xs ys \<Longrightarrow> distinct ys \<Longrightarrow> distinct xs"
  by (induction rule: list_emb.induct) (auto dest: subseq_subset)

lemma cluster_stop:
  "cluster_scan ss surv = (mi, ms, mj) \<Longrightarrow> \<not> (length surv > ClusterMin \<and> \<not> ms < mj) \<Longrightarrow>
   cluster ss surv = Some (ss, surv)"
  by (subst cluster.simps) auto

lemma cluster_step:
  "cluster_scan ss surv = (mi, ms, mj) \<Longrightarrow> length surv > ClusterMin \<and> \<not> ms < mj \<Longrightarrow>
   cluster ss surv = (case mi of None \<Rightarrow> None
     | Some k \<Rightarrow> cluster (set_status StatusOutlier [surv ! k] ss) (take k surv @ drop (Suc k) surv))"
  by (subst cluster.simps) auto

lemma cluster_sound:
  "cluster ss surv = Some (ss', surv') \<Longrightarrow> distinct surv \<Longrightarrow> \<forall>p \<in> set surv. p < length ss \<Longrightarrow>
   subseq surv' surv \<and> min ClusterMin (length surv) \<le> length surv' \<and> length ss' = length ss \<and>
   (\<forall>i < length ss. ss' ! i = (if i \<in> set surv \<and> i \<notin> set surv' then (ss ! i)\<lparr>ss_Status := StatusOutlier\<rparr> else ss ! i))"
proof (induction "length surv" arbitrary: ss surv rule: less_induct)
  case (less surv ss)
  obtain mi ms mj where scan: "cluster_scan ss surv = (mi, ms, mj)" using prod_cases3 by blast
  show ?case
  proof (cases "length surv > 3 \<and> \<not> ms < mj")
    case False
    then have "ss' = ss" "surv' = surv" using less.prems(1) cluster_stop [OF scan] by auto
    then show ?thesis by simp
  next
    case True
    then obtain k where k: "mi = Some k" and rec: "cluster (set_status StatusOutlier [surv ! k] ss) (take k surv @ drop (Suc k) surv) = Some (ss', surv')"
      using less.prems(1) unfolding cluster_step [OF scan True] by (auto split: option.splits)
    have kl: "k < length surv" using cluster_scan_index scan k by blast
    note dn = drop_nth [OF kl less.prems(2)]
    let ?ss = "set_status StatusOutlier [surv ! k] ss" and ?sv = "take k surv @ drop (Suc k) surv"
    have shorter: "length ?sv < length surv" and dist: "distinct ?sv" using dn kl by (linarith, blast)
    have in_range: "\<forall>p \<in> set ?sv. p < length ?ss" using dn less.prems(3) by auto
    have ih: "subseq surv' ?sv \<and> min 3 (length ?sv) \<le> length surv' \<and> length ss' = length ?ss \<and>
       (\<forall>i < length ?ss. ss' ! i = (if i \<in> set ?sv \<and> i \<notin> set surv' then (?ss ! i)\<lparr>ss_Status := StatusOutlier\<rparr> else ?ss ! i))"
      by (rule less.hyps [OF shorter rec dist in_range])
    then have ih': "subseq surv' ?sv" "min 3 (length ?sv) \<le> length surv'" "length ss' = length ss"
      and mk: "\<And>i. i < length ss \<Longrightarrow> ss' ! i = (if i \<in> set ?sv \<and> i \<notin> set surv' then (?ss ! i)\<lparr>ss_Status := StatusOutlier\<rparr> else ?ss ! i)"
      by simp_all
    have sv: "set ?sv = set surv - {surv ! k}" "subseq ?sv surv" "length ?sv = length surv - 1" using dn by blast+
    have sub: "set surv' \<subseteq> set ?sv" using ih'(1) by (rule subseq_subset)
    have kin: "surv ! k \<in> set surv" "surv ! k < length ss" using kl less.prems(3) by auto
    have mark: "?ss ! i = (if i = surv ! k then (ss ! i)\<lparr>ss_Status := StatusOutlier\<rparr> else ss ! i)" if "i < length ss" for i
      using set_status_nth [of "[surv ! k]" ss i StatusOutlier] that kin(2) by simp
    have "subseq surv' surv" using ih'(1) sv(2) by (rule subseq_order.trans)
    moreover have "min 3 (length surv) \<le> length surv'" using ih'(2) sv(3) True by linarith
    moreover have "ss' ! i = (if i \<in> set surv \<and> i \<notin> set surv' then (ss ! i)\<lparr>ss_Status := StatusOutlier\<rparr> else ss ! i)"
      if "i < length ss" for i
    proof (cases "i = surv ! k")
      case True
      then have "i \<in> set surv" "i \<notin> set surv'" "i \<notin> set ?sv" using sub kin(1) sv(1) by blast+
      then show ?thesis using mk [OF that] mark [OF that] True by simp
    next
      case False
      then have "i \<in> set ?sv \<longleftrightarrow> i \<in> set surv" using sv(1) by blast
      then show ?thesis using mk [OF that] mark [OF that] False by simp
    qed
    ultimately show ?thesis using ih'(3) by blast
  qed
qed

lemma cluster_scan_none:
  assumes "\<forall>p \<in> set surv. Fin 0 \<le> ss_Jitter (ss ! p)" "cluster_scan ss surv = (None, ms, mj)"
  shows "ms < mj"
proof -
  have "case cluster_scan ss surv of (mi, ms, mj) \<Rightarrow> Fin 0 \<le> mj \<and> (mi = None \<longrightarrow> ms = Fin (- 1))"
    unfolding cluster_scan_def
    by (rule foldl_invariant) (use assms(1) in \<open>auto simp: cluster_round_def Let_def\<close>)
  with assms(2) show ?thesis using f64_less_le_trans [of "Fin (- 1)" "Fin 0" mj] by simp
qed

lemma cluster_total:
  "\<forall>p \<in> set surv. p < length ss \<and> Fin 0 \<le> ss_Jitter (ss ! p) \<Longrightarrow> distinct surv \<Longrightarrow> cluster ss surv \<noteq> None"
proof (induction "length surv" arbitrary: ss surv rule: less_induct)
  case (less surv ss)
  obtain mi ms mj where scan: "cluster_scan ss surv = (mi, ms, mj)" using prod_cases3 by blast
  show ?case
  proof (cases "length surv > 3 \<and> \<not> ms < mj")
    case False
    then show ?thesis using cluster_stop [OF scan] by blast
  next
    case True
    then obtain k where k: "mi = Some k" using cluster_scan_none [of surv ss ms mj] scan less.prems(1) by (cases mi) auto
    have kl: "k < length surv" using cluster_scan_index scan k by blast
    note dn = drop_nth [OF kl less.prems(2)]
    have "\<forall>p \<in> set (take k surv @ drop (Suc k) surv). p < length (set_status StatusOutlier [surv ! k] ss) \<and>
        Fin 0 \<le> ss_Jitter (set_status StatusOutlier [surv ! k] ss ! p)"
      using less.prems(1) kl dn set_status_nth [of "[surv ! k]" ss] by auto
    moreover have "length (take k surv @ drop (Suc k) surv) < length surv" "distinct (take k surv @ drop (Suc k) surv)"
      using dn kl by (linarith, blast)
    ultimately have "cluster (set_status StatusOutlier [surv ! k] ss) (take k surv @ drop (Suc k) surv) \<noteq> None"
      using less.hyps by blast
    then show ?thesis unfolding cluster_step [OF scan True] by (simp add: k)
  qed
qed

section \<open>Preparation\<close>

definition eligible :: "refid list \<Rightarrow> source_state \<Rightarrow> bool" where
  \<comment> \<open>fit to be used for synchronization\<close>
  "eligible local s \<longleftrightarrow> ss_Reach s \<noteq> 0 \<and> \<not> ss_NoSelect s \<and> \<not> ss_stale s \<and> ss_Valid s \<and> ss_Leap s \<noteq> LeapUnsync \<and>
     ss_Stratum s < 16 \<and> \<not> ss_Distance s \<ge> MaxDistance \<and> \<not> timingLoop s local"

definition core :: "source_state \<Rightarrow> source_state" where
  \<comment> \<open>what the marking leaves alone\<close>
  "core s = s\<lparr>ss_Status := StatusUnreachable, ss_DisagreesWith := [], ss_Disagreement := Fin 0, ss_everSurvived := False\<rparr>"

lemma core_sel [simp]:
  "ss_Name (core s) = ss_Name s" "ss_Options (core s) = ss_Options s" "ss_Reach (core s) = ss_Reach s"
  "ss_Poll (core s) = ss_Poll s" "ss_Valid (core s) = ss_Valid s" "ss_At (core s) = ss_At s"
  "ss_Updated (core s) = ss_Updated s" "ss_Offset (core s) = ss_Offset s" "ss_Delay (core s) = ss_Delay s"
  "ss_Dispersion (core s) = ss_Dispersion s" "ss_Jitter (core s) = ss_Jitter s" "ss_Leap (core s) = ss_Leap s"
  "ss_Stratum (core s) = ss_Stratum s" "ss_RefID (core s) = ss_RefID s" "ss_SourceRefID (core s) = ss_SourceRefID s"
  "ss_RootDelay (core s) = ss_RootDelay s" "ss_RootDisp (core s) = ss_RootDisp s" "ss_Distance (core s) = ss_Distance s"
  "ss_Current (core s) = ss_Current s" "ss_usedAt (core s) = ss_usedAt s" "ss_stale (core s) = ss_stale s"
  "ss_sinceStep (core s) = ss_sinceStep s" "ss_inLoop (core s) = ss_inLoop s"
  "ss_LiveLeap (core s) = ss_LiveLeap s" "ss_LeapUpdated (core s) = ss_LeapUpdated s" "ss_LeapKnown (core s) = ss_LeapKnown s"
  by (simp_all add: core_def)

lemma core_eq_sel:
  assumes "core s = core t"
  shows "ss_Name s = ss_Name t" "ss_Options s = ss_Options t" "ss_Current s = ss_Current t" "ss_Distance s = ss_Distance t"
    "ss_Jitter s = ss_Jitter t" "RootDistance s now = RootDistance t now" "eligible local s = eligible local t"
    "synch s = synch t" "ss_Stratum s = ss_Stratum t" "ss_At s = ss_At t" "ss_usedAt s = ss_usedAt t"
    "ss_sinceStep s = ss_sinceStep t" "ss_Valid s = ss_Valid t"
proof -
  have *: "RootDistance (core u) now = RootDistance u now" "eligible local (core u) = eligible local u"
    "synch (core u) = synch u" for u
    by (simp_all add: RootDistance_def eligible_def synch_def timingLoop_def)
  show "RootDistance s now = RootDistance t now" using arg_cong [OF assms, of "\<lambda>u. RootDistance u now"] by (simp only: *)
  show "eligible local s = eligible local t" using arg_cong [OF assms, of "eligible local"] by (simp only: *)
  show "synch s = synch t" using arg_cong [OF assms, of synch] by (simp only: *)
  show "ss_Name s = ss_Name t" using arg_cong [OF assms, of ss_Name] by simp
  show "ss_Options s = ss_Options t" using arg_cong [OF assms, of ss_Options] by simp
  show "ss_Current s = ss_Current t" using arg_cong [OF assms, of ss_Current] by simp
  show "ss_Distance s = ss_Distance t" using arg_cong [OF assms, of ss_Distance] by simp
  show "ss_Jitter s = ss_Jitter t" using arg_cong [OF assms, of ss_Jitter] by simp
  show "ss_Stratum s = ss_Stratum t" using arg_cong [OF assms, of ss_Stratum] by simp
  show "ss_At s = ss_At t" using arg_cong [OF assms, of ss_At] by simp
  show "ss_usedAt s = ss_usedAt t" using arg_cong [OF assms, of ss_usedAt] by simp
  show "ss_sinceStep s = ss_sinceStep t" using arg_cong [OF assms, of ss_sinceStep] by simp
  show "ss_Valid s = ss_Valid t" using arg_cong [OF assms, of ss_Valid] by simp
qed

lemma core_update [simp]:
  "core (s\<lparr>ss_Status := st\<rparr>) = core s" "core (s\<lparr>ss_DisagreesWith := w\<rparr>) = core s"
  "core (s\<lparr>ss_Disagreement := d\<rparr>) = core s" "core (s\<lparr>ss_everSurvived := b\<rparr>) = core s"
  by (simp_all add: core_def)

lemma candidate_cases:
  assumes "candidate s = (ok, st)"
  shows "ok \<longleftrightarrow> ss_Reach s \<noteq> 0 \<and> \<not> ss_NoSelect s \<and> \<not> ss_stale s \<and> ss_Valid s \<and> ss_Leap s \<noteq> LeapUnsync \<and>
      ss_Stratum s < 16 \<and> \<not> ss_Distance s \<ge> MaxDistance"
    and "if ok then st = StatusSurvivor else st \<in> {StatusUnreachable, StatusNoSelect, StatusInvalid}"
  using assms by (auto simp: candidate_def not_le split: if_splits)

lemma refresh_source_sel:
  "ss_Distance (refresh_source opts now s) = RootDistance (refresh_source opts now s) now"
  "ss_Jitter (refresh_source opts now s) = ss_Jitter s" "ss_Options (refresh_source opts now s) = ss_Options s"
  "ss_Name (refresh_source opts now s) = ss_Name s" "ss_usedAt (refresh_source opts now s) = ss_usedAt s"
  "ss_At (refresh_source opts now s) = ss_At s" "ss_Valid (refresh_source opts now s) = ss_Valid s"
  by (simp_all add: refresh_source_def Let_def RootDistance_def)

lemma timingLoop_marked: "timingLoop (s\<lparr>ss_inLoop := b, ss_Status := st\<rparr>) local = timingLoop s local"
  by (simp add: timingLoop_def)

lemma prepare_source_sound:
  assumes "prepare_source opts now s = (s', ok, evs)"
  shows "ok \<Longrightarrow> eligible (so_LocalRefIDs opts) s'"
    and "ok \<Longrightarrow> ss_Status s' = (if ss_PPS s' then StatusUnqualified else StatusSurvivor)"
    and "\<not> ok \<Longrightarrow> ss_Status s' \<in> {StatusUnreachable, StatusNoSelect, StatusInvalid}"
    and "\<exists>b st. s' = (refresh_source opts now s)\<lparr>ss_inLoop := b, ss_Status := st\<rparr>"
proof -
  let ?r = "refresh_source opts now s"
  obtain ok0 st where c: "candidate ?r = (ok0, st)" by force
  consider (looping) "ok0" "timingLoop ?r (so_LocalRefIDs opts)" "\<not> ok" "s' = ?r\<lparr>ss_inLoop := True, ss_Status := StatusInvalid\<rparr>"
    | (fine) "ok = ok0" "\<not> (ok0 \<and> timingLoop ?r (so_LocalRefIDs opts))"
        "s' = ?r\<lparr>ss_inLoop := False, ss_Status := (if ok0 \<and> ss_PPS ?r then StatusUnqualified else st)\<rparr>"
    using assms by (auto simp: prepare_source_def Let_def c split: if_splits)
  note cases = this
  show "ok \<Longrightarrow> eligible (so_LocalRefIDs opts) s'"
    using cases by cases (use candidate_cases(1) [OF c] in \<open>simp_all add: eligible_def timingLoop_marked\<close>)
  show "ok \<Longrightarrow> ss_Status s' = (if ss_PPS s' then StatusUnqualified else StatusSurvivor)"
    using cases by cases (use candidate_cases(2) [OF c] in simp_all)
  show "\<not> ok \<Longrightarrow> ss_Status s' \<in> {StatusUnreachable, StatusNoSelect, StatusInvalid}"
    using cases by cases (use candidate_cases(2) [OF c] in simp_all)
  show "\<exists>b st. s' = ?r\<lparr>ss_inLoop := b, ss_Status := st\<rparr>"
    using cases by cases blast+
qed

section \<open>From candidates to survivors\<close>

lemma ppsAgreement_from_agrees:
  "snd (snd (ppsAgreement_from closest name p ns now)) \<Longrightarrow>
   \<exists>n \<in> set ns. \<bar>ss_Current n - ss_Current p\<bar> \<le> RootDistance n now + fmax (Fin 4 * ss_Jitter n) ppsAgreementFloor"
  by (induction ns arbitrary: closest name) (auto simp: Let_def split: if_splits)

definition agrees :: "source_state list \<Rightarrow> f64 \<Rightarrow> source_state \<Rightarrow> bool" where
  "agrees numbering now p = snd (snd (ppsAgreement p numbering now))"

lemma qualify_pps_step:
  "qualify_pps nb now (ss, sv) p =
     (ss[p := (ss ! p)\<lparr>ss_DisagreesWith := fst (ppsAgreement (ss ! p) nb now),
                       ss_Disagreement := fst (snd (ppsAgreement (ss ! p) nb now)),
                       ss_Status := (if agrees nb now (ss ! p) then StatusSurvivor else StatusFalseticker)\<rparr>],
      if agrees nb now (ss ! p) then sv @ [p] else sv)"
  by (simp add: qualify_pps_def Let_def agrees_def split_beta)

lemma qualify_pps_all:
  "distinct ps \<Longrightarrow> \<forall>p \<in> set ps. p < length ss \<Longrightarrow> foldl (qualify_pps nb now) (ss, sv) ps = (ss', sv') \<Longrightarrow>
   length ss' = length ss \<and> sv' = sv @ filter (\<lambda>p. agrees nb now (ss ! p)) ps \<and>
   (\<forall>i < length ss. core (ss' ! i) = core (ss ! i) \<and>
      (if i \<in> set ps then ss_Status (ss' ! i) = (if agrees nb now (ss ! i) then StatusSurvivor else StatusFalseticker)
       else ss' ! i = ss ! i))"
proof (induction ps arbitrary: ss sv)
  case (Cons p ps)
  let ?s = "ss[p := (ss ! p)\<lparr>ss_DisagreesWith := fst (ppsAgreement (ss ! p) nb now),
                       ss_Disagreement := fst (snd (ppsAgreement (ss ! p) nb now)),
                       ss_Status := (if agrees nb now (ss ! p) then StatusSurvivor else StatusFalseticker)\<rparr>]"
  let ?v = "if agrees nb now (ss ! p) then sv @ [p] else sv"
  have rest: "foldl (qualify_pps nb now) (?s, ?v) ps = (ss', sv')" using Cons.prems(3) by (simp add: qualify_pps_step)
  have p: "p < length ss" "p \<notin> set ps" "distinct ps" "\<forall>q \<in> set ps. q < length ?s" using Cons.prems by auto
  have same: "?s ! i = ss ! i" if "i \<noteq> p" for i using that by simp
  have at: "?s ! p = (ss ! p)\<lparr>ss_DisagreesWith := fst (ppsAgreement (ss ! p) nb now),
                       ss_Disagreement := fst (snd (ppsAgreement (ss ! p) nb now)),
                       ss_Status := (if agrees nb now (ss ! p) then StatusSurvivor else StatusFalseticker)\<rparr>"
    using p(1) by simp
  note ih = Cons.IH [OF p(3,4) rest]
  have "filter (\<lambda>q. agrees nb now (?s ! q)) ps = filter (\<lambda>q. agrees nb now (ss ! q)) ps"
  proof (rule filter_cong [OF refl])
    fix q assume "q \<in> set ps"
    then have "q \<noteq> p" using p(2) by blast
    then show "agrees nb now (?s ! q) = agrees nb now (ss ! q)" unfolding same [OF \<open>q \<noteq> p\<close>] by simp
  qed
  then have "sv' = sv @ filter (\<lambda>q. agrees nb now (ss ! q)) (p # ps)" using ih by simp
  moreover have "core (ss' ! i) = core (ss ! i) \<and>
      (if i \<in> set (p # ps) then ss_Status (ss' ! i) = (if agrees nb now (ss ! i) then StatusSurvivor else StatusFalseticker)
       else ss' ! i = ss ! i)" if "i < length ss" for i
  proof (cases "i = p")
    case True
    then have "ss' ! i = ?s ! p" using ih that p(2) by simp
    then show ?thesis unfolding at using True by simp
  next
    case False
    then show ?thesis using ih that same [OF False] by simp
  qed
  ultimately show ?case using ih by simp
qed simp

lemma mark_survivors:
  "\<forall>p \<in> set ps. p < length ss \<Longrightarrow>
   length (foldl (\<lambda>ss i. ss[i := (ss ! i)\<lparr>ss_Status := StatusSurvivor, ss_everSurvived := True\<rparr>]) ss ps) = length ss \<and>
   (\<forall>i < length ss. foldl (\<lambda>ss i. ss[i := (ss ! i)\<lparr>ss_Status := StatusSurvivor, ss_everSurvived := True\<rparr>]) ss ps ! i =
      (if i \<in> set ps then (ss ! i)\<lparr>ss_Status := StatusSurvivor, ss_everSurvived := True\<rparr> else ss ! i))"
proof (induction ps arbitrary: ss)
  case (Cons p ps)
  let ?s = "ss[p := (ss ! p)\<lparr>ss_Status := StatusSurvivor, ss_everSurvived := True\<rparr>]"
  have r: "\<forall>q \<in> set ps. q < length ?s" "p < length ss" using Cons.prems by auto
  note ih = Cons.IH [OF r(1)]
  show ?case
  proof (intro conjI allI impI)
    fix i assume i: "i < length ss"
    show "foldl (\<lambda>ss i. ss[i := (ss ! i)\<lparr>ss_Status := StatusSurvivor, ss_everSurvived := True\<rparr>]) ss (p # ps) ! i =
      (if i \<in> set (p # ps) then (ss ! i)\<lparr>ss_Status := StatusSurvivor, ss_everSurvived := True\<rparr> else ss ! i)"
      using ih i r(2) by (cases "i = p") simp_all
  qed (use ih in simp)
qed simp

definition vouches :: "f64 \<Rightarrow> source_state \<Rightarrow> source_state \<Rightarrow> bool" where
  \<comment> \<open>a numbering source that knows the second and agrees with the PPS source\<close>
  "vouches now n p \<longleftrightarrow> ss_Numbering n \<and> \<not> ss_PPS n \<and> \<bar>ss_Current n\<bar> < PPSGuard \<and>
     \<bar>ss_Current n - ss_Current p\<bar> \<le> RootDistance n now + fmax (Fin 4 * ss_Jitter n) ppsAgreementFloor"

lemma intersect_sound:
  assumes "intersect ss c = (ss', surv, iv)" "\<forall>i \<in> set c. i < length ss"
  shows "subseq surv c \<and> length ss' = length ss \<and>
    (\<forall>i < length ss. ss' ! i = (if i \<in> set c \<and> i \<notin> set surv then (ss ! i)\<lparr>ss_Status := StatusFalseticker\<rparr> else ss ! i))"
proof -
  obtain low high where iv: "iv = (low, high)" by force
  from assms(1) [unfolded iv] show ?thesis
  proof (cases rule: intersect_cases)
    case none
    then show ?thesis using set_status_nth [of c ss] assms(2) by simp
  next
    case found
    have "\<forall>p \<in> set (filter (\<lambda>i. outside low high (ss ! i)) c). p < length ss" using assms(2) by simp
    from set_status_nth [OF this] show ?thesis unfolding found(3,4) by (simp add: subseq_filter)
  qed simp
qed

lemma pps_round_sound:
  assumes "(s4, v4) = (if q then foldl (qualify_pps nb now) (s3, v3) pps else (s3, v3))"
    and "distinct pps" "\<forall>p \<in> set pps. p < length s3"
  shows "length s4 = length s3 \<and> v4 = v3 @ filter (\<lambda>p. q \<and> agrees nb now (s3 ! p)) pps \<and>
    (\<forall>i < length s3. core (s4 ! i) = core (s3 ! i) \<and>
      ss_Status (s4 ! i) = (if i \<in> set pps \<and> q then (if agrees nb now (s3 ! i) then StatusSurvivor else StatusFalseticker)
        else ss_Status (s3 ! i)))"
proof (cases q)
  case True
  then have "foldl (qualify_pps nb now) (s3, v3) pps = (s4, v4)" using assms(1) by simp
  from qualify_pps_all [OF assms(2,3) this] show ?thesis using True by (auto split: if_splits)
next
  case False
  then show ?thesis using assms(1) by simp
qed

lemma select_survivors_steps:
  assumes "select_survivors ss cands pps now = Some (ss', surv, q, iv)"
  obtains s2 v2 iv2 s3 v3 nb s4 v4 where "intersect ss cands = (s2, v2, iv2)" "cluster s2 v2 = Some (s3, v3)"
    "nb = map (\<lambda>i. s3 ! i) (filter (\<lambda>i. ss_Numbering (s3 ! i) \<and> \<bar>ss_Current (s3 ! i)\<bar> < PPSGuard) v3)" "q = (nb \<noteq> [])"
    "(s4, v4) = (if q then foldl (qualify_pps nb now) (s3, v3) pps else (s3, v3))"
    "surv = go_sort (\<lambda>i j. synch (s4 ! i) < synch (s4 ! j)) v4"
    "ss' = foldl (\<lambda>ss i. ss[i := (ss ! i)\<lparr>ss_Status := StatusSurvivor, ss_everSurvived := True\<rparr>]) s4 surv" "iv = iv2"
proof -
  obtain s2 v2 iv2 where i2: "intersect ss cands = (s2, v2, iv2)" using prod_cases3 by blast
  obtain s3 v3 where c3: "cluster s2 v2 = Some (s3, v3)"
    using assms i2 by (auto simp: select_survivors_def Let_def split: option.splits)
  define nb where "nb = map (\<lambda>i. s3 ! i) (filter (\<lambda>i. ss_Numbering (s3 ! i) \<and> \<bar>ss_Current (s3 ! i)\<bar> < PPSGuard) v3)"
  obtain s4 v4 where p4: "(s4, v4) = (if nb \<noteq> [] then foldl (qualify_pps nb now) (s3, v3) pps else (s3, v3))"
    by (metis surj_pair)
  let ?sv = "go_sort (\<lambda>i j. synch (s4 ! i) < synch (s4 ! j)) v4"
  have "select_survivors ss cands pps now =
      Some (foldl (\<lambda>ss i. ss[i := (ss ! i)\<lparr>ss_Status := StatusSurvivor, ss_everSurvived := True\<rparr>]) s4 ?sv, ?sv, nb \<noteq> [], iv2)"
    unfolding select_survivors_def Let_def i2 prod.case c3 option.case nb_def [symmetric] p4 [symmetric] by (rule refl)
  with assms show thesis using that [OF i2 c3 nb_def] p4 by auto
qed

lemma select_survivors_sound:
  assumes sel: "select_survivors ss cands pps now = Some (ss', surv, q, iv)"
    and d: "distinct cands" "distinct pps" "set cands \<inter> set pps = {}"
    and r: "\<forall>i \<in> set cands. i < length ss" "\<forall>i \<in> set pps. i < length ss"
    and np: "\<forall>i \<in> set cands. \<not> ss_PPS (ss ! i)"
  shows "length ss' = length ss \<and> distinct surv \<and> set surv \<subseteq> set cands \<union> set pps \<and>
    (\<forall>i < length ss. core (ss' ! i) = core (ss ! i)) \<and>
    (\<forall>p \<in> set surv \<inter> set pps. q \<and> (\<exists>n \<in> set surv. vouches now (ss' ! n) (ss' ! p))) \<and>
    (\<forall>i < length ss. (i \<in> set surv \<longrightarrow> ss_Status (ss' ! i) = StatusSurvivor) \<and>
       (i \<notin> set surv \<longrightarrow> (if i \<in> set cands then ss_Status (ss' ! i) \<in> {StatusFalseticker, StatusOutlier}
          else ss_Status (ss' ! i) \<in> {ss_Status (ss ! i), StatusFalseticker})))"
  using sel
proof (rule select_survivors_steps)
  fix s2 v2 iv2 s3 v3 nb s4 v4
  assume i2: "intersect ss cands = (s2, v2, iv2)" and c3: "cluster s2 v2 = Some (s3, v3)"
    and nb: "nb = map (\<lambda>i. s3 ! i) (filter (\<lambda>i. ss_Numbering (s3 ! i) \<and> \<bar>ss_Current (s3 ! i)\<bar> < PPSGuard) v3)"
    and q: "q = (nb \<noteq> [])" and p4: "(s4, v4) = (if q then foldl (qualify_pps nb now) (s3, v3) pps else (s3, v3))"
    and surv: "surv = go_sort (\<lambda>i j. synch (s4 ! i) < synch (s4 ! j)) v4"
    and mk: "ss' = foldl (\<lambda>ss i. ss[i := (ss ! i)\<lparr>ss_Status := StatusSurvivor, ss_everSurvived := True\<rparr>]) s4 surv"
  note I = intersect_sound [OF i2 r(1)]
  have v2: "distinct v2" "set v2 \<subseteq> set cands" "length s2 = length ss" "\<forall>p \<in> set v2. p < length s2"
    using I subseq_subset [of v2 cands] distinct_subseq [of v2 cands] r(1) d(1) by auto
  note C = cluster_sound [OF c3 v2(1,4)]
  have v3: "distinct v3" "set v3 \<subseteq> set v2" "length s3 = length ss"
    using C subseq_subset [of v3 v2] distinct_subseq [of v3 v2] v2 by auto
  have s3: "core (s3 ! i) = core (ss ! i)"
    "ss_Status (s3 ! i) = (if i \<in> set v2 \<and> i \<notin> set v3 then StatusOutlier else if i \<in> set cands \<and> i \<notin> set v2 then StatusFalseticker else ss_Status (ss ! i))"
    if "i < length ss" for i using C I that v2(3) by auto
  note P = pps_round_sound [OF p4 d(2)]
  have P': "length s4 = length ss" "v4 = v3 @ filter (\<lambda>p. q \<and> agrees nb now (s3 ! p)) pps"
    "\<And>i. i < length ss \<Longrightarrow> core (s4 ! i) = core (ss ! i)"
    "\<And>i. i < length ss \<Longrightarrow> ss_Status (s4 ! i) = (if i \<in> set pps \<and> q then (if agrees nb now (s3 ! i) then StatusSurvivor else StatusFalseticker)
        else ss_Status (s3 ! i))" using P r(2) v3(3) s3(1) by auto
  have sv: "set surv = set v4" "distinct surv" using P'(2) v3 v2(2) d unfolding surv by auto
  have rng: "\<forall>p \<in> set surv. p < length s4" using sv(1) P'(1,2) v3 v2 r by auto
  note M = mark_survivors [OF rng, folded mk]
  have core': "core (ss' ! i) = core (ss ! i)" if "i < length ss" for i using M P'(1,3) that by auto
  have vouch: "q \<and> (\<exists>n \<in> set surv. vouches now (ss' ! n) (ss' ! p))" if p: "p \<in> set surv" "p \<in> set pps" for p
  proof -
    have "p \<notin> set v3" using p(2) v3(2) v2(2) d(3) by blast
    then have ag: "q" "agrees nb now (s3 ! p)" using p(1) sv(1) P'(2) by auto
    then obtain n where n: "n \<in> set v3" "ss_Numbering (s3 ! n)" "\<bar>ss_Current (s3 ! n)\<bar> < PPSGuard"
      "\<bar>ss_Current (s3 ! n) - ss_Current (s3 ! p)\<bar> \<le> RootDistance (s3 ! n) now + fmax (Fin 4 * ss_Jitter (s3 ! n)) ppsAgreementFloor"
      using ppsAgreement_from_agrees [of PInf "[]" "s3 ! p" nb now] unfolding agrees_def ppsAgreement_def nb by auto
    have "n \<in> set cands" "n < length ss" "p < length ss" using n(1) v3(2) v2(2) r p(2) by auto
    moreover from this have "core (ss' ! n) = core (s3 ! n)" "core (ss' ! p) = core (s3 ! p)" "core (s3 ! n) = core (ss ! n)"
      using core' s3(1) by simp_all
    ultimately have "vouches now (ss' ! n) (ss' ! p)" using n np core_eq_sel [of "ss' ! n" "s3 ! n"]
        core_eq_sel [of "ss' ! p" "s3 ! p"] core_eq_sel(2) [of "s3 ! n" "ss ! n"] by (simp add: vouches_def)
    moreover have "n \<in> set surv" using n(1) sv(1) P'(2) by simp
    ultimately show ?thesis using ag(1) by blast
  qed
  have st: "ss_Status (ss' ! i) = (if i \<in> set surv then StatusSurvivor else ss_Status (s4 ! i))" if "i < length ss" for i
    using M P'(1) that by simp
  have lost: "ss_Status (ss' ! i) \<in> {StatusFalseticker, StatusOutlier}" if "i < length ss" "i \<notin> set surv" "i \<in> set cands" for i
  proof -
    have "i \<notin> set v3" "i \<notin> set pps" using that sv(1) P'(2) d(3) by auto
    then show ?thesis using st [OF that(1)] P'(4) [OF that(1)] s3(2) [OF that(1)] that by simp
  qed
  have rest: "ss_Status (ss' ! i) \<in> {ss_Status (ss ! i), StatusFalseticker}" if "i < length ss" "i \<notin> set surv" "i \<notin> set cands" for i
  proof -
    have "i \<notin> set v2" "i \<notin> set v3" "\<not> (i \<in> set pps \<and> q \<and> agrees nb now (s3 ! i))" using that sv(1) P'(2) v2(2) v3(2) by auto
    then show ?thesis using st [OF that(1)] P'(4) [OF that(1)] s3(2) [OF that(1)] that by auto
  qed
  have "set surv \<subseteq> set cands \<union> set pps" using sv(1) P'(2) v3(2) v2(2) by auto
  then show ?thesis using M P'(1) sv(2) core' vouch st lost rest by auto
qed

section \<open>Selection\<close>

lemma SelectAt_steps:
  assumes "SelectAt sources now k opts = Some (sources', sel)"
  obtains ss1 cands pps ss5 where
    "ss1 = map (\<lambda>s. fst (prepare_source opts now s)) sources"
    "cands = filter (\<lambda>i. \<not> ss_PPS (ss1 ! i)) (filter (\<lambda>i. fst (snd (prepare_source opts now (sources ! i)))) [0..<length sources])"
    "pps = filter (\<lambda>i. ss_PPS (ss1 ! i)) (filter (\<lambda>i. fst (snd (prepare_source opts now (sources ! i)))) [0..<length sources])"
    "select_survivors ss1 cands pps now = Some (ss5, sel_Survivors sel, sel_PPSQualified sel, (sel_Low sel, sel_High sel))"
    "if sel_Survivors sel = [] \<or> int (length (sel_Survivors sel)) < k then sources' = ss5 \<and> sel_System sel = None
     else \<exists>sys. sel_System sel = Some sys \<and> sources' = set_status StatusSystem [sys] ss5 \<and>
       sys = (case choose_system ss5 (sel_Survivors sel) of None \<Rightarrow> hd (sel_Survivors sel) | Some i \<Rightarrow> i) \<and>
       (sel_Offset sel, sel_Jitter sel) = combine ss5 (sel_Survivors sel) sys"
proof -
  define ss1 where "ss1 = map (\<lambda>s. fst (prepare_source opts now s)) sources"
  define us where "us = filter (\<lambda>i. fst (snd (prepare_source opts now (sources ! i)))) [0..<length sources]"
  have us: "filter (\<lambda>i. fst (snd (map (prepare_source opts now) sources ! i))) [0..<length sources] = us"
    unfolding us_def by (intro filter_cong) auto
  have ss1: "map fst (map (prepare_source opts now) sources) = ss1" by (simp add: ss1_def)
  let ?c = "filter (\<lambda>i. \<not> ss_PPS (ss1 ! i)) us" and ?p = "filter (\<lambda>i. ss_PPS (ss1 ! i)) us"
  note def = assms [unfolded SelectAt_def Let_def us ss1]
  obtain ss5 sv q lo hi where s5: "select_survivors ss1 ?c ?p now = Some (ss5, sv, q, (lo, hi))"
    using def by (cases "select_survivors ss1 ?c ?p now") (auto)
  let ?sys = "case choose_system ss5 sv of None \<Rightarrow> hd sv | Some i \<Rightarrow> i"
  obtain off jit where cb: "combine ss5 sv ?sys = (off, jit)" by force
  have f: "sel_Survivors sel = sv" "sel_PPSQualified sel = q" "sel_Low sel = lo" "sel_High sel = hi"
    using def unfolding s5 by (auto simp: cb split: if_splits)
  have t: "if sv = [] \<or> int (length sv) < k then sources' = ss5 \<and> sel_System sel = None
     else sel_System sel = Some ?sys \<and> sources' = set_status StatusSystem [?sys] ss5 \<and>
       (sel_Offset sel, sel_Jitter sel) = (off, jit)"
    using def unfolding s5 by (auto simp: cb split: if_splits)
  show thesis
    by (rule that [OF ss1_def refl refl, folded us_def, unfolded f, OF s5]) (use t cb in \<open>simp split: if_splits\<close>)
qed

lemma choose_system_member: "choose_system ss sv = Some i \<Longrightarrow> i \<in> set sv"
  by (auto simp: choose_system_def find_Some_iff split: option.splits)

lemma SelectAt_facts:
  assumes sel: "SelectAt sources now k opts = Some (sources', sel)"
  shows "length sources' = length sources" "distinct (sel_Survivors sel)" "\<forall>i \<in> set (sel_Survivors sel). i < length sources"
    "\<forall>i < length sources. core (sources' ! i) = core (fst (prepare_source opts now (sources ! i)))"
    "\<forall>i \<in> set (sel_Survivors sel). eligible (so_LocalRefIDs opts) (sources' ! i) \<and>
       (ss_PPS (sources' ! i) \<longrightarrow> sel_PPSQualified sel \<and> (\<exists>n \<in> set (sel_Survivors sel). vouches now (sources' ! n) (sources' ! i)))"
    "sel_System sel = None \<longleftrightarrow> sel_Survivors sel = [] \<or> int (length (sel_Survivors sel)) < k"
    "sel_System sel = Some i \<Longrightarrow> i \<in> set (sel_Survivors sel)"
    "\<forall>i < length sources. (ss_Status (sources' ! i) = StatusSystem \<longleftrightarrow> sel_System sel = Some i) \<and>
       (ss_Status (sources' ! i) = StatusSurvivor \<longleftrightarrow> i \<in> set (sel_Survivors sel) \<and> sel_System sel \<noteq> Some i)"
proof -
  obtain ss1 cands pps ss5 where ss1: "ss1 = map (\<lambda>s. fst (prepare_source opts now s)) sources"
    and cands: "cands = filter (\<lambda>i. \<not> ss_PPS (ss1 ! i)) (filter (\<lambda>i. fst (snd (prepare_source opts now (sources ! i)))) [0..<length sources])"
    and pps: "pps = filter (\<lambda>i. ss_PPS (ss1 ! i)) (filter (\<lambda>i. fst (snd (prepare_source opts now (sources ! i)))) [0..<length sources])"
    and s5: "select_survivors ss1 cands pps now = Some (ss5, sel_Survivors sel, sel_PPSQualified sel, (sel_Low sel, sel_High sel))"
    and fin: "if sel_Survivors sel = [] \<or> int (length (sel_Survivors sel)) < k then sources' = ss5 \<and> sel_System sel = None
     else \<exists>sys. sel_System sel = Some sys \<and> sources' = set_status StatusSystem [sys] ss5 \<and>
       sys = (case choose_system ss5 (sel_Survivors sel) of None \<Rightarrow> hd (sel_Survivors sel) | Some i \<Rightarrow> i) \<and>
       (sel_Offset sel, sel_Jitter sel) = combine ss5 (sel_Survivors sel) sys"
    using sel by (rule SelectAt_steps)
  let ?V = "sel_Survivors sel"
  have len: "length ss1 = length sources" by (simp add: ss1)
  have rng: "\<forall>i \<in> set cands. i < length ss1" "\<forall>i \<in> set pps. i < length ss1" "distinct cands" "distinct pps"
    "set cands \<inter> set pps = {}" "\<forall>i \<in> set cands. \<not> ss_PPS (ss1 ! i)" unfolding cands pps len by auto
  note S = select_survivors_sound [OF s5 rng(3-5,1,2,6)]
  show dist: "distinct ?V" using S by blast
  show rv: "\<forall>i \<in> set ?V. i < length sources" using S rng(1,2) len by auto
  have sys: "i \<in> set ?V" if "sel_System sel = Some i" for i
    using fin that choose_system_member [of ss5 ?V] by (auto split: if_splits option.splits)
  then show "sel_System sel = Some i \<Longrightarrow> i \<in> set ?V" .
  show none: "sel_System sel = None \<longleftrightarrow> ?V = [] \<or> int (length ?V) < k" using fin by (auto split: if_splits)
  have l5: "length ss5 = length sources" using S len by simp
  have at: "sources' ! i = (if sel_System sel = Some i then (ss5 ! i)\<lparr>ss_Status := StatusSystem\<rparr> else ss5 ! i)"
    if "i < length sources" for i
  proof (cases "sel_System sel")
    case None
    then show ?thesis using fin by (auto split: if_splits)
  next
    case (Some j)
    then have "sources' = set_status StatusSystem [j] ss5" "j < length ss5" using fin sys rv l5 by (auto split: if_splits)
    then show ?thesis using set_status_nth [of "[j]" ss5 i StatusSystem] that l5 Some by auto
  qed
  show "length sources' = length sources" using fin l5 by (auto split: if_splits)
  have c: "core (sources' ! i) = core (ss1 ! i)" if "i < length sources" for i using at [OF that] S that len by auto
  then show "\<forall>i < length sources. core (sources' ! i) = core (fst (prepare_source opts now (sources ! i)))" by (simp add: ss1)
  have usable: "fst (snd (prepare_source opts now (sources ! i)))" if "i \<in> set cands \<union> set pps" for i
    using that unfolding cands pps by auto
  show "\<forall>i \<in> set ?V. eligible (so_LocalRefIDs opts) (sources' ! i) \<and>
       (ss_PPS (sources' ! i) \<longrightarrow> sel_PPSQualified sel \<and> (\<exists>n \<in> set ?V. vouches now (sources' ! n) (sources' ! i)))"
  proof (intro ballI conjI impI)
    fix i assume i: "i \<in> set ?V"
    then have il: "i < length sources" and iu: "i \<in> set cands \<union> set pps" using rv S by auto
    obtain s' evs where pr: "prepare_source opts now (sources ! i) = (s', True, evs)"
      using usable [OF iu] by (metis (full_types) prod.collapse)
    have eq: "core (sources' ! i) = core s'" using c [OF il] il by (simp add: ss1 pr)
    show "eligible (so_LocalRefIDs opts) (sources' ! i)"
      using prepare_source_sound(1) [OF pr] core_eq_sel(7) [OF eq] by blast
    assume pp: "ss_PPS (sources' ! i)"
    then have "ss_PPS (ss1 ! i)" using core_eq_sel(2) [OF c [OF il]] by simp
    then have "i \<in> set pps" using iu rng(6) by blast
    then obtain n where n: "sel_PPSQualified sel" "n \<in> set ?V" "vouches now (ss5 ! n) (ss5 ! i)" using S i by blast
    have c5: "core (sources' ! j) = core (ss5 ! j)" if "j < length sources" for j using at [OF that] by simp
    have "n < length sources" using n(2) rv by blast
    then have "vouches now (sources' ! n) (sources' ! i)"
      using n(3) core_eq_sel [OF c5 [of n]] core_eq_sel [OF c5 [OF il]] by (simp add: vouches_def)
    then show "sel_PPSQualified sel" "\<exists>n \<in> set ?V. vouches now (sources' ! n) (sources' ! i)" using n by blast+
  qed
  show "\<forall>i < length sources. (ss_Status (sources' ! i) = StatusSystem \<longleftrightarrow> sel_System sel = Some i) \<and>
       (ss_Status (sources' ! i) = StatusSurvivor \<longleftrightarrow> i \<in> set ?V \<and> sel_System sel \<noteq> Some i)"
  proof (intro allI impI)
    fix i assume i: "i < length sources"
    obtain s' ok evs where pr: "prepare_source opts now (sources ! i) = (s', ok, evs)" using prod_cases3 by blast
    have s1: "ss1 ! i = s'" using i by (simp add: ss1 pr)
    have "ss_Status s' \<notin> {StatusSurvivor, StatusSystem}" if "i \<notin> set cands"
    proof (cases ok)
      case True
      then have "ss_PPS s'" using that i unfolding cands by (simp add: pr s1)
      then show ?thesis using prepare_source_sound(2) [OF pr True] by simp
    next
      case False
      then show ?thesis using prepare_source_sound(3) [OF pr] by auto
    qed
    moreover have "i \<notin> set ?V \<longrightarrow> (if i \<in> set cands then ss_Status (ss5 ! i) \<in> {StatusFalseticker, StatusOutlier}
          else ss_Status (ss5 ! i) \<in> {ss_Status (ss1 ! i), StatusFalseticker})" using S i unfolding len by blast
    ultimately have "i \<notin> set ?V \<Longrightarrow> ss_Status (ss5 ! i) \<notin> {StatusSurvivor, StatusSystem}"
      unfolding s1 by (cases "i \<in> set cands") auto
    moreover have "i \<in> set ?V \<Longrightarrow> ss_Status (ss5 ! i) = StatusSurvivor" using S i unfolding len by blast
    ultimately show "(ss_Status (sources' ! i) = StatusSystem \<longleftrightarrow> sel_System sel = Some i) \<and>
       (ss_Status (sources' ! i) = StatusSurvivor \<longleftrightarrow> i \<in> set ?V \<and> sel_System sel \<noteq> Some i)"
      using at [OF i] sys [of i] by (cases "i \<in> set ?V") auto
  qed
qed

section \<open>Totality and preference\<close>

lemma SelectAt_total:
  assumes "\<forall>s \<in> set sources. Fin 0 \<le> ss_Jitter s"
  shows "SelectAt sources now k opts \<noteq> None"
proof -
  define ss1 where "ss1 = map fst (map (prepare_source opts now) sources)"
  have jit: "Fin 0 \<le> ss_Jitter (ss1 ! i)" if "i < length ss1" for i
  proof -
    obtain s' ok evs where pr: "prepare_source opts now (sources ! i) = (s', ok, evs)" using prod_cases3 by blast
    obtain b st where "s' = (refresh_source opts now (sources ! i))\<lparr>ss_inLoop := b, ss_Status := st\<rparr>"
      using prepare_source_sound(4) [OF pr] by blast
    then show ?thesis using that assms by (simp add: ss1_def pr refresh_source_sel)
  qed
  have "select_survivors ss1 c p now \<noteq> None" if c: "distinct c" "\<forall>i \<in> set c. i < length ss1" for c p
  proof -
    obtain s2 v2 iv where i2: "intersect ss1 c = (s2, v2, iv)" using prod_cases3 by blast
    note I = intersect_sound [OF i2 c(2)]
    have "\<forall>q \<in> set v2. q < length s2 \<and> Fin 0 \<le> ss_Jitter (s2 ! q)" "distinct v2"
      using I subseq_subset [of v2 c] distinct_subseq [of v2 c] c jit by auto
    then have "cluster s2 v2 \<noteq> None" by (rule cluster_total)
    then show ?thesis by (auto simp: select_survivors_def Let_def i2 split: prod.split)
  qed
  then obtain r where "select_survivors ss1 (filter (\<lambda>i. \<not> ss_PPS (ss1 ! i)) (filter (\<lambda>i. fst (snd (map (prepare_source opts now) sources ! i))) [0..<length sources]))
      (filter (\<lambda>i. ss_PPS (ss1 ! i)) (filter (\<lambda>i. fst (snd (map (prepare_source opts now) sources ! i))) [0..<length sources])) now = Some r"
    by (force simp: ss1_def)
  then show ?thesis unfolding SelectAt_def Let_def ss1_def [symmetric] by (auto split: prod.split)
qed

lemma find_Some_first: "List.find P xs = Some x \<Longrightarrow> P x \<and> x \<in> set xs"
  by (auto simp: find_Some_iff)

lemma find_exists: "\<exists>x \<in> set xs. P x \<Longrightarrow> \<exists>x. List.find P xs = Some x \<and> P x"
  using find_Some_first [of P xs] by (cases "List.find P xs") (auto simp: find_None_iff)

lemma choose_system_policy:
  "\<exists>j \<in> set sv. ss_PPS (ss ! j) \<and> ss_Prefer (ss ! j) \<Longrightarrow>
     \<exists>i. choose_system ss sv = Some i \<and> ss_PPS (ss ! i) \<and> ss_Prefer (ss ! i)"
  "\<exists>j \<in> set sv. ss_Prefer (ss ! j) \<Longrightarrow> \<exists>i. choose_system ss sv = Some i \<and> ss_Prefer (ss ! i)"
proof -
  let ?P = "\<lambda>i. ss_PPS (ss ! i) \<and> ss_Prefer (ss ! i)"
  assume "\<exists>j \<in> set sv. ?P j"
  from find_exists [OF this] show "\<exists>i. choose_system ss sv = Some i \<and> ?P i" by (auto simp: choose_system_def)
next
  let ?P = "\<lambda>i. ss_PPS (ss ! i) \<and> ss_Prefer (ss ! i)"
  assume p: "\<exists>j \<in> set sv. ss_Prefer (ss ! j)"
  show "\<exists>i. choose_system ss sv = Some i \<and> ss_Prefer (ss ! i)"
  proof (cases "List.find ?P sv")
    case None
    then show ?thesis using find_exists [OF p] by (simp add: choose_system_def)
  next
    case (Some i)
    then show ?thesis using find_Some_first [OF Some] by (simp add: choose_system_def)
  qed
qed

lemma choose_system_prefers: "choose_system ss sv = Some i \<Longrightarrow> ss_Prefer (ss ! i)"
  by (auto simp: choose_system_def split: option.splits dest: find_Some_first)

lemma combine_prefer: "ss_Prefer (ss ! sys) \<Longrightarrow> fst (combine ss sv sys) = ss_Current (ss ! sys)"
  by (simp add: combine_def Let_def split_beta)

interpretation synch_order: comparison "\<lambda>i j. synch (ss ! i) < synch (ss ! j)" "\<lambda>i. synch (ss ! i) \<noteq> NaN" for ss
  by unfold_locales (auto simp: f64_not_less dest: f64_less_asym f64_le_trans)

lemma length_mark: "length (foldl (\<lambda>ss i. ss[i := g ss i]) ss ps) = length ss"
  by (induction ps arbitrary: ss) auto

lemma select_survivors_head:
  assumes sel: "select_survivors ss cands pps now = Some (ss5, x # ys, q, iv)"
    and r: "\<forall>p \<in> set (x # ys). p < length ss5" and n: "\<forall>p \<in> set (x # ys). synch (ss5 ! p) \<noteq> NaN"
    and j: "j \<in> set (x # ys)"
  shows "\<not> synch (ss5 ! j) < synch (ss5 ! x)"
  using sel
proof (rule select_survivors_steps)
  fix s4 :: "source_state list" and v4
  assume sv: "x # ys = go_sort (\<lambda>i j. synch (s4 ! i) < synch (s4 ! j)) v4"
    and mk: "ss5 = foldl (\<lambda>ss i. ss[i := (ss ! i)\<lparr>ss_Status := StatusSurvivor, ss_everSurvived := True\<rparr>]) s4 (x # ys)"
  have l4: "\<forall>p \<in> set (x # ys). p < length s4" using r unfolding mk length_mark .
  have sy: "synch (s4 ! p) = synch (ss5 ! p)" if "p \<in> set (x # ys)" for p
  proof -
    have "p < length s4" using l4 that by blast
    then have "core (ss5 ! p) = core (s4 ! p)" using mark_survivors [OF l4, folded mk] by simp
    then show ?thesis using core_eq_sel(8) by metis
  qed
  have v4: "set v4 = set (x # ys)" unfolding sv by simp
  then have "list_all (\<lambda>p. synch (s4 ! p) \<noteq> NaN) v4" using n sy unfolding list_all_iff v4 by simp
  then have "\<not> synch (s4 ! j) < synch (s4 ! x)"
    using synch_order.go_sort_least [OF _ sv [symmetric]] j v4 by blast
  then show ?thesis using sy [OF j] sy [of x] by simp
qed

lemma two_votes:
  "a \<noteq> b \<Longrightarrow> length (filter (\<lambda>x. x = a) xs) + length (filter (\<lambda>x. x = b) xs) \<le> length xs"
  by (induction xs) auto

lemma freshnessDeadline_value:
  "freshnessDeadline poll = Fin (max 64 (8 * 2 ^ nat (min 17 (max 2 (sint poll)))))"
proof -
  define p where "p = (if (if sint poll < 2 then 2 else sint poll) > 17 then 17 else (if sint poll < 2 then 2 else sint poll))"
  have p: "p = min 17 (max 2 (sint poll))" "2 \<le> p" "p \<le> 17" by (auto simp: p_def)
  have pw: "(2::real) powi p = 2 ^ nat p" using p(2) by (simp add: power_int_def)
  have bound: "8 * (2::real) ^ nat p \<le> 8 * 2 ^ 17" using p(2,3) by (intro mult_left_mono power_increasing) auto
  have "f64_of_real (8 * 2 powi p) = Fin (8 * 2 powi p)"
  proof (rule f64_of_real_exact)
    have "8 * (2::real) powi p = 2 powi (p + 3)" by (simp add: power_int_add)
    then show "rnd (8 * 2 powi p) = 8 * 2 powi p" using p(2) rnd_powi [of "p + 3"] by simp
    show "\<bar>8 * 2 powi p\<bar> < f64_limit" using bound f64_limit_pos(2) unfolding pw by simp
  qed
  moreover have "ldexp1 p = Fin (2 powi p)" using p by (intro ldexp1_small) auto
  ultimately have "freshnessDeadline poll = Fin (max 64 (8 * 2 ^ nat p))"
    unfolding freshnessDeadline_def Let_def p_def [symmetric] by (simp add: pw max_def)
  then show ?thesis unfolding p(1) .
qed

section \<open>Properties\<close>

text \<open>C1: The intersection algorithm keeps a majority clique. Whenever any candidate survives it, the
  interval it found is not empty, more than half of the candidates have the low end of the interval in
  their own correctness interval, more than half have the high end, and more than half survive: a
  minority of falsetickers cannot be selected, whatever they report.\<close>
theorem intersect_keeps_majority:
  assumes "intersect sources c = (sources', surv, (low, high))" and "surv \<noteq> []"
    and "\<forall>i \<in> set c. proper (sources ! i)"
  shows "low < high \<and> 2 * length surv > length c \<and>
    2 * length (filter (\<lambda>i. covers low (sources ! i)) c) > length c \<and>
    2 * length (filter (\<lambda>i. covers high (sources ! i)) c) > length c"
  using assms by (rule intersect_majority)

text \<open>C2: Selection never uses a source it should not. Whatever the sources report, every survivor was
  reachable, selectable, fresh, valid, synchronized, of stratum below 16, within the maximum distance and
  not a timing loop; a PPS source is among the survivors only together with a numbering source that is not
  itself a PPS source, says the clock is within the guard band, and agrees with the pulse to within its own
  uncertainty; and a system source is declared exactly when enough sources survive, and is one of them.\<close>
theorem SelectAt_only_eligible:
  assumes "SelectAt sources now k opts = Some (sources', sel)"
  shows "length sources' = length sources \<and> distinct (sel_Survivors sel) \<and>
    (\<forall>i \<in> set (sel_Survivors sel). i < length sources \<and> eligible (so_LocalRefIDs opts) (sources' ! i) \<and>
       (ss_PPS (sources' ! i) \<longrightarrow>
          sel_PPSQualified sel \<and> (\<exists>n \<in> set (sel_Survivors sel). vouches now (sources' ! n) (sources' ! i)))) \<and>
    (sel_System sel = None \<longleftrightarrow> sel_Survivors sel = [] \<or> int (length (sel_Survivors sel)) < k) \<and>
    (\<forall>i. sel_System sel = Some i \<longrightarrow> i \<in> set (sel_Survivors sel))"
  using SelectAt_facts [OF assms] by blast

text \<open>The marks selection leaves on the sources are its outcome: exactly the system source is marked
  as such, and a source is marked a survivor exactly when it is in the list of survivors without being
  the system source.\<close>
theorem SelectAt_marks_outcome:
  assumes "SelectAt sources now k opts = Some (sources', sel)" and "i < length sources"
  shows "(ss_Status (sources' ! i) = StatusSystem \<longleftrightarrow> sel_System sel = Some i) \<and>
    (ss_Status (sources' ! i) = StatusSurvivor \<longleftrightarrow> i \<in> set (sel_Survivors sel) \<and> sel_System sel \<noteq> Some i)"
  using SelectAt_facts(8) [OF assms(1)] assms(2) by blast

text \<open>C34: Selection never crashes: as long as no source reports a negative jitter, the clustering loop finds
  a survivor to discard whenever it wants to discard one, and selection returns.\<close>
theorem SelectAt_never_panics:
  assumes "\<forall>s \<in> set sources. Fin 0 \<le> ss_Jitter s"
  shows "\<exists>sources' sel. SelectAt sources now k opts = Some (sources', sel)"
  using SelectAt_total [OF assms, of now k opts] by auto

text \<open>C35: A configured preference is honoured. The system source is a preferred PPS source if one survives,
  else a preferred source if one survives, and the offset of a preferred system source is used unaltered;
  with no preferred survivor, no survivor ranks before the system source by stratum and distance.\<close>
theorem SelectAt_prefers:
  assumes "SelectAt sources now k opts = Some (sources', sel)" and "sel_System sel = Some i"
    and "\<forall>j \<in> set (sel_Survivors sel). synch (sources' ! j) \<noteq> NaN"
  shows "((\<exists>j \<in> set (sel_Survivors sel). ss_PPS (sources' ! j) \<and> ss_Prefer (sources' ! j)) \<longrightarrow>
            ss_PPS (sources' ! i) \<and> ss_Prefer (sources' ! i)) \<and>
         ((\<exists>j \<in> set (sel_Survivors sel). ss_Prefer (sources' ! j)) \<longrightarrow> ss_Prefer (sources' ! i)) \<and>
         (ss_Prefer (sources' ! i) \<longrightarrow> sel_Offset sel = ss_Current (sources' ! i)) \<and>
         (\<not> ss_Prefer (sources' ! i) \<longrightarrow> (\<forall>j \<in> set (sel_Survivors sel). \<not> synch (sources' ! j) < synch (sources' ! i)))"
proof -
  note F = SelectAt_facts [OF assms(1)]
  let ?V = "sel_Survivors sel"
  obtain ss1 cands pps ss5 where s5: "select_survivors ss1 cands pps now = Some (ss5, ?V, sel_PPSQualified sel, (sel_Low sel, sel_High sel))"
    and fin: "if ?V = [] \<or> int (length ?V) < k then sources' = ss5 \<and> sel_System sel = None
     else \<exists>sys. sel_System sel = Some sys \<and> sources' = set_status StatusSystem [sys] ss5 \<and>
       sys = (case choose_system ss5 ?V of None \<Rightarrow> hd ?V | Some i \<Rightarrow> i) \<and>
       (sel_Offset sel, sel_Jitter sel) = combine ss5 ?V sys"
    using assms(1) by (rule SelectAt_steps)
  have set: "sources' = set_status StatusSystem [i] ss5" "i = (case choose_system ss5 ?V of None \<Rightarrow> hd ?V | Some i \<Rightarrow> i)"
    "sel_Offset sel = fst (combine ss5 ?V i)" "?V \<noteq> []" using fin assms(2) by (auto split: if_splits dest: arg_cong [where f = fst])
  have len: "length ss5 = length sources" using F(1) set(1) by simp
  have c: "core (sources' ! j) = core (ss5 ! j)" if "j \<in> set ?V" for j
    using set(1) set_status_nth [of "[i]" ss5 j StatusSystem] F(3) F(7) [OF assms(2)] that len by auto
  note E = core_eq_sel [OF c]
  have iV: "i \<in> set ?V" by (rule F(7) [OF assms(2)])
  have rank: "\<not> synch (sources' ! j) < synch (sources' ! i)" if n: "\<not> ss_Prefer (sources' ! i)" and j: "j \<in> set ?V" for j
  proof -
    have "choose_system ss5 ?V = None"
    proof (cases "choose_system ss5 ?V")
      case (Some m)
      then have "\<not> ss_Prefer (ss5 ! m)" using set(2) n E(2) [OF iV] by simp
      then show ?thesis using choose_system_prefers [OF Some] by simp
    qed
    then obtain ys where V: "?V = i # ys" using set(2,4) by (cases ?V) auto
    have "\<forall>p \<in> set (i # ys). p < length ss5" using F(3) len V by simp
    moreover have "\<forall>p \<in> set (i # ys). synch (ss5 ! p) \<noteq> NaN" using assms(3) E(8) unfolding V [symmetric] by simp
    ultimately have "\<not> synch (ss5 ! j) < synch (ss5 ! i)"
      using select_survivors_head [OF s5 [unfolded V]] j unfolding V by blast
    then show ?thesis using E(8) [OF j] E(8) [OF iV] by simp
  qed
  have ch: "choose_system ss5 ?V = Some m \<Longrightarrow> m = i" for m using set(2) by simp
  have pol: "(\<exists>j \<in> set ?V. ss_PPS (ss5 ! j) \<and> ss_Prefer (ss5 ! j)) \<longrightarrow> ss_PPS (ss5 ! i) \<and> ss_Prefer (ss5 ! i)"
    "(\<exists>j \<in> set ?V. ss_Prefer (ss5 ! j)) \<longrightarrow> ss_Prefer (ss5 ! i)"
    using choose_system_policy(1,2) [of ?V ss5] ch by blast+
  have o: "ss_Prefer (ss5 ! i) \<longrightarrow> sel_Offset sel = ss_Current (ss5 ! i)" using combine_prefer set(3) by simp
  have opt: "ss_Options (sources' ! j) = ss_Options (ss5 ! j)" if "j \<in> set ?V" for j by (rule E(2) [OF that])
  show ?thesis using pol o rank opt iV E(3) [OF iV] by simp
qed

text \<open>A leap warning is published only when a strict majority of the survivors that can know of one, and
  have said so recently, announce it; no warning either way is published without such a majority, and a
  pulse or a receiver that cannot announce leaps has no vote.\<close>
theorem majorityLeap_strict_majority:
  "(l \<noteq> LeapUnsync \<longrightarrow>
     (majorityLeap surv now = l \<longleftrightarrow>
      length (filter (leap_voter now) surv) < 2 * length (filter (\<lambda>s. leap_voter now s \<and> ss_LiveLeap s = l) surv))) \<and>
   (\<forall>s. leap_voter now s \<longrightarrow> \<not> ss_PPS s \<and> \<not> ss_LeapIncapable s \<and> ss_LiveLeap s \<noteq> LeapUnsync)"
proof -
  let ?b = "map ss_LiveLeap (filter (leap_voter now) surv)"
  have v: "length (filter (\<lambda>x. x = k) ?b) = length (filter (\<lambda>s. leap_voter now s \<and> ss_LiveLeap s = k) surv)" for k
    by (induction surv) auto
  note two = two_votes [of LeapNone LeapInsert ?b] two_votes [of LeapNone LeapDelete ?b] two_votes [of LeapInsert LeapDelete ?b]
  have "l \<noteq> LeapUnsync \<longrightarrow> (majorityLeap surv now = l \<longleftrightarrow> length ?b < 2 * length (filter (\<lambda>x. x = l) ?b))"
    using two by (cases l) (auto simp: majorityLeap_def Let_def)
  then show ?thesis unfolding v by (auto simp: leap_voter_def Let_def)
qed

text \<open>The freshness deadline is eight poll intervals at the source's own poll exponent, held between the
  smallest and the largest exponent and never below 64 seconds; the floating point computation of it is
  exact.\<close>
theorem freshnessDeadline_exact:
  "freshnessDeadline poll = Fin (max 64 (8 * 2 ^ nat (min 17 (max 2 (sint poll)))))"
  by (rule freshnessDeadline_value)

section \<open>Sample sources\<close>

definition sample_options :: options where
  "sample_options = \<lparr>o_Prefer = False, o_NoSelect = False, o_Numbering = True, o_PPS = False, o_LeapIncapable = False\<rparr>"

definition sample_ticker :: "real \<Rightarrow> source_state" where
  \<comment> \<open>a source with a correctness interval of one second around an offset\<close>
  "sample_ticker c = (new_source ''s'' sample_options)\<lparr>ss_Current := Fin c, ss_Distance := Fin 1\<rparr>"

definition sample_source :: source_state where
  \<comment> \<open>a stratum 1 server heard from at the selection instant\<close>
  "sample_source = (new_source ''a'' sample_options)\<lparr>ss_Reach := 255, ss_Poll := 6, ss_Valid := True, ss_Stratum := 1,
     ss_Updated := Fin 8, ss_At := Fin 8, ss_Offset := Fin (1 / 4), ss_Delay := Fin (1 / 2), ss_Jitter := Fin (1 / 8)\<rparr>"

theorem intersect_keeps_majority_witness:
  "\<exists>sources' low high. intersect [sample_ticker 0, sample_ticker (1 / 2), sample_ticker 9] [0, 1, 2] =
     (sources', [0, 1], (low, high)) \<and> low < high"
proof -
  let ?s = "[sample_ticker 0, sample_ticker (1 / 2), sample_ticker 9]"
  obtain s' lo hi where e: "intersect ?s [0, 1, 2] = (s', [0, 1], (lo, hi))"
    by (simp add: intersect_def source_edges_def sample_ticker_def go_sort_def edge_less_def feq_def find_interval.simps
        outside_def f64_eval)
  have "proper (sample_ticker c)" for c by (auto simp: proper_def sample_ticker_def)
  then have "\<forall>i \<in> set [0, 1, 2]. proper (?s ! i)" by simp
  from intersect_keeps_majority [OF e _ this] e show ?thesis by auto
qed

abbreviation (input) plain_options :: select_options where
  "plain_options \<equiv> \<lparr>so_LocalRefIDs = [], so_AppliedSince = None\<rparr>"

definition sample_prepared :: source_state where
  "sample_prepared = sample_source\<lparr>ss_Distance := Fin (3 / 8), ss_Current := Fin (1 / 4), ss_Status := StatusSurvivor\<rparr>"

lemma sample_prepare: "prepare_source plain_options (Fin 8) sample_source = (sample_prepared, True, [])"
proof -
  have d: "RootDistance sample_source (Fin 8) = Fin (3 / 8)"
    by (simp add: RootDistance_def sample_source_def new_source_def MinDispersion_def Phi_value f64_eval)
  have r: "refresh_source plain_options (Fin 8) sample_source = sample_prepared\<lparr>ss_Status := StatusUnreachable\<rparr>"
    unfolding refresh_source_def d Let_def freshnessDeadline_value
    by (simp add: sample_source_def new_source_def sample_options_def sample_prepared_def)
  have "candidate (sample_prepared\<lparr>ss_Status := StatusUnreachable\<rparr>) = (True, StatusSurvivor)"
    by (simp add: candidate_def sample_prepared_def sample_source_def new_source_def sample_options_def word_le_nat_alt)
  then show ?thesis unfolding prepare_source_def r Let_def
    by (simp add: timingLoop_def sample_prepared_def sample_source_def new_source_def sample_options_def)
qed

definition sample_outcome :: "source_state \<Rightarrow> bool" where
  \<comment> \<open>what the preparation of the sample leaves\<close>
  "sample_outcome p \<longleftrightarrow> ss_Current p = Fin (1 / 4) \<and> ss_Distance p = Fin (3 / 8) \<and> ss_Numbering p \<and> \<not> ss_PPS p \<and>
     \<not> ss_Prefer p \<and> ss_Status p = StatusSurvivor"

lemma sample_survivors:
  assumes "sample_outcome p"
  shows "select_survivors [p] [0] [] (Fin 8) = Some ([p\<lparr>ss_everSurvived := True\<rparr>], [0], True, (Fin (- 1 / 8), Fin (5 / 8)))"
proof -
  have c: "ss_Current p = Fin (1 / 4)" "ss_Distance p = Fin (3 / 8)" "ss_Numbering p" "ss_Status p = StatusSurvivor"
    using assms by (simp_all add: sample_outcome_def)
  have "intersect [p] [0] = ([p], [0], (Fin (- 1 / 8), Fin (5 / 8)))"
    by (simp add: intersect_def source_edges_def c go_sort_def edge_less_def feq_def find_interval.simps outside_def
        set_status_def f64_eval)
  moreover have "cluster [p] [0] = Some ([p], [0])" by (simp add: cluster.simps)
  moreover have "\<bar>Fin (1 / 4)\<bar> < PPSGuard" by (simp add: PPSGuard_def f64_eval)
  moreover have "p\<lparr>ss_Status := StatusSurvivor, ss_everSurvived := True\<rparr> = p\<lparr>ss_everSurvived := True\<rparr>" using c(4) by (cases p) simp
  ultimately show ?thesis by (simp add: select_survivors_def c go_sort_def)
qed

lemma sample_combine:
  assumes "sample_outcome p"
  shows "fst (combine [p\<lparr>ss_everSurvived := True\<rparr>] [0] 0) = Fin (1 / 4)"
  using assms by (simp add: combine_def sample_outcome_def combine_weight_def Let_def split_beta f64_eval)

lemma sample_selected:
  assumes "prepare_source opts (Fin 8) x = (p, True, [])" "sample_outcome p"
  shows "\<exists>sel. SelectAt [x] (Fin 8) 1 opts = Some ([p\<lparr>ss_everSurvived := True, ss_Status := StatusSystem\<rparr>], sel) \<and>
     sel_Survivors sel = [0] \<and> sel_System sel = Some 0 \<and> sel_Offset sel = Fin (1 / 4)"
  using assms sample_survivors [OF assms(2)] sample_combine [OF assms(2)]
  by (simp add: SelectAt_def sample_outcome_def choose_system_def set_status_def split_beta)

lemma sample_selection:
  "\<exists>sel. SelectAt [sample_source] (Fin 8) 1 plain_options =
       Some ([sample_prepared\<lparr>ss_everSurvived := True, ss_Status := StatusSystem\<rparr>], sel) \<and>
     sel_Survivors sel = [0] \<and> sel_System sel = Some 0"
proof -
  have "sample_outcome sample_prepared"
    by (simp add: sample_outcome_def sample_prepared_def sample_source_def new_source_def sample_options_def)
  from sample_selected [OF sample_prepare this] show ?thesis by blast
qed

theorem SelectAt_only_eligible_witness:
  "\<exists>sources' sel. SelectAt [sample_source] (Fin 8) 1 plain_options = Some (sources', sel) \<and>
     sel_Survivors sel = [0] \<and> eligible [] (sources' ! 0)"
  using sample_selection SelectAt_only_eligible [of "[sample_source]" "Fin 8" 1 plain_options] by fastforce

theorem SelectAt_marks_outcome_witness:
  "\<exists>sources' sel. SelectAt [sample_source] (Fin 8) 1 plain_options = Some (sources', sel) \<and>
     ss_Status (sources' ! 0) = StatusSystem"
proof -
  obtain sources' sel where s: "SelectAt [sample_source] (Fin 8) 1 plain_options = Some (sources', sel)"
    "sel_System sel = Some 0" using sample_selection by blast
  show ?thesis using SelectAt_marks_outcome [OF s(1), of 0] s by auto
qed

theorem SelectAt_never_panics_witness:
  "\<exists>sources' sel. SelectAt [sample_source, sample_source, sample_source, sample_source] (Fin 8) 1 plain_options = Some (sources', sel)"
proof -
  have "Fin 0 \<le> ss_Jitter sample_source" by (simp add: sample_source_def)
  then show ?thesis using SelectAt_never_panics [of "[sample_source, sample_source, sample_source, sample_source]"] by simp
qed

theorem SelectAt_prefers_witness:
  "\<exists>sources' sel. SelectAt [sample_source] (Fin 8) 1 plain_options = Some (sources', sel) \<and>
     (\<forall>j \<in> set (sel_Survivors sel). \<not> synch (sources' ! j) < synch (sources' ! 0))"
proof -
  let ?s = "sample_prepared\<lparr>ss_everSurvived := True, ss_Status := StatusSystem\<rparr>"
  obtain sel where s: "SelectAt [sample_source] (Fin 8) 1 plain_options = Some ([?s], sel)"
    "sel_Survivors sel = [0]" "sel_System sel = Some 0" using sample_selection by blast
  have "synch ?s \<noteq> NaN" "\<not> ss_Prefer ?s"
    by (simp_all add: synch_def sample_prepared_def sample_source_def new_source_def sample_options_def f64_of_int_small)
  then show ?thesis using SelectAt_prefers [OF s(1,3)] s by simp
qed

theorem majorityLeap_strict_majority_witness:
  "majorityLeap [sample_source\<lparr>ss_LeapKnown := True, ss_LiveLeap := LeapInsert\<rparr>] (Fin 8) = LeapInsert"
proof -
  let ?s = "sample_source\<lparr>ss_LeapKnown := True, ss_LiveLeap := LeapInsert\<rparr>"
  have "leap_voter (Fin 8) ?s"
    by (simp add: leap_voter_def sample_source_def new_source_def sample_options_def Log2Seconds_def ldexp1_small f64_eval)
  then show ?thesis using majorityLeap_strict_majority [of LeapInsert "[?s]" "Fin 8"] by simp
qed

end
