(* ===== verification/System_Correct.thy ===== *)
theory System_Correct
  imports Discipline_System Selection_Correct
begin

text \<open>
  What holds of every run of the discipline system: its map of sources is well formed and no operation
  panics, nothing is served as synchronized that was not synchronized since the last step, a further step
  rests on two fresh measurements, no observation is used twice, and a system that has lost its sources
  declares itself unsynchronized.
\<close>

section \<open>The map of sources\<close>

lemma those_Some_iff: "those xs = Some ys \<longleftrightarrow> xs = map Some ys"
proof (induction xs arbitrary: ys)
  case (Cons x xs)
  then show ?case by (cases x; cases ys) auto
qed auto

definition wf_sources :: "system \<Rightarrow> bool" where
  "wf_sources s \<longleftrightarrow> distinct (sy_order s) \<and> dom (sy_sources s) = set (sy_order s) \<and>
     (\<forall>n x. sy_sources s n = Some x \<longrightarrow> ss_Name x = n)"

lemma sys_all_iff: "sys_all s = Some ss \<longleftrightarrow> map (sy_sources s) (sy_order s) = map Some ss"
  by (simp add: sys_all_def those_Some_iff)

lemma sys_all_wf:
  assumes "wf_sources s"
  obtains ss where "sys_all s = Some ss" "map ss_Name ss = sy_order s"
proof -
  let ?ss = "map (\<lambda>n. the (sy_sources s n)) (sy_order s)"
  have "sy_sources s n = Some (the (sy_sources s n)) \<and> ss_Name (the (sy_sources s n)) = n" if "n \<in> set (sy_order s)" for n
  proof -
    have "n \<in> dom (sy_sources s)" using that assms by (simp add: wf_sources_def)
    then obtain x where "sy_sources s n = Some x" by blast
    then show ?thesis using assms by (simp add: wf_sources_def)
  qed
  then have "sys_all s = Some ?ss" "map ss_Name ?ss = sy_order s" by (auto simp: sys_all_iff intro!: map_idI)
  then show thesis by (rule that)
qed

lemma sys_all_names: "wf_sources s \<Longrightarrow> sys_all s = Some ss \<Longrightarrow> map ss_Name ss = sy_order s"
  using sys_all_wf by fastforce

lemma put_all_lookup:
  assumes "distinct (sy_order s)" "length ss = length (sy_order s)" "i < length ss"
  shows "sy_sources (put_all ss s) (sy_order s ! i) = Some (ss ! i)"
  using assms by (simp add: put_all_def map_add_Some_iff map_of_zip_nth)

lemma put_all_other: "n \<notin> set (sy_order s) \<Longrightarrow> sy_sources (put_all ss s) n = sy_sources s n"
  by (auto simp: put_all_def map_add_def map_of_zip_is_None split: option.split dest!: map_of_SomeD set_zip_leftD)

lemma put_all_frame: "put_all ss s = s\<lparr>sy_sources := sy_sources (put_all ss s)\<rparr>"
  by (simp add: put_all_def)

lemma put_all_fields [simp]:
  "sy_cfg (put_all ss s) = sy_cfg s" "sy_order (put_all ss s) = sy_order s" "sy_loop (put_all ss s) = sy_loop s"
  "sy_state (put_all ss s) = sy_state s" "sy_sinceStep (put_all ss s) = sy_sinceStep s"
  "sy_postStepUpdates (put_all ss s) = sy_postStepUpdates s" "sy_resyncing (put_all ss s) = sy_resyncing s"
  "sy_everSynced (put_all ss s) = sy_everSynced s" "sy_unsyncedReason (put_all ss s) = sy_unsyncedReason s"
  "sy_haveUpdate (put_all ss s) = sy_haveUpdate s" "sy_holdoverSince (put_all ss s) = sy_holdoverSince s"
  "sy_sysName (put_all ss s) = sy_sysName s" "sy_offset (put_all ss s) = sy_offset s" "sy_sel (put_all ss s) = sy_sel s"
  by (simp_all add: put_all_def)

lemma put_all_wf:
  assumes "wf_sources s" "map ss_Name ss = sy_order s"
  shows "wf_sources (put_all ss s)" "sys_all (put_all ss s) = Some ss"
proof -
  have len: "length ss = length (sy_order s)" using assms(2) by (metis length_map)
  have d: "distinct (sy_order s)" using assms(1) by (simp add: wf_sources_def)
  have at: "sy_sources (put_all ss s) (sy_order s ! i) = Some (ss ! i)" if "i < length ss" for i
    by (rule put_all_lookup [OF d len that])
  then show "sys_all (put_all ss s) = Some ss" by (auto simp: sys_all_iff len intro!: nth_equalityI)
  have n: "ss_Name x = n" if "sy_sources (put_all ss s) n = Some x" for n x
  proof (cases "n \<in> set (sy_order s)")
    case True
    then obtain i where i: "i < length ss" "n = sy_order s ! i" by (metis in_set_conv_nth len)
    then have "x = ss ! i" using at that by simp
    then show ?thesis using i assms(2) by (metis nth_map)
  next
    case False
    then show ?thesis using that assms(1) put_all_other by (simp add: wf_sources_def)
  qed
  have "dom (sy_sources (put_all ss s)) = set (sy_order s)"
  proof (intro set_eqI iffI)
    fix n assume "n \<in> dom (sy_sources (put_all ss s))"
    then show "n \<in> set (sy_order s)" using assms(1) put_all_other [of n s ss]
      by (cases "n \<in> set (sy_order s)") (auto simp: wf_sources_def domIff)
  next
    fix n assume "n \<in> set (sy_order s)"
    then obtain i where "i < length ss" "n = sy_order s ! i" by (metis in_set_conv_nth len)
    then show "n \<in> dom (sy_sources (put_all ss s))" using at by auto
  qed
  then show "wf_sources (put_all ss s)" using d n by (simp add: wf_sources_def)
qed

lemma refresh_source_sinceStep: "ss_sinceStep (refresh_source opts now s) = ss_sinceStep s"
  by (simp add: refresh_source_def Let_def)

lemma SelectAt_keeps:
  assumes "SelectAt ss now k opts = Some (ss', sel)" "i < length ss"
  shows "ss_Name (ss' ! i) = ss_Name (ss ! i)" "ss_Jitter (ss' ! i) = ss_Jitter (ss ! i)"
    "ss_At (ss' ! i) = ss_At (ss ! i)" "ss_usedAt (ss' ! i) = ss_usedAt (ss ! i)"
    "ss_sinceStep (ss' ! i) = ss_sinceStep (ss ! i)" "ss_Valid (ss' ! i) = ss_Valid (ss ! i)"
proof -
  obtain s' ok evs where pr: "prepare_source opts now (ss ! i) = (s', ok, evs)" using prod_cases3 by blast
  obtain b st where s': "s' = (refresh_source opts now (ss ! i))\<lparr>ss_inLoop := b, ss_Status := st\<rparr>"
    using prepare_source_sound(4) [OF pr] by blast
  have c: "core (ss' ! i) = core s'" using SelectAt_facts(4) [OF assms(1)] assms(2) pr by simp
  note E = core_eq_sel [OF c]
  show "ss_Name (ss' ! i) = ss_Name (ss ! i)" unfolding E(1) by (simp add: s' refresh_source_sel)
  show "ss_Jitter (ss' ! i) = ss_Jitter (ss ! i)" unfolding E(5) by (simp add: s' refresh_source_sel)
  show "ss_At (ss' ! i) = ss_At (ss ! i)" unfolding E(10) by (simp add: s' refresh_source_sel)
  show "ss_usedAt (ss' ! i) = ss_usedAt (ss ! i)" unfolding E(11) by (simp add: s' refresh_source_sel)
  show "ss_sinceStep (ss' ! i) = ss_sinceStep (ss ! i)" unfolding E(12) by (simp add: s' refresh_source_sinceStep)
  show "ss_Valid (ss' ! i) = ss_Valid (ss ! i)" unfolding E(13) by (simp add: s' refresh_source_sel)
qed

lemma SelectAt_names: "SelectAt ss now k opts = Some (ss', sel) \<Longrightarrow> map ss_Name ss' = map ss_Name ss"
  using SelectAt_keeps(1) SelectAt_facts(1) by (metis (no_types, lifting) length_map nth_equalityI nth_map)

section \<open>What reselection does\<close>

lemma setState_fields [simp]:
  "sy_sources (fst (setState to sr)) = sy_sources (fst sr)" "sy_order (fst (setState to sr)) = sy_order (fst sr)"
  "sy_cfg (fst (setState to sr)) = sy_cfg (fst sr)" "sy_loop (fst (setState to sr)) = sy_loop (fst sr)"
  "sy_state (fst (setState to sr)) = to" "sy_postStepUpdates (fst (setState to sr)) = sy_postStepUpdates (fst sr)"
  "sy_resyncing (fst (setState to sr)) = sy_resyncing (fst sr)" "sy_haveUpdate (fst (setState to sr)) = sy_haveUpdate (fst sr)"
  "sy_unsyncedReason (fst (setState to sr)) = sy_unsyncedReason (fst sr)"
  "sy_holdoverSince (fst (setState to sr)) = sy_holdoverSince (fst sr)"
  "sy_sinceStep (fst (setState to sr)) = sy_sinceStep (fst sr)" "sy_offset (fst (setState to sr)) = sy_offset (fst sr)"
  "rs_Actions (snd (setState to sr)) = rs_Actions (snd sr)"
  "sy_sysName (fst (setState to sr)) = sy_sysName (fst sr)" "sy_sel (fst (setState to sr)) = sy_sel (fst sr)"
  "sy_everSynced (fst (setState to sr)) \<longleftrightarrow> sy_everSynced (fst sr) \<or> (to = StateSynced \<and> sy_state (fst sr) \<noteq> StateSynced)"
  by (auto simp: setState_def Let_def split: prod.split)

definition source_options :: "system \<Rightarrow> select_options" where
  "source_options s = \<lparr>so_LocalRefIDs = cf_LocalRefIDs (sy_cfg s), so_AppliedSince = Some (AppliedSince (sy_loop s))\<rparr>"

definition selected_form :: "source_state list \<Rightarrow> selection \<Rightarrow> system \<Rightarrow> system \<times> result \<Rightarrow> bool" where
  \<comment> \<open>the system with the marks of the selection on its sources, and nothing asked of the clock yet\<close>
  "selected_form ss sel s sr \<longleftrightarrow> rs_Actions (snd sr) = [] \<and>
     (\<exists>pl lp nm. fst sr = (put_all ss s)\<lparr>sy_preferLost := pl, sy_sel := sel, sy_leap := lp, sy_sysName := nm\<rparr>)"

lemma note_selection_form: "selected_form ss sel s (note_selection before ss sel now s)"
  unfolding selected_form_def note_selection_def Let_def
  by (simp, rule exI, rule exI, rule exI [of _ "sy_sysName (put_all ss s)"]) (simp add: put_all_def)

lemma note_system_form: "selected_form ss sel s sr \<Longrightarrow> selected_form ss sel s (note_system name sr)"
proof -
  assume a: "selected_form ss sel s sr"
  then obtain pl lp nm where f: "fst sr = (put_all ss s)\<lparr>sy_preferLost := pl, sy_sel := sel, sy_leap := lp, sy_sysName := nm\<rparr>"
    by (auto simp: selected_form_def)
  show ?thesis
  proof (cases "name = sy_sysName (fst sr)")
    case True
    then show ?thesis using a by (cases sr) (simp add: note_system_def)
  next
    case False
    then have "fst (note_system name sr) = (put_all ss s)\<lparr>sy_preferLost := pl, sy_sel := sel, sy_leap := lp, sy_sysName := name\<rparr>"
      "rs_Actions (snd (note_system name sr)) = rs_Actions (snd sr)"
      using f by (cases sr; simp add: note_system_def add_event_def)+
    then show ?thesis using a unfolding selected_form_def by metis
  qed
qed

lemma note_system_name: "sy_sysName (fst (note_system name sr)) = name"
  by (cases sr) (simp add: note_system_def)

text \<open>The three ways through reselection: no system source, no new sample of it, or one loop update.\<close>

lemma reselect_cases:
  assumes "reselect s now = Some (s', res)" "wf_sources s"
  obtains before ss sel sr where
    "sys_all s = Some before" "SelectAt before now (cf_MinSurvivors (sy_cfg s)) (source_options s) = Some (ss, sel)"
    "map ss_Name ss = sy_order s" "map ss_Name before = sy_order s" "selected_form ss sel s sr"
    "(sel_System sel = None \<and> (s', res) = lose_system now sr) \<or>
     (\<exists>i. sel_System sel = Some i \<and> sy_sysName (fst sr) = ss_Name (ss ! i) \<and> i < length ss \<and> i \<in> set (sel_Survivors sel) \<and>
        (if ss_At (ss ! i) \<le> ss_usedAt (ss ! i) then (s', res) = no_new_sample sr
         else (s', res) = feed_loop ss sel i now sr))"
proof -
  obtain before where b: "sys_all s = Some before" "map ss_Name before = sy_order s" using sys_all_wf [OF assms(2)] by blast
  obtain ss sel where sel: "SelectAt before now (cf_MinSurvivors (sy_cfg s)) (source_options s) = Some (ss, sel)"
    using assms(1) by (auto simp: reselect_def b source_options_def split: option.splits)
  have nm: "map ss_Name ss = sy_order s" using SelectAt_names [OF sel] b by simp
  note run = assms(1) [unfolded reselect_def b(1) option.case source_options_def [symmetric] sel prod.case Let_def]
  note form = note_selection_form [of ss sel s before now]
  show thesis
  proof (cases "sel_System sel")
    case None
    then have "(s', res) = lose_system now (note_selection before ss sel now s)" using run by simp
    then show thesis by (intro that [OF b(1) sel nm b(2) form disjI1] conjI None)
  next
    case (Some i)
    have i: "i \<in> set (sel_Survivors sel)" using SelectAt_facts(7) [OF sel Some] .
    moreover have "i < length ss" using SelectAt_facts(1,3) [OF sel] i by simp
    moreover have "sy_sysName (fst (note_system (ss_Name (ss ! i)) (note_selection before ss sel now s))) = ss_Name (ss ! i)"
      by (rule note_system_name)
    moreover have "if ss_At (ss ! i) \<le> ss_usedAt (ss ! i) then (s', res) = no_new_sample (note_system (ss_Name (ss ! i)) (note_selection before ss sel now s))
      else (s', res) = feed_loop ss sel i now (note_system (ss_Name (ss ! i)) (note_selection before ss sel now s))"
      using run Some by (simp split: if_splits)
    ultimately show thesis using Some
      by (intro that [OF b(1) sel nm b(2) note_system_form [OF form, of "ss_Name (ss ! i)"] disjI2]) blast
  qed
qed

section \<open>Invariants of the state machine\<close>

definition mode_ok :: "system \<Rightarrow> bool" where
  \<comment> \<open>what is served as synchronized has been synchronized since the last step\<close>
  "mode_ok s \<longleftrightarrow> (sy_state s \<in> {StateSynced, StateHoldover} \<longrightarrow> sy_everSynced s) \<and> (sy_everSynced s \<longrightarrow> sy_postStepUpdates s \<ge> 1) \<and>
     (sy_resyncing s \<longrightarrow> sy_everSynced s) \<and> (sy_postStepUpdates s \<ge> 1 \<longrightarrow> sy_haveUpdate s) \<and>
     sy_unsyncedReason s \<in> {KissINIT, KissPANC, KissHOLD}"

lemma mode_ok_selected: "selected_form ss sel s sr \<Longrightarrow> mode_ok (fst sr) = mode_ok s"
  unfolding selected_form_def by (elim conjE exE) (simp add: mode_ok_def)

lemma mode_ok_setState:
  assumes "mode_ok (fst sr)" "to \<in> {StateSynced, StateHoldover} \<longrightarrow> sy_postStepUpdates (fst sr) \<ge> 1"
    "to = StateHoldover \<longrightarrow> sy_everSynced (fst sr)"
  shows "mode_ok (fst (setState to sr))"
  using assms by (cases "sy_state (fst sr) = to") (auto simp: mode_ok_def)

lemma mode_ok_lose: "mode_ok (fst sr) \<Longrightarrow> mode_ok (fst (lose_system now sr))"
  by (cases sr) (auto simp: lose_system_def Let_def mode_ok_def)

lemma settleDone_post: "settleDone s x \<Longrightarrow> sy_postStepUpdates s \<ge> 1"
  by (auto simp: settleDone_def split: if_splits)

lemma mode_ok_no_new_sample:
  assumes "mode_ok (fst sr)"
  shows "mode_ok (fst (no_new_sample sr))"
proof -
  define sr1 where "sr1 = (if sy_state (fst sr) = StateHoldover then setState StateSettling sr else sr)"
  have "mode_ok (fst sr1)" using assms by (auto simp: sr1_def intro!: mode_ok_setState)
  moreover have "no_new_sample sr = (if sy_state (fst sr1) = StateSettling \<and> settleDone (fst sr1) (sy_offset (fst sr1))
      then setState StateSynced sr1 else sr1)"
    by (cases sr1) (simp add: no_new_sample_def sr1_def [symmetric])
  ultimately show ?thesis using settleDone_post [of "fst sr1"] by (auto intro!: mode_ok_setState)
qed

lemma mode_ok_after_step: "mode_ok (fst sr) \<Longrightarrow> mode_ok (system_vars src j now (fst (after_step ss x sr)))"
  by (cases sr) (auto simp: after_step_def system_vars_def Let_def mode_ok_def)

lemma mode_ok_after_update: "mode_ok (fst sr) \<Longrightarrow> mode_ok (system_vars src j now (fst (after_update x sr)))"
  by (cases sr) (auto simp: after_update_def system_vars_def Let_def mode_ok_def)

text \<open>The parts of \<open>feed_loop\<close>: the marked system, the loop's answer, and what follows it.\<close>

definition use_sample :: "source_state list \<Rightarrow> nat \<Rightarrow> source_state list" where
  "use_sample ss i = ss[i := (ss ! i)\<lparr>ss_usedAt := ss_At (ss ! i)\<rparr>]"

definition loop_answer :: "source_state list \<Rightarrow> selection \<Rightarrow> nat \<Rightarrow> f64 \<Rightarrow> system \<Rightarrow> loop \<times> update_result" where
  "loop_answer ss sel i now s = loop_Update (sy_loop s) (sel_Offset sel) (ss_Poll (use_sample ss i ! i)) now (sy_state s = StateSynced)
     (sys_mayStep s (use_sample ss i) (sel_Survivors sel) i)"

lemma feed_loop_cases:
  assumes "feed_loop ss sel i now sr = (s', res')" "loop_answer ss sel i now (fst sr) = (l, u)"
    and s1_def: "s1 = (put_all (use_sample ss i) (fst sr))\<lparr>sy_loop := l\<rparr>"
    and r1_def: "r1 = (snd sr)\<lparr>rs_Actions := rs_Actions (snd sr) @ ur_Actions u\<rparr>"
  obtains
    (deferred) "ur_Deferred u" "s' = s1" "res' = r1"
  | (panic) "ur_PanicRefused u" "\<not> ur_Deferred u" "(s', res') = setState StateUnsynced (s1\<lparr>sy_unsyncedReason := KissPANC\<rparr>, add_event (mk_event EventPanicRefused [] (sel_Offset sel)) r1)"
  | (spike) "ur_Ignored u" "\<not> ur_Deferred u" "\<not> ur_PanicRefused u" "s' = s1" "res' = add_event (mk_event EventPopcorn [] (sel_Offset sel)) r1"
  | (stepped) "ur_Stepped u" "\<not> ur_Deferred u" "\<not> ur_PanicRefused u" "\<not> ur_Ignored u"
      "s' = system_vars (use_sample ss i ! i) (sel_Jitter sel) now (fst (after_step (use_sample ss i) (sel_Offset sel) (s1, r1)))"
      "res' = snd (after_step (use_sample ss i) (sel_Offset sel) (s1, r1))"
  | (slewed) "\<not> ur_Stepped u" "\<not> ur_Deferred u" "\<not> ur_PanicRefused u" "\<not> ur_Ignored u"
      "s' = system_vars (use_sample ss i ! i) (sel_Jitter sel) now (fst (after_update (sel_Offset sel) (s1, r1)))"
      "res' = snd (after_update (sel_Offset sel) (s1, r1))"
proof -
  obtain s res where sr: "sr = (s, res)" by force
  have mayStep: "sys_mayStep (put_all x s) y v i = sys_mayStep s y v i" for x y v by (simp add: sys_mayStep_def)
  have la: "loop_Update (sy_loop s) (sel_Offset sel) (ss_Poll (use_sample ss i ! i)) now (sy_state s = StateSynced)
      (sys_mayStep s (use_sample ss i) (sel_Survivors sel) i) = (l, u)"
    using assms(2) by (simp add: loop_answer_def sr)
  note run = assms(1) [unfolded feed_loop_def sr prod.case Let_def use_sample_def [symmetric] put_all_fields mayStep la]
  have s1: "s1 = (put_all (use_sample ss i) s)\<lparr>sy_loop := l\<rparr>" and r1: "r1 = res\<lparr>rs_Actions := rs_Actions res @ ur_Actions u\<rparr>"
    by (simp_all add: s1_def r1_def sr)
  note run = run [unfolded prod.case s1 [symmetric] r1 [symmetric]]
  consider "ur_Deferred u" | "\<not> ur_Deferred u" "ur_PanicRefused u" | "\<not> ur_Deferred u" "\<not> ur_PanicRefused u" "ur_Ignored u"
    | "\<not> ur_Deferred u" "\<not> ur_PanicRefused u" "\<not> ur_Ignored u" "ur_Stepped u"
    | "\<not> ur_Deferred u" "\<not> ur_PanicRefused u" "\<not> ur_Ignored u" "\<not> ur_Stepped u" by blast
  then show thesis
  proof cases
    case 1 then show thesis using run by (intro deferred) simp_all
  next
    case 2 then show thesis using run by (intro panic) simp_all
  next
    case 3 then show thesis using run by (intro spike) simp_all
  next
    case 4 then show thesis using run by (intro stepped) (simp_all split: prod.splits)
  next
    case 5 then show thesis using run by (intro slewed) (simp_all split: prod.splits)
  qed
qed

lemma mode_ok_feed:
  assumes "mode_ok (fst sr)" "feed_loop ss sel i now sr = (s', res')"
  shows "mode_ok s'"
proof -
  obtain l u where la: "loop_answer ss sel i now (fst sr) = (l, u)" by force
  define s1 where "s1 = (put_all (use_sample ss i) (fst sr))\<lparr>sy_loop := l\<rparr>"
  have ok: "mode_ok s1" using assms(1) by (simp add: s1_def mode_ok_def)
  have panc: "mode_ok (s1\<lparr>sy_unsyncedReason := KissPANC\<rparr>)" using ok by (simp add: mode_ok_def)
  show ?thesis
    using assms(2) la s1_def refl
  proof (cases rule: feed_loop_cases)
    case panic
    then have "s' = fst (setState StateUnsynced (s1\<lparr>sy_unsyncedReason := KissPANC\<rparr>,
      add_event (mk_event EventPanicRefused [] (sel_Offset sel)) ((snd sr)\<lparr>rs_Actions := rs_Actions (snd sr) @ ur_Actions u\<rparr>)))"
      by (metis fst_conv)
    then show ?thesis using panc by (simp add: mode_ok_setState)
  qed (use ok in \<open>simp_all add: mode_ok_after_step mode_ok_after_update\<close>)
qed

lemma mode_ok_reselect:
  assumes "mode_ok s" "wf_sources s" "reselect s now = Some (s', res)"
  shows "mode_ok s'"
proof -
  obtain before ss sel sr where f: "selected_form ss sel s sr"
    and c: "(sel_System sel = None \<and> (s', res) = lose_system now sr) \<or>
     (\<exists>i. sel_System sel = Some i \<and> sy_sysName (fst sr) = ss_Name (ss ! i) \<and> i < length ss \<and> i \<in> set (sel_Survivors sel) \<and>
        (if ss_At (ss ! i) \<le> ss_usedAt (ss ! i) then (s', res) = no_new_sample sr
         else (s', res) = feed_loop ss sel i now sr))"
    by (rule reselect_cases [OF assms(3,2)])
  have "mode_ok (fst sr)" using mode_ok_selected [OF f] assms(1) by simp
  then show ?thesis using c mode_ok_lose mode_ok_no_new_sample mode_ok_feed
    by (metis fst_conv)
qed

section \<open>Sources and loop after a reselection\<close>

lemma use_sample_names: "map ss_Name (use_sample ss i) = map ss_Name ss"
  by (cases "i < length ss") (auto simp: use_sample_def map_update list_update_same_conv list_update_beyond)

lemma use_sample_nth:
  "j < length ss \<Longrightarrow> use_sample ss i ! j = (if i = j then (ss ! j)\<lparr>ss_usedAt := ss_At (ss ! j)\<rparr> else ss ! j)"
  "length (use_sample ss i) = length ss"
  by (auto simp: use_sample_def nth_list_update)

lemma invalidate_names: "map ss_Name (map invalidate ss) = map ss_Name ss"
  by (simp add: invalidate_def)

lemma loop_Update_flags:
  assumes "loop_Update l offset poll now synced mayStep = (l', u)"
  shows "ur_Stepped u \<Longrightarrow> \<not> ur_Deferred u \<and> \<not> ur_PanicRefused u \<and> \<not> ur_Ignored u \<and> mayStep \<and> step_wanted l offset"
    and "\<not> ur_Stepped u \<Longrightarrow> ur_Actions u = []"
    and "ur_Deferred u \<or> ur_PanicRefused u \<or> ur_Ignored u \<Longrightarrow> l' = l"
    and "l_Updates l \<le> l_Updates l'"
  using assms by (auto simp: loop_Update_def step_wanted_def Let_def zero_result_def loop_step_def elapsed_def
      update_freq_fields update_jitter_fields split: if_splits)

lemma loop_answer_selected: "selected_form ss sel0 s sr \<Longrightarrow> loop_answer ss sel i now (fst sr) = loop_answer ss sel i now s"
  by (auto simp: selected_form_def loop_answer_def sys_mayStep_def)

definition same_sources :: "system \<Rightarrow> system \<Rightarrow> bool" where
  "same_sources s t \<longleftrightarrow> sy_sources s = sy_sources t \<and> sy_order s = sy_order t \<and> sy_cfg s = sy_cfg t"

lemma same_sources_wf: "same_sources s t \<Longrightarrow> wf_sources s = wf_sources t \<and> sys_all s = sys_all t"
  by (simp add: same_sources_def wf_sources_def sys_all_def)

lemma selected_sources: "selected_form ss sel s sr \<Longrightarrow> same_sources (fst sr) (put_all ss s) \<and> sy_loop (fst sr) = sy_loop s"
  by (auto simp: selected_form_def same_sources_def)

lemma lose_system_sources:
  "same_sources (fst (lose_system now sr)) (fst sr) \<and> sy_loop (fst (lose_system now sr)) = sy_loop (fst sr) \<and>
   rs_Actions (snd (lose_system now sr)) = rs_Actions (snd sr)"
  by (cases sr) (simp add: lose_system_def same_sources_def Let_def)

lemma no_new_sample_sources:
  "same_sources (fst (no_new_sample sr)) (fst sr) \<and> sy_loop (fst (no_new_sample sr)) = sy_loop (fst sr) \<and>
   rs_Actions (snd (no_new_sample sr)) = rs_Actions (snd sr)"
proof -
  define sr1 where "sr1 = (if sy_state (fst sr) = StateHoldover then setState StateSettling sr else sr)"
  have "no_new_sample sr = (if sy_state (fst sr1) = StateSettling \<and> settleDone (fst sr1) (sy_offset (fst sr1))
      then setState StateSynced sr1 else sr1)"
    by (cases sr1) (simp add: no_new_sample_def sr1_def [symmetric])
  then show ?thesis by (simp add: sr1_def same_sources_def)
qed

lemma system_vars_fields [simp]:
  "sy_sources (system_vars src j now s) = sy_sources s" "sy_order (system_vars src j now s) = sy_order s"
  "sy_cfg (system_vars src j now s) = sy_cfg s" "sy_loop (system_vars src j now s) = sy_loop s"
  "sy_state (system_vars src j now s) = sy_state s" "sy_everSynced (system_vars src j now s) = sy_everSynced s"
  "sy_postStepUpdates (system_vars src j now s) = sy_postStepUpdates s" "sy_offset (system_vars src j now s) = sy_offset s"
  "sy_resyncing (system_vars src j now s) = sy_resyncing s"
  by (simp_all add: system_vars_def)

lemma after_step_fields:
  "same_sources (fst (after_step ss x sr)) (put_all (map invalidate ss) (fst sr)) \<and> sy_loop (fst (after_step ss x sr)) = sy_loop (fst sr) \<and>
   rs_Actions (snd (after_step ss x sr)) = rs_Actions (snd sr) \<and> sy_state (fst (after_step ss x sr)) = StateSettling \<and>
   \<not> sy_everSynced (fst (after_step ss x sr)) \<and> sy_postStepUpdates (fst (after_step ss x sr)) = 0 \<and>
   sy_offset (fst (after_step ss x sr)) = Fin 0"
  by (cases sr) (simp add: after_step_def add_event_def same_sources_def Let_def)

lemma after_update_fields:
  "same_sources (fst (after_update x sr)) (fst sr) \<and> sy_loop (fst (after_update x sr)) = sy_loop (fst sr) \<and>
   rs_Actions (snd (after_update x sr)) = rs_Actions (snd sr)"
  by (cases sr) (simp add: after_update_def same_sources_def Let_def)

lemma same_sources_trans: "same_sources a b \<Longrightarrow> same_sources b c \<Longrightarrow> same_sources a c"
  by (simp add: same_sources_def)

lemma put_all_again:
  assumes "length ss = length (sy_order s)" "length ss' = length (sy_order s)" "same_sources t (put_all ss s)"
  shows "same_sources (put_all ss' t) (put_all ss' s)"
proof -
  have "sy_sources s ++ map_of (zip (sy_order s) ss) ++ map_of (zip (sy_order s) ss') = sy_sources s ++ map_of (zip (sy_order s) ss')"
  proof
    fix n
    have "(map_of (zip (sy_order s) ss) n = None) = (map_of (zip (sy_order s) ss') n = None)"
      using assms(1,2) by (metis map_of_zip_is_None)
    then show "(sy_sources s ++ map_of (zip (sy_order s) ss) ++ map_of (zip (sy_order s) ss')) n =
        (sy_sources s ++ map_of (zip (sy_order s) ss')) n"
      by (auto simp: map_add_def split: option.splits)
  qed
  then show ?thesis using assms(3) by (simp add: same_sources_def put_all_def)
qed

definition reselected :: "system \<Rightarrow> f64 \<Rightarrow> system \<Rightarrow> result \<Rightarrow> source_state list \<Rightarrow> source_state list \<Rightarrow> selection \<Rightarrow> bool" where
  "reselected s now s' res before ss sel \<longleftrightarrow>
     sys_all s = Some before \<and> SelectAt before now (cf_MinSurvivors (sy_cfg s)) (source_options s) = Some (ss, sel) \<and>
     length ss = length before \<and> wf_sources s' \<and> sy_order s' = sy_order s \<and> sy_cfg s' = sy_cfg s \<and>
     ((sys_all s' = Some ss \<and> sy_loop s' = sy_loop s \<and> rs_Actions res = []) \<or>
      (\<exists>i u. sel_System sel = Some i \<and> sy_sel s' = sel \<and> sy_sysName s' = ss_Name (ss ! i) \<and> i < length ss \<and> i \<in> set (sel_Survivors sel) \<and> \<not> ss_At (ss ! i) \<le> ss_usedAt (ss ! i) \<and>
         loop_answer ss sel i now s = (sy_loop s', u) \<and> rs_Actions res = ur_Actions u \<and>
         (if ur_Stepped u then sys_all s' = Some (map invalidate (use_sample ss i)) \<and> sy_state s' = StateSettling \<and>
            \<not> sy_everSynced s' \<and> sy_postStepUpdates s' = 0 \<and> sy_offset s' = Fin 0
          else sys_all s' = Some (use_sample ss i))))"

lemma feed_loop_system:
  assumes "feed_loop ss sel i now sr = (s', res)"
  shows "sy_sysName s' = sy_sysName (fst sr)" "sy_sel s' = sy_sel (fst sr)"
proof -
  obtain l u where la: "loop_answer ss sel i now (fst sr) = (l, u)" by force
  define s1 where "s1 = (put_all (use_sample ss i) (fst sr))\<lparr>sy_loop := l\<rparr>"
  define r1 where "r1 = (snd sr)\<lparr>rs_Actions := rs_Actions (snd sr) @ ur_Actions u\<rparr>"
  have s1: "sy_sysName s1 = sy_sysName (fst sr)" "sy_sel s1 = sy_sel (fst sr)" by (simp_all add: s1_def)
  have "sy_sysName s' = sy_sysName (fst sr) \<and> sy_sel s' = sy_sel (fst sr)"
    using assms la s1_def r1_def
  proof (cases rule: feed_loop_cases)
    case panic
    then have "s' = fst (setState StateUnsynced (s1\<lparr>sy_unsyncedReason := KissPANC\<rparr>, add_event (mk_event EventPanicRefused [] (sel_Offset sel)) r1))"
      by (metis fst_conv)
    then show ?thesis using s1 by simp
  qed (use s1 in \<open>simp_all add: system_vars_def after_step_def after_update_def Let_def\<close>)
  then show "sy_sysName s' = sy_sysName (fst sr)" "sy_sel s' = sy_sel (fst sr)" by blast+
qed

lemma feed_loop_sources:
  assumes wf: "wf_sources s" and nm: "map ss_Name ss = sy_order s" and form: "selected_form ss sel s sr"
    and run: "feed_loop ss sel i now sr = (s', res)" and la: "loop_answer ss sel i now s = (l, u)"
  shows "sy_loop s' = l \<and> rs_Actions res = ur_Actions u \<and>
    (if ur_Stepped u then same_sources s' (put_all (map invalidate (use_sample ss i)) s) \<and> sy_state s' = StateSettling \<and>
        \<not> sy_everSynced s' \<and> sy_postStepUpdates s' = 0 \<and> sy_offset s' = Fin 0
     else same_sources s' (put_all (use_sample ss i) s))"
proof -
  define s1 where "s1 = (put_all (use_sample ss i) (fst sr))\<lparr>sy_loop := l\<rparr>"
  define r1 where "r1 = (snd sr)\<lparr>rs_Actions := rs_Actions (snd sr) @ ur_Actions u\<rparr>"
  have len: "length ss = length (sy_order s)" using nm by (metis length_map)
  have sel: "same_sources (fst sr) (put_all ss s)" using selected_sources [OF form] by blast
  have s1: "same_sources s1 (put_all (use_sample ss i) s)" "sy_loop s1 = l"
    using put_all_again [OF len _ sel, of "use_sample ss i"] len
    by (simp_all add: s1_def same_sources_def use_sample_nth)
  have inv: "same_sources (put_all (map invalidate (use_sample ss i)) s1) (put_all (map invalidate (use_sample ss i)) s)"
    using put_all_again [OF _ _ s1(1), of "map invalidate (use_sample ss i)"] len by (simp add: use_sample_nth)
  have r1: "rs_Actions r1 = ur_Actions u" using form by (simp add: r1_def selected_form_def)
  have la': "loop_answer ss sel i now (fst sr) = (l, u)" using la loop_answer_selected [OF form] by simp
  have flags: "ur_Stepped u \<Longrightarrow> \<not> ur_Deferred u \<and> \<not> ur_PanicRefused u \<and> \<not> ur_Ignored u"
    using loop_Update_flags(1) la unfolding loop_answer_def by blast
  show ?thesis
    using run la' s1_def r1_def
  proof (cases rule: feed_loop_cases)
    case panic
    then have "s' = fst (setState StateUnsynced (s1\<lparr>sy_unsyncedReason := KissPANC\<rparr>, add_event (mk_event EventPanicRefused [] (sel_Offset sel)) r1))"
      "res = snd (setState StateUnsynced (s1\<lparr>sy_unsyncedReason := KissPANC\<rparr>, add_event (mk_event EventPanicRefused [] (sel_Offset sel)) r1))"
      by (metis fst_conv, metis snd_conv)
    then show ?thesis using panic flags s1 r1 by (auto simp: same_sources_def add_event_def)
  next
    case stepped
    then show ?thesis using after_step_fields [of "use_sample ss i" "sel_Offset sel" "(s1, r1)"] s1 r1 inv
      by (simp add: same_sources_def)
  next
    case slewed
    then show ?thesis using after_update_fields [of "sel_Offset sel" "(s1, r1)"] s1 r1 by (simp add: same_sources_def)
  qed (use s1 r1 flags in \<open>auto simp: add_event_def\<close>)
qed

lemma reselect_reselected:
  assumes "reselect s now = Some (s', res)" "wf_sources s"
  shows "\<exists>before ss sel. reselected s now s' res before ss sel"
proof -
  obtain before ss sel sr where b: "sys_all s = Some before"
    and sel: "SelectAt before now (cf_MinSurvivors (sy_cfg s)) (source_options s) = Some (ss, sel)"
    and nm: "map ss_Name ss = sy_order s" "map ss_Name before = sy_order s" and f: "selected_form ss sel s sr"
    and c: "(sel_System sel = None \<and> (s', res) = lose_system now sr) \<or>
     (\<exists>i. sel_System sel = Some i \<and> sy_sysName (fst sr) = ss_Name (ss ! i) \<and> i < length ss \<and> i \<in> set (sel_Survivors sel) \<and>
        (if ss_At (ss ! i) \<le> ss_usedAt (ss ! i) then (s', res) = no_new_sample sr
         else (s', res) = feed_loop ss sel i now sr))"
    by (rule reselect_cases [OF assms])
  note base = selected_sources [OF f]
  have len: "length ss = length before" using nm by (metis length_map)
  have put: "wf_sources s' \<and> sys_all s' = Some ss' \<and> sy_order s' = sy_order s \<and> sy_cfg s' = sy_cfg s"
    if "same_sources s' (put_all ss' s)" "map ss_Name ss' = sy_order s" for ss'
    using put_all_wf [OF assms(2) that(2)] same_sources_wf [OF that(1)] that(1) by (simp add: same_sources_def)
  show ?thesis
  proof (cases "\<exists>i. sel_System sel = Some i \<and> \<not> ss_At (ss ! i) \<le> ss_usedAt (ss ! i)")
    case True
    then obtain i where i: "i < length ss" "i \<in> set (sel_Survivors sel)" "\<not> ss_At (ss ! i) \<le> ss_usedAt (ss ! i)"
      "feed_loop ss sel i now sr = (s', res)" "sel_System sel = Some i" "sy_sysName (fst sr) = ss_Name (ss ! i)" using c by auto
    have sy: "sy_sel s' = sel" "sy_sysName s' = ss_Name (ss ! i)"
      using feed_loop_system [OF i(4)] i(6) f by (auto simp: selected_form_def)
    obtain l u where la: "loop_answer ss sel i now s = (l, u)" by force
    note F = feed_loop_sources [OF assms(2) nm(1) f i(4) la]
    have n2: "map ss_Name (use_sample ss i) = sy_order s" using use_sample_names nm(1) by simp
    have n1: "map ss_Name (map invalidate (use_sample ss i)) = sy_order s" unfolding invalidate_names by (rule n2)
    have W: "wf_sources s'" "sy_order s' = sy_order s" "sy_cfg s' = sy_cfg s"
      "if ur_Stepped u then sys_all s' = Some (map invalidate (use_sample ss i)) \<and> sy_state s' = StateSettling \<and>
            \<not> sy_everSynced s' \<and> sy_postStepUpdates s' = 0 \<and> sy_offset s' = Fin 0
          else sys_all s' = Some (use_sample ss i)"
      using F put [OF _ n1] put [OF _ n2] by (cases "ur_Stepped u"; simp)+
    have "loop_answer ss sel i now s = (sy_loop s', u)" "rs_Actions res = ur_Actions u" using F la by simp_all
    then show ?thesis unfolding reselected_def
      by (intro exI [of _ before] exI [of _ ss] exI [of _ sel] conjI disjI2 exI [of _ i] exI [of _ u]
          b sel len W sy i(1-3,5))
  next
    case False
    then have "(s', res) = lose_system now sr \<or> (s', res) = no_new_sample sr" using c by auto
    then have "same_sources s' (fst sr) \<and> sy_loop s' = sy_loop (fst sr) \<and> rs_Actions res = rs_Actions (snd sr)"
      using lose_system_sources [of now sr] no_new_sample_sources [of sr] by (metis fst_conv snd_conv)
    then have "same_sources s' (put_all ss s) \<and> sy_loop s' = sy_loop s \<and> rs_Actions res = []"
      using base f same_sources_trans by (auto simp: selected_form_def)
    then show ?thesis using put [OF _ nm(1)] b sel len unfolding reselected_def by blast
  qed
qed

section \<open>Runs of the system\<close>

datatype sys_op = Op_Add string options | Op_Remove string f64 | Op_Invalidate f64 | Op_Resync f64
  | Op_Update measurement | Op_Tick f64

fun sys_apply :: "system \<Rightarrow> sys_op \<Rightarrow> (system \<times> result) option" where
  "sys_apply s (Op_Add name opts) = Some (AddSource s name opts, no_result)"
| "sys_apply s (Op_Remove name now) = RemoveSource s name now"
| "sys_apply s (Op_Invalidate now) = InvalidateSources s now"
| "sys_apply s (Op_Resync now) = Resync s now"
| "sys_apply s (Op_Update m) = sys_Update s m"
| "sys_apply s (Op_Tick now) = sys_Tick s now"

definition steps_clock :: "result \<Rightarrow> bool" where
  "steps_clock res \<longleftrightarrow> (\<exists>a \<in> set (rs_Actions res). ac_Kind a = ActionStep)"

definition new_evidence :: "system \<Rightarrow> sys_op \<Rightarrow> nat" where
  \<comment> \<open>one for a valid measurement of a registered source\<close>
  "new_evidence s opr = (case opr of Op_Update m \<Rightarrow> if me_Valid m \<and> sy_sources s (me_Source m) \<noteq> None then 1 else 0 | _ \<Rightarrow> 0)"

text \<open>
  A run of the system: any operations in any order, with any measurements and times. The number counts the
  valid measurements of registered sources received since the last step.
\<close>

inductive sys_run :: "sys_config \<Rightarrow> system \<Rightarrow> nat \<Rightarrow> bool" for cfg where
  sys_run_new: "sys_run cfg (sys_New cfg freq known) 0"
| sys_run_op: "sys_run cfg s n \<Longrightarrow> sys_apply s opr = Some (s', res) \<Longrightarrow>
    sys_run cfg s' (if steps_clock res then 0 else n + new_evidence s opr)"

text \<open>An operation changes the sources and then reselects, except for registration.\<close>

definition prepared :: "system \<Rightarrow> sys_op \<Rightarrow> system" where
  "prepared s opr =
     (case opr of
        Op_Add name opts \<Rightarrow> AddSource s name opts
      | Op_Remove name now \<Rightarrow>
          if sy_sources s name = None then s
          else s\<lparr>sy_sources := (sy_sources s)(name := None), sy_order := remove1 name (sy_order s)\<rparr>
      | Op_Invalidate now \<Rightarrow> put_all (map invalidate (the (sys_all s))) s
      | Op_Resync now \<Rightarrow> (put_all (map invalidate (the (sys_all s))) s)\<lparr>sy_resyncing := (sy_state s = StateSynced \<or> sy_state s = StateHoldover)\<rparr>
      | Op_Update m \<Rightarrow>
          (case sy_sources s (me_Source m) of None \<Rightarrow> s
           | Some src \<Rightarrow> s\<lparr>sy_sources := (sy_sources s)(me_Source m \<mapsto> apply_measurement src m),
               sy_sinceStep := (if me_Source m = sy_sysName s \<and> IsAcquisition m then sy_sinceStep s + 1 else sy_sinceStep s)\<rparr>)
      | Op_Tick now \<Rightarrow> s)"

definition op_time :: "sys_op \<Rightarrow> f64" where
  "op_time opr = (case opr of Op_Add _ _ \<Rightarrow> Fin 0 | Op_Remove _ now \<Rightarrow> now | Op_Invalidate now \<Rightarrow> now | Op_Resync now \<Rightarrow> now
     | Op_Update m \<Rightarrow> me_Now m | Op_Tick now \<Rightarrow> now)"

lemma apply_leap_fields:
  "ss_Name (apply_leap s m) = ss_Name s" "ss_Jitter (apply_leap s m) = ss_Jitter s" "ss_usedAt (apply_leap s m) = ss_usedAt s"
  "ss_sinceStep (apply_leap s m) = ss_sinceStep s"
  by (simp_all add: apply_leap_def Let_def)

lemma apply_measurement_fields:
  "ss_Name (apply_measurement x m) = ss_Name x" "ss_usedAt (apply_measurement x m) = ss_usedAt x"
  "ss_sinceStep (apply_measurement x m) = (if me_Valid m then ss_sinceStep x + 1 else ss_sinceStep x)"
  "ss_Jitter (apply_measurement x m) = (if me_Valid m then me_Jitter m else ss_Jitter x)"
  by (simp_all add: apply_measurement_def Let_def apply_leap_fields)

lemma invalidate_fields:
  "ss_Name (invalidate x) = ss_Name x" "ss_usedAt (invalidate x) = ss_usedAt x" "ss_Jitter (invalidate x) = ss_Jitter x"
  "ss_sinceStep (invalidate x) = 0" "\<not> ss_Valid (invalidate x)" "ss_At (invalidate x) = ss_At x"
  by (simp_all add: invalidate_def)

lemma wf_AddSource: "wf_sources s \<Longrightarrow> wf_sources (AddSource s name opts)"
  by (auto simp: wf_sources_def AddSource_def new_source_def)

lemma wf_prepared:
  assumes "wf_sources s"
  shows "wf_sources (prepared s opr)"
proof (cases opr)
  case (Op_Add name opts)
  then show ?thesis using wf_AddSource [OF assms] by (simp add: prepared_def)
next
  case (Op_Remove name now)
  then show ?thesis using assms by (auto simp: prepared_def wf_sources_def)
next
  case (Op_Invalidate now)
  obtain ss where "sys_all s = Some ss" "map ss_Name ss = sy_order s" using sys_all_wf [OF assms] .
  then show ?thesis using put_all_wf(1) [OF assms, of "map invalidate ss"] Op_Invalidate by (simp add: prepared_def invalidate_fields comp_def)
next
  case (Op_Resync now)
  obtain ss where "sys_all s = Some ss" "map ss_Name ss = sy_order s" using sys_all_wf [OF assms] .
  then show ?thesis using put_all_wf(1) [OF assms, of "map invalidate ss"] Op_Resync
    by (simp add: prepared_def invalidate_fields comp_def wf_sources_def)
next
  case (Op_Update m)
  then show ?thesis using assms
    by (auto simp: prepared_def wf_sources_def apply_measurement_fields split: option.split)
next
  case (Op_Tick now)
  then show ?thesis using assms by (simp add: prepared_def)
qed

text \<open>Every operation is the change, one reselection, and for a tick the loop's tick and the holdover timeout.\<close>

lemma sys_apply_cases:
  assumes "sys_apply s opr = Some (s', res)" "wf_sources s"
  obtains
    (unchanged) "s' = prepared s opr" "rs_Actions res = []" "new_evidence s opr = 0" "\<forall>now. opr \<noteq> Op_Tick now"
  | (reselected) "reselect (prepared s opr) (op_time opr) = Some (s', res)" "\<forall>now. opr \<noteq> Op_Tick now"
  | (ticked) now s1 res1 where "opr = Op_Tick now" "reselect s now = Some (s1, res1)"
      "s' = (if sy_state s1 = StateHoldover \<and> now - sy_holdoverSince s1 > cf_HoldoverMax (sy_cfg s1)
             then s1\<lparr>sy_loop := fst (loop_Tick (sy_loop s1) now), sy_unsyncedReason := KissHOLD, sy_state := StateUnsynced\<rparr>
             else s1\<lparr>sy_loop := fst (loop_Tick (sy_loop s1) now)\<rparr>)"
      "rs_Actions res = snd (loop_Tick (sy_loop s1) now) @ rs_Actions res1"
proof (cases opr)
  case (Op_Add name opts)
  then show thesis using assms(1) by (intro unchanged) (auto simp: prepared_def no_result_def new_evidence_def)
next
  case (Op_Remove name now)
  then show thesis using assms(1) unchanged reselected
    by (cases "sy_sources s name = None") (auto simp: prepared_def no_result_def RemoveSource_def op_time_def new_evidence_def)
next
  case (Op_Invalidate now)
  obtain ss where "sys_all s = Some ss" using sys_all_wf [OF assms(2)] .
  then show thesis using assms(1) Op_Invalidate by (intro reselected) (simp_all add: prepared_def InvalidateSources_def op_time_def)
next
  case (Op_Resync now)
  obtain ss where "sys_all s = Some ss" using sys_all_wf [OF assms(2)] .
  then show thesis using assms(1) Op_Resync by (intro reselected) (simp_all add: prepared_def Resync_def op_time_def)
next
  case (Op_Update m)
  show thesis
  proof (cases "sy_sources s (me_Source m)")
    case None
    then show thesis using assms(1) Op_Update
      by (intro unchanged) (auto simp: prepared_def sys_Update_def new_evidence_def)
  next
    case (Some src)
    then have "reselect (prepared s opr) (op_time opr) = Some (s', res)" using assms(1) Op_Update
      by (cases "me_Source m = sy_sysName s \<and> IsAcquisition m") (auto simp: prepared_def sys_Update_def op_time_def Let_def)
    then show thesis using Op_Update by (intro reselected) simp_all
  qed
next
  case (Op_Tick now)
  then obtain s1 res1 where r: "reselect s now = Some (s1, res1)"
    using assms(1) by (auto simp: sys_Tick_def split: option.splits)
  obtain l acts where t: "loop_Tick (sy_loop s1) now = (l, acts)" by force
  show thesis
    by (rule ticked [OF Op_Tick r])
      (use assms(1) Op_Tick r t in \<open>auto simp: sys_Tick_def setState_def Let_def split: if_splits\<close>)
qed

section \<open>Evidence since the last step\<close>

definition evidence_of :: "system \<Rightarrow> string \<Rightarrow> nat" where
  "evidence_of s n = (case sy_sources s n of None \<Rightarrow> 0 | Some x \<Rightarrow> ss_sinceStep x)"

definition evidence :: "system \<Rightarrow> nat" where
  "evidence s = sum (evidence_of s) (set (sy_order s))"

lemma evidence_wider:
  assumes "wf_sources s" "finite A" "set (sy_order s) \<subseteq> A"
  shows "evidence s = sum (evidence_of s) A"
  unfolding evidence_def
proof (rule sum.mono_neutral_left [OF assms(2,3)])
  show "\<forall>n \<in> A - set (sy_order s). evidence_of s n = 0"
    using assms(1) by (auto simp: evidence_of_def wf_sources_def split: option.split)
qed

lemma evidence_le:
  assumes "wf_sources s" "wf_sources s'" "\<And>n. evidence_of s' n \<le> evidence_of s n + (if n = m then k else 0)"
  shows "evidence s' \<le> evidence s + k"
proof -
  let ?A = "insert m (set (sy_order s) \<union> set (sy_order s'))"
  have "evidence s' = sum (evidence_of s') ?A" by (rule evidence_wider [OF assms(2)]) auto
  also have "\<dots> \<le> (\<Sum>n \<in> ?A. evidence_of s n + (if n = m then k else 0))" by (intro sum_mono assms(3))
  also have "\<dots> = sum (evidence_of s) ?A + k" by (simp add: sum.distrib sum.delta)
  also have "sum (evidence_of s) ?A = evidence s" by (rule evidence_wider [OF assms(1), symmetric]) auto
  finally show ?thesis .
qed

lemma sys_all_nth: "sys_all s = Some ss \<Longrightarrow> i < length ss \<Longrightarrow> sy_sources s (sy_order s ! i) = Some (ss ! i)"
  "sys_all s = Some ss \<Longrightarrow> length ss = length (sy_order s)"
  by (simp_all add: sys_all_iff) (metis length_map nth_map, metis length_map)

lemma evidence_sum_list:
  assumes "wf_sources s" "sys_all s = Some ss"
  shows "evidence s = sum_list (map ss_sinceStep ss)"
proof -
  have "map (evidence_of s) (sy_order s) = map ss_sinceStep ss"
    using sys_all_nth [OF assms(2)] by (intro nth_equalityI) (auto simp: evidence_of_def)
  then show ?thesis unfolding evidence_def
    using assms(1) by (metis wf_sources_def sum_list_distinct_conv_sum_set)
qed

lemma evidence_prepared:
  assumes "wf_sources s"
  shows "evidence (prepared s opr) \<le> evidence s + new_evidence s opr"
proof -
  define m where "m = (case opr of Op_Update m \<Rightarrow> me_Source m | _ \<Rightarrow> [])"
  have ne: "evidence_of (put_all (map invalidate (the (sys_all s))) s) n = 0" for n
  proof -
    obtain ss where ss: "sys_all s = Some ss" "map ss_Name ss = sy_order s" using sys_all_wf [OF assms] .
    have nm: "map ss_Name (map invalidate ss) = sy_order s" using ss(2) by (simp add: invalidate_fields comp_def)
    note P = put_all_wf [OF assms nm]
    show ?thesis
    proof (cases "n \<in> set (sy_order s)")
      case True
      then obtain i where "i < length ss" "n = sy_order s ! i" using ss(2) by (metis in_set_conv_nth length_map)
      then show ?thesis using sys_all_nth(1) [OF P(2), of i] ss(1) by (simp add: evidence_of_def invalidate_fields)
    next
      case False
      then show ?thesis using P(1) ss(1) by (auto simp: evidence_of_def wf_sources_def split: option.split)
    qed
  qed
  have "evidence_of (prepared s opr) n \<le> evidence_of s n + (if n = m then new_evidence s opr else 0)" for n
  proof (cases opr)
    case (Op_Resync now)
    then show ?thesis using ne [of n] by (simp add: prepared_def evidence_of_def)
  next
    case (Op_Invalidate now)
    then show ?thesis using ne [of n] by (simp add: prepared_def)
  next
    case (Op_Update x)
    then show ?thesis
      by (cases "sy_sources s (me_Source x)")
        (auto simp: prepared_def evidence_of_def m_def new_evidence_def apply_measurement_fields)
  qed (auto simp: prepared_def evidence_of_def AddSource_def new_source_def)
  then show ?thesis by (rule evidence_le [OF assms wf_prepared [OF assms]])
qed

text \<open>A further step rests on two measurements.\<close>

lemma two_in_sum_list:
  assumes "distinct js" "length js \<ge> 2" "\<forall>j \<in> set js. j < length xs \<and> xs ! j \<ge> (1::nat)"
  shows "sum_list xs \<ge> 2"
proof -
  have "2 \<le> card (set js)" using assms(1,2) by (simp add: distinct_card)
  also have "\<dots> = (\<Sum>j \<in> set js. 1)" by simp
  also have "\<dots> \<le> (\<Sum>j \<in> set js. xs ! j)" using assms(3) by (intro sum_mono) auto
  also have "\<dots> \<le> (\<Sum>j \<in> {0..<length xs}. xs ! j)" using assms(3) by (intro sum_mono2) auto
  finally show ?thesis by (simp add: sum_list_sum_nth)
qed

lemma sinceStep_use_sample: "map ss_sinceStep (use_sample ss i) = map ss_sinceStep ss"
  by (cases "i < length ss") (auto simp: use_sample_def map_update list_update_same_conv list_update_beyond)

lemma SelectAt_sinceStep:
  assumes "SelectAt ss now k opts = Some (ss', sel)"
  shows "map ss_sinceStep ss' = map ss_sinceStep ss"
  using SelectAt_keeps(5) [OF assms] SelectAt_facts(1) [OF assms] by (intro nth_equalityI) auto

lemma mayStep_evidence:
  assumes "sys_mayStep s (use_sample ss i) survivors i" "l_Steps (sy_loop s) \<noteq> 0" "i < length ss" "distinct survivors"
    "\<forall>j \<in> set survivors. j < length ss"
  shows "sum_list (map ss_sinceStep ss) \<ge> 2"
proof -
  have at: "ss_sinceStep (use_sample ss i ! j) = map ss_sinceStep ss ! j" if "j < length ss" for j
    using that by (simp add: use_sample_nth)
  show ?thesis
  proof (cases "ss_sinceStep (use_sample ss i ! i) \<ge> 2")
    case True
    then have "2 \<le> map ss_sinceStep ss ! i" using at assms(3) by simp
    also have "\<dots> \<le> sum_list (map ss_sinceStep ss)" using assms(3) by (intro elem_le_sum_list) simp
    finally show ?thesis .
  next
    case False
    then have "2 \<le> length (filter (\<lambda>j. ss_sinceStep (use_sample ss i ! j) \<ge> 1) survivors)"
      using assms(1,2) by (simp add: sys_mayStep_def)
    then show ?thesis using assms(4,5) at by (intro two_in_sum_list [of "filter (\<lambda>j. ss_sinceStep (use_sample ss i ! j) \<ge> 1) survivors"]) auto
  qed
qed

lemma loop_answer_steps:
  assumes "loop_answer ss sel i now s = (l, u)"
  shows "(\<exists>a \<in> set (ur_Actions u). ac_Kind a = ActionStep) \<longleftrightarrow> ur_Stepped u"
proof (cases "ur_Stepped u")
  case True
  then have "step_wanted (sy_loop s) (sel_Offset sel)" "sys_mayStep s (use_sample ss i) (sel_Survivors sel) i"
    using loop_Update_flags(1) assms unfolding loop_answer_def by blast+
  then have "(l, u) = loop_step (sy_loop s) (sel_Offset sel) now"
    using assms loop_Update_step unfolding loop_answer_def by simp
  then show ?thesis using loop_step_fields(4) [of "sy_loop s" "sel_Offset sel" now] True by (metis action.select_convs(1) list.set_intros(1) snd_conv)
next
  case False
  then show ?thesis using loop_Update_flags(2) assms unfolding loop_answer_def by (metis empty_iff list.set(1))
qed

lemma reselected_evidence:
  assumes r: "reselected s now s' res before ss sel" and wf: "wf_sources s"
  shows "steps_clock res \<Longrightarrow> evidence s' = 0 \<and> (l_Steps (sy_loop s) \<noteq> 0 \<longrightarrow> evidence s \<ge> 2) \<and> sy_state s' = StateSettling \<and>
      \<not> sy_everSynced s' \<and> sy_postStepUpdates s' = 0 \<and> sy_offset s' = Fin 0 \<and> (\<forall>n x. sy_sources s' n = Some x \<longrightarrow> \<not> ss_Valid x) \<and>
      l_Steps (sy_loop s') = Suc (l_Steps (sy_loop s))"
    and "\<not> steps_clock res \<Longrightarrow> evidence s' = evidence s"
proof -
  have b: "sys_all s = Some before" and sel: "SelectAt before now (cf_MinSurvivors (sy_cfg s)) (source_options s) = Some (ss, sel)"
    and len: "length ss = length before" and wf': "wf_sources s'"
    using r by (auto simp: reselected_def)
  have ev: "evidence s = sum_list (map ss_sinceStep ss)"
    using evidence_sum_list [OF wf b] SelectAt_sinceStep [OF sel] by simp
  consider (quiet) "sys_all s' = Some ss" "rs_Actions res = []"
    | (fed) i u where "i < length ss" "i \<in> set (sel_Survivors sel)" "loop_answer ss sel i now s = (sy_loop s', u)"
        "rs_Actions res = ur_Actions u"
        "if ur_Stepped u then sys_all s' = Some (map invalidate (use_sample ss i)) \<and> sy_state s' = StateSettling \<and>
            \<not> sy_everSynced s' \<and> sy_postStepUpdates s' = 0 \<and> sy_offset s' = Fin 0
          else sys_all s' = Some (use_sample ss i)"
    using r unfolding reselected_def by blast
  note C = this
  have "(steps_clock res \<longrightarrow> evidence s' = 0 \<and> (l_Steps (sy_loop s) \<noteq> 0 \<longrightarrow> evidence s \<ge> 2) \<and> sy_state s' = StateSettling \<and>
      \<not> sy_everSynced s' \<and> sy_postStepUpdates s' = 0 \<and> sy_offset s' = Fin 0 \<and> (\<forall>n x. sy_sources s' n = Some x \<longrightarrow> \<not> ss_Valid x) \<and>
      l_Steps (sy_loop s') = Suc (l_Steps (sy_loop s))) \<and>
      (\<not> steps_clock res \<longrightarrow> evidence s' = evidence s)"
    using C
  proof cases
    case quiet
    then show ?thesis using evidence_sum_list [OF wf' quiet(1)] ev by (simp add: steps_clock_def)
  next
    case (fed i u)
    have st: "steps_clock res \<longleftrightarrow> ur_Stepped u" using loop_answer_steps [OF fed(3)] fed(4) by (simp add: steps_clock_def)
    show ?thesis
    proof (cases "ur_Stepped u")
      case True
      have sw: "step_wanted (sy_loop s) (sel_Offset sel)" "sys_mayStep s (use_sample ss i) (sel_Survivors sel) i"
        using loop_Update_flags(1) fed(3) True unfolding loop_answer_def by blast+
      then have "(sy_loop s', u) = loop_step (sy_loop s) (sel_Offset sel) now"
        using fed(3) loop_Update_step unfolding loop_answer_def by simp
      then have "l_Steps (sy_loop s') = Suc (l_Steps (sy_loop s))"
        using loop_step_fields(3) [of "sy_loop s" "sel_Offset sel" now] by (metis fst_conv)
      moreover have all: "sys_all s' = Some (map invalidate (use_sample ss i))" using fed(5) True by simp
      moreover have "l_Steps (sy_loop s) \<noteq> 0 \<longrightarrow> evidence s \<ge> 2"
        using mayStep_evidence [OF sw(2) _ fed(1)] SelectAt_facts(2,3) [OF sel] len ev by simp
      moreover have "evidence s' = 0" using evidence_sum_list [OF wf' all] by (simp add: comp_def invalidate_fields)
      moreover have "\<not> ss_Valid x" if "sy_sources s' n = Some x" for n x
      proof -
        have "n \<in> set (sy_order s')" using that wf' by (auto simp: wf_sources_def)
        then obtain j where "j < length (use_sample ss i)" "n = sy_order s' ! j"
          using sys_all_nth(2) [OF all] by (metis in_set_conv_nth length_map)
        then have "x = invalidate (use_sample ss i ! j)" using sys_all_nth(1) [OF all, of j] that by simp
        then show ?thesis by (simp add: invalidate_fields)
      qed
      ultimately show ?thesis using st fed(5) True by simp
    next
      case False
      then have "sys_all s' = Some (use_sample ss i)" using fed(5) by simp
      then show ?thesis using evidence_sum_list [OF wf'] ev sinceStep_use_sample False st by simp
    qed
  qed
  then show "steps_clock res \<Longrightarrow> evidence s' = 0 \<and> (l_Steps (sy_loop s) \<noteq> 0 \<longrightarrow> evidence s \<ge> 2) \<and> sy_state s' = StateSettling \<and>
      \<not> sy_everSynced s' \<and> sy_postStepUpdates s' = 0 \<and> sy_offset s' = Fin 0 \<and> (\<forall>n x. sy_sources s' n = Some x \<longrightarrow> \<not> ss_Valid x) \<and>
      l_Steps (sy_loop s') = Suc (l_Steps (sy_loop s))"
    and "\<not> steps_clock res \<Longrightarrow> evidence s' = evidence s" by blast+
qed

section \<open>Operations and invariants\<close>

lemma prepared_fields [simp]:
  "sy_loop (prepared s opr) = sy_loop s" "sy_cfg (prepared s opr) = sy_cfg s"
  by (simp_all add: prepared_def AddSource_def split: sys_op.split option.split)

lemma mode_ok_prepared: "mode_ok s \<Longrightarrow> mode_ok (prepared s opr)"
  by (cases opr) (auto simp: prepared_def AddSource_def mode_ok_def split: option.split)

lemma loop_Tick_no_step: "\<not> (\<exists>a \<in> set (snd (loop_Tick l now)). ac_Kind a = ActionStep)"
  by (simp add: loop_Tick_def Let_def)

definition op_outcome :: "system \<Rightarrow> sys_op \<Rightarrow> system \<Rightarrow> result \<Rightarrow> bool" where
  "op_outcome s opr s' res \<longleftrightarrow> wf_sources s' \<and> mode_ok s' \<and> sy_cfg s' = sy_cfg s \<and>
     (if steps_clock res then
        evidence s' = 0 \<and> (l_Steps (sy_loop s) \<noteq> 0 \<longrightarrow> evidence s + new_evidence s opr \<ge> 2) \<and> sy_state s' = StateSettling \<and>
        \<not> sy_everSynced s' \<and> sy_postStepUpdates s' = 0 \<and> sy_offset s' = Fin 0 \<and> (\<forall>n x. sy_sources s' n = Some x \<longrightarrow> \<not> ss_Valid x) \<and>
        l_Steps (sy_loop s') = Suc (l_Steps (sy_loop s))
      else evidence s' \<le> evidence s + new_evidence s opr)"

lemma reselect_outcome:
  assumes "wf_sources s" "mode_ok s" "reselect (prepared s opr) now = Some (s', res)"
  shows "op_outcome s opr s' res"
proof -
  have wf: "wf_sources (prepared s opr)" by (rule wf_prepared [OF assms(1)])
  obtain before ss sel where r: "reselected (prepared s opr) now s' res before ss sel"
    using reselect_reselected [OF assms(3) wf] by blast
  have "mode_ok s'" by (rule mode_ok_reselect [OF mode_ok_prepared [OF assms(2)] wf assms(3)])
  moreover have "wf_sources s'" "sy_cfg s' = sy_cfg s" using r by (simp_all add: reselected_def)
  moreover note reselected_evidence [OF r wf] evidence_prepared [OF assms(1), of opr]
  ultimately show ?thesis unfolding op_outcome_def by (auto split: if_splits)
qed

lemma op_outcome_same:
  assumes "op_outcome s opr s1 res1" "same_sources s' s1" "mode_ok s'" "l_Steps (sy_loop s') = l_Steps (sy_loop s1)"
    "steps_clock res = steps_clock res1" "sy_everSynced s' = sy_everSynced s1" "sy_postStepUpdates s' = sy_postStepUpdates s1"
    "sy_offset s' = sy_offset s1" "sy_state s1 = StateSettling \<longrightarrow> sy_state s' = StateSettling"
  shows "op_outcome s opr s' res"
proof -
  have "evidence s' = evidence s1" using assms(2) by (simp add: evidence_def evidence_of_def [abs_def] same_sources_def)
  moreover have "wf_sources s' = wf_sources s1" using same_sources_wf [OF assms(2)] by blast
  moreover have "sy_sources s' = sy_sources s1" "sy_cfg s' = sy_cfg s1" using assms(2) by (simp_all add: same_sources_def)
  ultimately show ?thesis using assms(1,3-9) unfolding op_outcome_def by simp
qed

lemma sys_apply_outcome:
  assumes "sys_apply s opr = Some (s', res)" "wf_sources s" "mode_ok s"
  shows "op_outcome s opr s' res"
  using assms(1,2)
proof (cases rule: sys_apply_cases)
  case unchanged
  then show ?thesis using wf_prepared [OF assms(2), of opr] mode_ok_prepared [OF assms(3), of opr] evidence_prepared [OF assms(2), of opr]
    by (simp add: op_outcome_def steps_clock_def)
next
  case reselected
  then show ?thesis using reselect_outcome assms by blast
next
  case (ticked now s1 res1)
  have p: "prepared s opr = s" by (simp add: prepared_def ticked(1))
  then have o: "op_outcome s opr s1 res1" using reselect_outcome [of s opr now s1 res1] assms ticked(2) by simp
  then have m: "mode_ok s1" by (simp add: op_outcome_def)
  have st: "steps_clock res = steps_clock res1" using loop_Tick_no_step [of "sy_loop s1" now] ticked(4) by (auto simp: steps_clock_def)
  show ?thesis
    by (rule op_outcome_same [OF o])
      (use m st ticked(3) loop_Tick_fields(2) [of "sy_loop s1" now] in \<open>auto simp: same_sources_def mode_ok_def\<close>)
qed

definition run_inv :: "system \<Rightarrow> nat \<Rightarrow> bool" where
  "run_inv s n \<longleftrightarrow> wf_sources s \<and> mode_ok s \<and> evidence s \<le> n"

lemma run_inv_new: "run_inv (sys_New cfg freq known) 0"
  by (simp add: run_inv_def sys_New_def wf_sources_def mode_ok_def evidence_def Let_def)

lemma sys_run_inv: "sys_run cfg s n \<Longrightarrow> run_inv s n"
proof (induction rule: sys_run.induct)
  case (sys_run_new freq known)
  show ?case by (rule run_inv_new)
next
  case (sys_run_op s n opr s' res)
  then have "op_outcome s opr s' res" using sys_apply_outcome by (simp add: run_inv_def)
  then show ?case using sys_run_op.IH by (auto simp: op_outcome_def run_inv_def split: if_splits)
qed

section \<open>No operation panics\<close>

definition jitter_ok :: "system \<Rightarrow> bool" where
  "jitter_ok s \<longleftrightarrow> (\<forall>n x. sy_sources s n = Some x \<longrightarrow> Fin 0 \<le> ss_Jitter x)"

definition safe_op :: "sys_op \<Rightarrow> bool" where
  \<comment> \<open>a measurement has a jitter that is not negative\<close>
  "safe_op opr \<longleftrightarrow> (case opr of Op_Update m \<Rightarrow> me_Valid m \<longrightarrow> Fin 0 \<le> me_Jitter m | _ \<Rightarrow> True)"

lemma jitter_ok_iff: "wf_sources s \<Longrightarrow> sys_all s = Some ss \<Longrightarrow> jitter_ok s \<longleftrightarrow> (\<forall>i < length ss. Fin 0 \<le> ss_Jitter (ss ! i))"
proof
  assume a: "wf_sources s" "sys_all s = Some ss"
  show "jitter_ok s \<Longrightarrow> \<forall>i < length ss. Fin 0 \<le> ss_Jitter (ss ! i)" using sys_all_nth(1) [OF a(2)] by (auto simp: jitter_ok_def)
  assume j: "\<forall>i < length ss. Fin 0 \<le> ss_Jitter (ss ! i)"
  show "jitter_ok s" unfolding jitter_ok_def
  proof (intro allI impI)
    fix n x assume x: "sy_sources s n = Some x"
    then have "n \<in> set (sy_order s)" using a(1) by (auto simp: wf_sources_def)
    then obtain i where "i < length ss" "n = sy_order s ! i" using sys_all_nth(2) [OF a(2)] by (metis in_set_conv_nth)
    then show "Fin 0 \<le> ss_Jitter x" using sys_all_nth(1) [OF a(2), of i] x j by (metis option.inject)
  qed
qed

lemma jitter_ok_prepared:
  assumes "wf_sources s" "jitter_ok s" "safe_op opr"
  shows "jitter_ok (prepared s opr)"
proof -
  have inv: "jitter_ok (put_all (map invalidate (the (sys_all s))) s)"
  proof -
    obtain ss where ss: "sys_all s = Some ss" "map ss_Name ss = sy_order s" using sys_all_wf [OF assms(1)] .
    have "map ss_Name (map invalidate ss) = sy_order s" using ss(2) by (simp add: invalidate_fields comp_def)
    note P = put_all_wf [OF assms(1) this]
    show ?thesis using jitter_ok_iff [OF P] jitter_ok_iff [OF assms(1) ss(1)] assms(2) ss(1) by (simp add: invalidate_fields)
  qed
  show ?thesis
  proof (cases opr)
    case (Op_Resync now)
    then show ?thesis using inv by (simp add: prepared_def jitter_ok_def)
  qed (use assms inv in \<open>auto simp: prepared_def AddSource_def new_source_def jitter_ok_def safe_op_def apply_measurement_fields split: option.split if_splits\<close>)
qed

lemma reselect_total:
  assumes "wf_sources s" "jitter_ok s"
  shows "\<exists>s' res. reselect s now = Some (s', res) \<and> jitter_ok s'"
proof -
  obtain before where b: "sys_all s = Some before" using sys_all_wf [OF assms(1)] .
  have "\<forall>x \<in> set before. Fin 0 \<le> ss_Jitter x" using jitter_ok_iff [OF assms(1) b] assms(2) by (auto simp: in_set_conv_nth)
  then obtain ss sel where sel: "SelectAt before now (cf_MinSurvivors (sy_cfg s)) (source_options s) = Some (ss, sel)"
    using SelectAt_total by fastforce
  then have "reselect s now \<noteq> None"
    unfolding reselect_def b option.case source_options_def by (auto simp: Let_def split: option.split)
  then obtain s' res where r: "reselect s now = Some (s', res)" by auto
  obtain before' ss' sel' where R: "reselected s now s' res before' ss' sel'" using reselect_reselected [OF r assms(1)] by blast
  then have eq: "before' = before" "ss' = ss" "sel' = sel" using b sel by (auto simp: reselected_def)
  have wf': "wf_sources s'" and len: "length ss = length before" using R eq by (auto simp: reselected_def)
  have j: "Fin 0 \<le> ss_Jitter (ss ! i)" if "i < length ss" for i
    using SelectAt_keeps(2) [OF sel] that len jitter_ok_iff [OF assms(1) b] assms(2) by simp
  have ju: "Fin 0 \<le> ss_Jitter (use_sample ss i ! k)" if "k < length ss" for i k using j [OF that] that by (simp add: use_sample_nth)
  from R eq have "sys_all s' = Some ss \<or> (\<exists>i. sys_all s' = Some (use_sample ss i)) \<or> (\<exists>i. sys_all s' = Some (map invalidate (use_sample ss i)))"
    unfolding reselected_def by (metis (full_types))
  then have "jitter_ok s'" using jitter_ok_iff [OF wf'] j ju by (auto simp: use_sample_nth invalidate_fields)
  then show ?thesis using r by blast
qed

lemma sys_apply_total:
  assumes wf: "wf_sources s" and j: "jitter_ok s" "safe_op opr"
  shows "\<exists>s' res. sys_apply s opr = Some (s', res) \<and> jitter_ok s'"
proof -
  obtain s1 res1 where r: "reselect (prepared s opr) (op_time opr) = Some (s1, res1)" "jitter_ok s1"
    using reselect_total [OF wf_prepared [OF wf] jitter_ok_prepared [OF wf j]] by blast
  obtain ss where ss: "sys_all s = Some ss" using sys_all_wf [OF wf] .
  show ?thesis
  proof (cases opr)
    case (Op_Add name opts)
    then show ?thesis using jitter_ok_prepared [OF wf j] by (simp add: prepared_def)
  next
    case (Op_Remove name now)
    then show ?thesis using r j by (cases "sy_sources s name = None") (auto simp: RemoveSource_def prepared_def op_time_def)
  next
    case (Op_Invalidate now)
    then show ?thesis using r ss by (simp add: InvalidateSources_def prepared_def op_time_def)
  next
    case (Op_Resync now)
    then show ?thesis using r ss by (simp add: Resync_def prepared_def op_time_def)
  next
    case (Op_Update m)
    then show ?thesis using r j
      by (cases "sy_sources s (me_Source m)"; cases "me_Source m = sy_sysName s \<and> IsAcquisition m")
        (auto simp: sys_Update_def prepared_def op_time_def Let_def)
  next
    case (Op_Tick now)
    obtain l acts where t: "loop_Tick (sy_loop s1) now = (l, acts)" by force
    then show ?thesis using r Op_Tick
      by (auto simp: sys_Tick_def prepared_def op_time_def setState_def Let_def jitter_ok_def)
  qed
qed

section \<open>Samples are used once\<close>

definition newly_used :: "source_state \<Rightarrow> source_state \<Rightarrow> bool" where
  \<comment> \<open>the source after an operation has used a sample it had not used before\<close>
  "newly_used x x' \<longleftrightarrow> ss_usedAt x' = ss_At x' \<and> \<not> ss_At x' \<le> ss_usedAt x"

definition watermarks :: "system \<Rightarrow> system \<Rightarrow> bool" where
  "watermarks s s' \<longleftrightarrow>
     (\<forall>n x x'. sy_sources s n = Some x \<longrightarrow> sy_sources s' n = Some x' \<longrightarrow>
        ss_usedAt x' = ss_usedAt x \<or> (n = sy_sysName s' \<and> newly_used x x')) \<and>
     (l_Updates (sy_loop s') \<noteq> l_Updates (sy_loop s) \<longrightarrow>
        (\<exists>i x x'. sel_System (sy_sel s') = Some i \<and> i < length (sy_order s') \<and> sy_order s' ! i = sy_sysName s' \<and>
           sy_sources s (sy_sysName s') = Some x \<and> sy_sources s' (sy_sysName s') = Some x' \<and> newly_used x x'))"

lemma watermarks_nth:
  assumes "wf_sources s" "sys_all s = Some before" "wf_sources s'" "sys_all s' = Some after" "sy_order s' = sy_order s"
    and each: "\<And>i. i < length before \<Longrightarrow> ss_usedAt (after ! i) = ss_usedAt (before ! i) \<or>
      (sy_order s ! i = sy_sysName s' \<and> newly_used (before ! i) (after ! i))"
    and one: "l_Updates (sy_loop s') \<noteq> l_Updates (sy_loop s) \<Longrightarrow>
      \<exists>i < length before. sel_System (sy_sel s') = Some i \<and> sy_order s ! i = sy_sysName s' \<and> newly_used (before ! i) (after ! i)"
  shows "watermarks s s'"
proof -
  have len: "length before = length (sy_order s)" "length after = length before"
    using sys_all_nth(2) [OF assms(2)] sys_all_nth(2) [OF assms(4)] assms(5) by simp_all
  have at: "sy_sources s (sy_order s ! i) = Some (before ! i)" "sy_sources s' (sy_order s ! i) = Some (after ! i)" if "i < length before" for i
    using sys_all_nth(1) [OF assms(2) that] sys_all_nth(1) [OF assms(4), of i] assms(5) that len by simp_all
  have "ss_usedAt x' = ss_usedAt x \<or> (n = sy_sysName s' \<and> newly_used x x')" if "sy_sources s n = Some x" "sy_sources s' n = Some x'" for n x x'
  proof -
    have "n \<in> set (sy_order s)" using that(1) assms(1) by (auto simp: wf_sources_def)
    then obtain i where i: "i < length before" "n = sy_order s ! i" by (metis in_set_conv_nth len(1))
    then have "x = before ! i" "x' = after ! i" using at [OF i(1)] that by simp_all
    then show ?thesis using each i by blast
  qed
  moreover have "\<exists>i x x'. sel_System (sy_sel s') = Some i \<and> i < length (sy_order s') \<and> sy_order s' ! i = sy_sysName s' \<and>
      sy_sources s (sy_sysName s') = Some x \<and> sy_sources s' (sy_sysName s') = Some x' \<and> newly_used x x'"
    if ch: "l_Updates (sy_loop s') \<noteq> l_Updates (sy_loop s)"
  proof -
    obtain i where i: "i < length before" "sel_System (sy_sel s') = Some i" "sy_order s ! i = sy_sysName s'" "newly_used (before ! i) (after ! i)"
      using one [OF ch] by blast
    then show ?thesis using at [OF i(1)] assms(5) len(1) by auto
  qed
  ultimately show ?thesis unfolding watermarks_def by blast
qed

lemma reselect_watermarks:
  assumes "reselect s now = Some (s', res)" "wf_sources s"
  shows "watermarks s s'"
proof -
  obtain before ss sel where r: "reselected s now s' res before ss sel" using reselect_reselected [OF assms] by blast
  have b: "sys_all s = Some before" and sel: "SelectAt before now (cf_MinSurvivors (sy_cfg s)) (source_options s) = Some (ss, sel)"
    and len: "length ss = length before" and wf': "wf_sources s'" and ord: "sy_order s' = sy_order s"
    using r by (auto simp: reselected_def)
  note keep = SelectAt_keeps(3,4) [OF sel]
  have name: "ss_Name (ss ! i) = sy_order s ! i" if "i < length ss" for i
    using that SelectAt_names [OF sel] sys_all_names [OF assms(2) b] by (metis length_map nth_map)
  consider (quiet) "sys_all s' = Some ss" "sy_loop s' = sy_loop s"
    | (fed) i where "i < length ss" "\<not> ss_At (ss ! i) \<le> ss_usedAt (ss ! i)" "sel_System (sy_sel s') = Some i" "sy_sysName s' = ss_Name (ss ! i)"
        "sys_all s' = Some (map invalidate (use_sample ss i)) \<or> sys_all s' = Some (use_sample ss i)"
    using r unfolding reselected_def by (metis (full_types))
  then show ?thesis
  proof cases
    case quiet
    then show ?thesis using watermarks_nth [OF assms(2) b wf' quiet(1) ord] keep len by simp
  next
    case (fed i)
    from fed(5) obtain after where a: "sys_all s' = Some after"
      "\<And>k. k < length ss \<Longrightarrow> ss_usedAt (after ! k) = (if i = k then ss_At (ss ! k) else ss_usedAt (ss ! k)) \<and> ss_At (after ! k) = ss_At (ss ! k)"
    proof
      assume "sys_all s' = Some (use_sample ss i)"
      then show thesis by (rule that) (simp add: use_sample_nth)
    next
      assume "sys_all s' = Some (map invalidate (use_sample ss i))"
      then show thesis by (rule that) (simp add: use_sample_nth invalidate_fields)
    qed
    have nu: "sy_order s ! i = sy_sysName s' \<and> newly_used (before ! i) (after ! i)"
      using a(2) [of i] fed keep [of i] len name [of i] by (simp add: newly_used_def)
    show ?thesis
    proof (rule watermarks_nth [OF assms(2) b wf' a(1) ord])
      show "ss_usedAt (after ! k) = ss_usedAt (before ! k) \<or> (sy_order s ! k = sy_sysName s' \<and> newly_used (before ! k) (after ! k))"
        if "k < length before" for k
        using a(2) [of k] keep [of k] nu that len by (cases "i = k") auto
      show "\<exists>k < length before. sel_System (sy_sel s') = Some k \<and> sy_order s ! k = sy_sysName s' \<and> newly_used (before ! k) (after ! k)"
        using nu fed(1,3) len by auto
    qed
  qed
qed

lemma put_all_invalidated:
  assumes "wf_sources s"
  shows "dom (sy_sources (put_all (map invalidate (the (sys_all s))) s)) = dom (sy_sources s)"
    and "sy_sources (put_all (map invalidate (the (sys_all s))) s) n = Some y \<Longrightarrow> sy_sources s n = Some x \<Longrightarrow> y = invalidate x"
proof -
  obtain ss where ss: "sys_all s = Some ss" "map ss_Name ss = sy_order s" using sys_all_wf [OF assms] .
  have "map ss_Name (map invalidate ss) = sy_order s" using ss(2) by (simp add: invalidate_fields comp_def)
  note P = put_all_wf [OF assms this]
  show "dom (sy_sources (put_all (map invalidate (the (sys_all s))) s)) = dom (sy_sources s)"
    using P(1) assms ss(1) by (simp add: wf_sources_def)
  assume y: "sy_sources (put_all (map invalidate (the (sys_all s))) s) n = Some y" and x: "sy_sources s n = Some x"
  have "n \<in> set (sy_order s)" using x assms by (auto simp: wf_sources_def)
  then obtain i where i: "i < length ss" "n = sy_order s ! i" using ss(2) by (metis in_set_conv_nth length_map)
  then show "y = invalidate x"
    using sys_all_nth(1) [OF P(2), of i] sys_all_nth(1) [OF ss(1), of i] y x ss(1) by simp
qed

lemma prepared_usedAt:
  assumes "wf_sources s" "\<forall>n opts. opr \<noteq> Op_Add n opts" "sy_sources (prepared s opr) n = Some y"
  shows "\<exists>x. sy_sources s n = Some x \<and> ss_usedAt x = ss_usedAt y"
proof -
  have i: "\<exists>x. sy_sources s n = Some x \<and> ss_usedAt x = ss_usedAt y" if "sy_sources (put_all (map invalidate (the (sys_all s))) s) n = Some y"
  proof -
    have "n \<in> dom (sy_sources s)" using that put_all_invalidated(1) [OF assms(1)] by auto
    then obtain x where x: "sy_sources s n = Some x" by blast
    then show ?thesis using put_all_invalidated(2) [OF assms(1) that x] by (simp add: invalidate_fields)
  qed
  show ?thesis
  proof (cases opr)
    case (Op_Update m)
    then show ?thesis using assms(3) by (auto simp: prepared_def apply_measurement_fields split: option.splits if_splits)
  qed (use assms(2,3) i in \<open>auto simp: prepared_def split: if_splits\<close>)
qed

lemma watermarks_prepared:
  assumes "watermarks (prepared s opr) s'" "wf_sources s" "\<forall>n opts. opr \<noteq> Op_Add n opts"
    "dom (sy_sources s') = dom (sy_sources (prepared s opr))"
  shows "watermarks s s'"
proof -
  note W = assms(1) [unfolded watermarks_def, simplified]
  have used: "ss_usedAt x = ss_usedAt y" if "sy_sources s n = Some x" "sy_sources (prepared s opr) n = Some y" for n x y
    using prepared_usedAt [OF assms(2,3) that(2)] that(1) by auto
  have "ss_usedAt x' = ss_usedAt x \<or> (n = sy_sysName s' \<and> newly_used x x')"
    if x: "sy_sources s n = Some x" and x': "sy_sources s' n = Some x'" for n x x'
  proof -
    have "n \<in> dom (sy_sources (prepared s opr))" using x' assms(4) by auto
    then obtain y where y: "sy_sources (prepared s opr) n = Some y" by blast
    then show ?thesis using W x' used [OF x y] by (auto simp: newly_used_def)
  qed
  moreover have "\<exists>i x x'. sel_System (sy_sel s') = Some i \<and> i < length (sy_order s') \<and> sy_order s' ! i = sy_sysName s' \<and>
      sy_sources s (sy_sysName s') = Some x \<and> sy_sources s' (sy_sysName s') = Some x' \<and> newly_used x x'"
    if ch: "l_Updates (sy_loop s') \<noteq> l_Updates (sy_loop s)"
  proof -
    obtain i y x' where y: "sel_System (sy_sel s') = Some i" "i < length (sy_order s')" "sy_order s' ! i = sy_sysName s'"
      "sy_sources (prepared s opr) (sy_sysName s') = Some y" "sy_sources s' (sy_sysName s') = Some x'" "newly_used y x'"
      using W ch by blast
    then obtain x where "sy_sources s (sy_sysName s') = Some x" "ss_usedAt x = ss_usedAt y"
      using prepared_usedAt [OF assms(2,3) y(4)] by blast
    then show ?thesis using y by (metis newly_used_def)
  qed
  ultimately show ?thesis unfolding watermarks_def by blast
qed

lemma reselect_dom:
  assumes "reselect s now = Some (s', res)" "wf_sources s"
  shows "dom (sy_sources s') = dom (sy_sources s) \<and> wf_sources s'"
  using reselect_reselected [OF assms] assms(2) by (auto simp: reselected_def wf_sources_def)

lemma sys_apply_watermarks:
  assumes "sys_apply s opr = Some (s', res)" "wf_sources s" "\<forall>n opts. opr \<noteq> Op_Add n opts"
  shows "watermarks s s'"
  using assms(1,2)
proof (cases rule: sys_apply_cases)
  case unchanged
  have "watermarks (prepared s opr) s'" unfolding unchanged(1) by (auto simp: watermarks_def)
  then show ?thesis using watermarks_prepared assms unchanged(1) by blast
next
  case reselected
  have "watermarks (prepared s opr) s'" by (rule reselect_watermarks [OF reselected(1) wf_prepared [OF assms(2)]])
  then show ?thesis using watermarks_prepared assms reselect_dom [OF reselected(1) wf_prepared [OF assms(2)]] by blast
next
  case (ticked now s1 res1)
  have "sy_sources s' = sy_sources s1" "l_Updates (sy_loop s') = l_Updates (sy_loop s1)" "sy_sel s' = sy_sel s1"
    "sy_sysName s' = sy_sysName s1" "sy_order s' = sy_order s1"
    using ticked(3) loop_Tick_fields(3) [of "sy_loop s1" now] by simp_all
  then show ?thesis using reselect_watermarks [OF ticked(2) assms(2)] by (simp add: watermarks_def)
qed

section \<open>Losing every source\<close>

definition unreachable :: "system \<Rightarrow> bool" where
  "unreachable s \<longleftrightarrow> (\<forall>n x. sy_sources s n = Some x \<longrightarrow> ss_Reach x = 0)"

lemma refresh_source_Reach: "ss_Reach (refresh_source opts now s) = ss_Reach s"
  by (simp add: refresh_source_def Let_def)

lemma SelectAt_Reach:
  assumes "SelectAt ss now k opts = Some (ss', sel)" "i < length ss"
  shows "ss_Reach (ss' ! i) = ss_Reach (ss ! i)"
proof -
  obtain s' ok evs where pr: "prepare_source opts now (ss ! i) = (s', ok, evs)" using prod_cases3 by blast
  obtain b st where s': "s' = (refresh_source opts now (ss ! i))\<lparr>ss_inLoop := b, ss_Status := st\<rparr>"
    using prepare_source_sound(4) [OF pr] by blast
  have c: "core (ss' ! i) = core s'" using SelectAt_facts(4) [OF assms(1)] assms(2) pr by simp
  show ?thesis using arg_cong [OF c, of ss_Reach] by (simp add: s' refresh_source_Reach)
qed

lemma reselect_unreachable:
  assumes r: "reselect s now = Some (s', res)" and wf: "wf_sources s" and u: "unreachable s"
  shows "unreachable s' \<and> sy_cfg s' = sy_cfg s \<and>
    (sy_state s', sy_holdoverSince s') =
      (if sy_state s = StateSynced \<or> (sy_state s = StateSettling \<and> sy_everSynced s) then (StateHoldover, now)
       else if sy_state s = StateSettling then (StateUnsynced, sy_holdoverSince s)
       else (sy_state s, sy_holdoverSince s))"
proof -
  obtain before ss sel sr where b: "sys_all s = Some before"
    and sel: "SelectAt before now (cf_MinSurvivors (sy_cfg s)) (source_options s) = Some (ss, sel)"
    and nm: "map ss_Name ss = sy_order s" "map ss_Name before = sy_order s" and f: "selected_form ss sel s sr"
    and c: "(sel_System sel = None \<and> (s', res) = lose_system now sr) \<or>
     (\<exists>i. sel_System sel = Some i \<and> sy_sysName (fst sr) = ss_Name (ss ! i) \<and> i < length ss \<and> i \<in> set (sel_Survivors sel) \<and>
        (if ss_At (ss ! i) \<le> ss_usedAt (ss ! i) then (s', res) = no_new_sample sr
         else (s', res) = feed_loop ss sel i now sr))"
    by (rule reselect_cases [OF r wf])
  have len: "length ss = length before" using nm by (metis length_map)
  have reach: "ss_Reach (ss ! i) = 0" if "i < length ss" for i
    using SelectAt_Reach [OF sel, of i] that len sys_all_nth(1) [OF b, of i] u by (simp add: unreachable_def)
  have "sel_System sel = None"
  proof (rule ccontr)
    assume "sel_System sel \<noteq> None"
    then obtain i where "sel_System sel = Some i" by blast
    then have i: "i \<in> set (sel_Survivors sel)" by (rule SelectAt_facts(7) [OF sel])
    then have "eligible (so_LocalRefIDs (source_options s)) (ss ! i)" using SelectAt_facts(5) [OF sel] by blast
    moreover have "i < length ss" using SelectAt_facts(1,3) [OF sel] i by simp
    ultimately show False using reach by (simp add: eligible_def)
  qed
  then have s': "s' = fst (lose_system now sr)" using c by (metis fst_conv option.distinct(1))
  have "same_sources s' (put_all ss s)"
    using lose_system_sources [of now sr] selected_sources [OF f] same_sources_trans unfolding s' by blast
  moreover note P = put_all_wf [OF wf nm(1)]
  ultimately have src: "sy_sources s' = sy_sources (put_all ss s)" "sy_cfg s' = sy_cfg s" by (simp_all add: same_sources_def)
  have "ss_Reach x = 0" if "sy_sources s' n = Some x" for n x
  proof -
    have "n \<in> set (sy_order s)" using that src(1) P(1) by (auto simp: wf_sources_def)
    then obtain i where "i < length ss" "n = sy_order s ! i" using nm(1) by (metis in_set_conv_nth length_map)
    then show ?thesis using sys_all_nth(1) [OF P(2), of i] that src(1) reach by (metis option.inject put_all_fields(2))
  qed
  moreover have "sy_state (fst sr) = sy_state s" "sy_everSynced (fst sr) = sy_everSynced s" "sy_holdoverSince (fst sr) = sy_holdoverSince s"
    using f by (auto simp: selected_form_def)
  then have "(sy_state s', sy_holdoverSince s') =
      (if sy_state s = StateSynced \<or> (sy_state s = StateSettling \<and> sy_everSynced s) then (StateHoldover, now)
       else if sy_state s = StateSettling then (StateUnsynced, sy_holdoverSince s)
       else (sy_state s, sy_holdoverSince s))"
    unfolding s' by (cases sr) (simp add: lose_system_def Let_def)
  ultimately show ?thesis using src(2) by (simp add: unreachable_def)
qed

text \<open>Without a reachable source there is nothing to cluster, and selection returns whatever the sources reported.\<close>

lemma SelectAt_unreachable_total:
  assumes "\<forall>x \<in> set ss. ss_Reach x = 0"
  shows "SelectAt ss now k opts \<noteq> None"
proof -
  have no: "\<not> fst (snd (prepare_source opts now x))" if "x \<in> set ss" for x
    using that assms by (simp add: prepare_source_def candidate_def refresh_source_Reach Let_def)
  have e: "filter (\<lambda>i. fst (snd (map (prepare_source opts now) ss ! i))) [0..<length ss] = []"
    using no by (auto simp: filter_empty_conv)
  have "select_survivors (map fst (map (prepare_source opts now) ss)) [] [] now \<noteq> None"
    by (simp add: select_survivors_def intersect_def cluster.simps Let_def)
  then obtain r where r: "select_survivors (map fst (map (prepare_source opts now) ss)) [] [] now = Some r" by blast
  show ?thesis unfolding SelectAt_def Let_def e list.map filter.simps r option.case by (simp split: prod.split)
qed

lemma tick_unreachable_total:
  assumes "wf_sources s" "unreachable s"
  shows "\<exists>s' res. sys_Tick s now = Some (s', res)"
proof -
  obtain before where b: "sys_all s = Some before" using sys_all_wf [OF assms(1)] .
  have "ss_Reach x = 0" if "x \<in> set before" for x
    using that assms(2) sys_all_nth(1) [OF b] unfolding in_set_conv_nth unreachable_def by metis
  then have "SelectAt before now (cf_MinSurvivors (sy_cfg s)) (source_options s) \<noteq> None" by (intro SelectAt_unreachable_total ballI)
  then have "reselect s now \<noteq> None"
    unfolding reselect_def b option.case source_options_def by (auto simp: Let_def split: option.split)
  then show ?thesis by (auto simp: sys_Tick_def Let_def split: prod.split)
qed

lemma tick_unreachable:
  assumes "sys_Tick s now = Some (s', res)" "wf_sources s" "unreachable s"
  shows "unreachable s' \<and> sy_cfg s' = sy_cfg s \<and> sy_state s' \<in> {StateHoldover, StateUnsynced} \<and>
    (sy_state s' = StateHoldover \<longrightarrow> sy_holdoverSince s' = (if sy_state s = StateHoldover then sy_holdoverSince s else now)) \<and>
    (sy_state s = StateHoldover \<and> now - sy_holdoverSince s > cf_HoldoverMax (sy_cfg s) \<longrightarrow> sy_state s' = StateUnsynced) \<and>
    (sy_state s = StateUnsynced \<longrightarrow> sy_state s' = StateUnsynced)"
proof -
  have "sys_apply s (Op_Tick now) = Some (s', res)" using assms(1) by simp
  then show ?thesis
    using assms(2)
  proof (cases rule: sys_apply_cases)
    case unchanged
    then show ?thesis by simp
  next
    case reselected
    then show ?thesis by simp
  next
    case (ticked n s1 res1)
    then show ?thesis using reselect_unreachable [OF _ assms(2,3), of n s1 res1]
      by (cases "sy_state s") (auto simp: unreachable_def split: if_splits)
  qed
qed

section \<open>A sample run\<close>

definition sample_sys_config :: sys_config where
  "sample_sys_config = \<lparr>cf_Loop = sample_config, cf_MinSurvivors = 1, cf_HoldoverMax = Fin 3600, cf_SettleUpdates = 1, cf_LocalRefIDs = []\<rparr>"

definition registered :: system where
  "registered = AddSource (sys_New sample_sys_config (Fin 12) True) ''a'' sample_options"

definition sample_measurement :: measurement where
  "sample_measurement = zero_measurement\<lparr>me_Source := ''a'', me_Now := Fin 8, me_Reach := 255, me_Poll := 6, me_Valid := True,
     me_At := Fin 8, me_Offset := Fin (1 / 4), me_Delay := Fin (1 / 2), me_Jitter := Fin (1 / 8), me_Stratum := 1\<rparr>"

lemma registered_run: "sys_run sample_sys_config registered 0"
  using sys_run_op [OF sys_run_new [of sample_sys_config "Fin 12" True], of "Op_Add ''a'' sample_options"]
  by (simp add: registered_def steps_clock_def no_result_def new_evidence_def)

lemma registered_fields:
  "sy_sources registered = [''a'' \<mapsto> new_source ''a'' sample_options]" "sy_order registered = [''a'']"
  "sy_cfg registered = sample_sys_config" "sy_loop registered = sample_loop" "sy_state registered = StateUnsynced"
  "sy_sysName registered = []"
  by (simp_all add: registered_def AddSource_def sys_New_def sample_sys_config_def sample_loop_def Let_def)

definition looks_measured :: "source_state \<Rightarrow> bool" where
  "looks_measured x \<longleftrightarrow> ss_Name x = ''a'' \<and> ss_Options x = sample_options \<and> ss_Reach x = 255 \<and> ss_Poll x = 6 \<and> ss_Valid x \<and>
     ss_At x = Fin 8 \<and> ss_Updated x = Fin 8 \<and> ss_Offset x = Fin (1 / 4) \<and> ss_Delay x = Fin (1 / 2) \<and>
     ss_Dispersion x = Fin 0 \<and> ss_Jitter x = Fin (1 / 8) \<and> ss_Leap x = LeapNone \<and> ss_Stratum x = 1 \<and>
     ss_RootDelay x = Fin 0 \<and> ss_RootDisp x = Fin 0 \<and> \<not> ss_inLoop x"

lemma measured_looks:
  assumes "ss_Name x = ''a''" "ss_Options x = sample_options" "\<not> ss_inLoop x"
  shows "looks_measured (apply_measurement x sample_measurement)" "ss_usedAt (apply_measurement x sample_measurement) = ss_usedAt x"
  using assms by (simp_all add: looks_measured_def apply_measurement_def apply_leap_def sample_measurement_def zero_measurement_def Let_def)

lemma measured_prepared:
  assumes "looks_measured x" "so_LocalRefIDs opts = []" "so_AppliedSince opts = Some (AppliedSince l)"
  shows "\<exists>p. prepare_source opts (Fin 8) x = (p, True, []) \<and> sample_outcome p \<and> ss_Name p = ''a'' \<and> ss_Options p = sample_options \<and>
    \<not> ss_inLoop p \<and> ss_At p = Fin 8 \<and> ss_usedAt p = ss_usedAt x"
proof -
  note f = assms(1) [unfolded looks_measured_def]
  have d: "RootDistance x (Fin 8) = Fin (3 / 8)"
    using f by (simp add: RootDistance_def MinDispersion_def Phi_value f64_eval)
  let ?r = "x\<lparr>ss_Distance := Fin (3 / 8), ss_stale := False, ss_Current := Fin (1 / 4)\<rparr>"
  have r: "refresh_source opts (Fin 8) x = ?r"
    unfolding refresh_source_def d Let_def freshnessDeadline_value
    using f assms(3) by (simp add: sample_options_def AppliedSince_def f64_eval)
  have "candidate ?r = (True, StatusSurvivor)"
    using f by (simp add: candidate_def sample_options_def word_le_nat_alt)
  then have "prepare_source opts (Fin 8) x = (?r\<lparr>ss_inLoop := False, ss_Status := StatusSurvivor\<rparr>, True, [])"
    unfolding prepare_source_def r Let_def using f assms(2) by (simp add: timingLoop_def sample_options_def)
  then show ?thesis using f by (simp add: sample_outcome_def sample_options_def)
qed

text \<open>A reselection with this one source selects it, and feeds the loop unless its sample is used.\<close>

lemma sample_reselect:
  assumes "sy_sources s = [''a'' \<mapsto> x]" "sy_order s = [''a'']" "cf_MinSurvivors (sy_cfg s) = 1" "cf_LocalRefIDs (sy_cfg s) = []"
    and "looks_measured x"
  obtains p sel sr where "selected_form [p] sel s sr" "sy_sysName (fst sr) = ''a''" "sel_Survivors sel = [0]" "sel_System sel = Some 0"
    "sel_Offset sel = Fin (1 / 4)" "ss_Name p = ''a''" "ss_Options p = sample_options" "\<not> ss_inLoop p" "ss_At p = Fin 8"
    "ss_usedAt p = ss_usedAt x"
    "reselect s (Fin 8) = Some (if Fin 8 \<le> ss_usedAt x then no_new_sample sr else feed_loop [p] sel 0 (Fin 8) sr)"
proof -
  have all: "sys_all s = Some [x]" by (simp add: sys_all_def assms(1,2))
  have opts: "so_LocalRefIDs (source_options s) = []" "so_AppliedSince (source_options s) = Some (AppliedSince (sy_loop s))"
    by (simp_all add: source_options_def assms(4))
  obtain p where p: "prepare_source (source_options s) (Fin 8) x = (p, True, [])" "sample_outcome p" "ss_Name p = ''a''"
    "ss_Options p = sample_options" "\<not> ss_inLoop p" "ss_At p = Fin 8" "ss_usedAt p = ss_usedAt x"
    using measured_prepared [OF assms(5) opts] by blast
  let ?p = "p\<lparr>ss_everSurvived := True, ss_Status := StatusSystem\<rparr>"
  obtain sel where sel: "SelectAt [x] (Fin 8) 1 (source_options s) = Some ([?p], sel)"
    "sel_Survivors sel = [0]" "sel_System sel = Some 0" "sel_Offset sel = Fin (1 / 4)"
    using sample_selected [OF p(1,2)] by blast
  let ?sr = "note_system ''a'' (note_selection [x] [?p] sel (Fin 8) s)"
  have run: "reselect s (Fin 8) = Some (if Fin 8 \<le> ss_usedAt x then no_new_sample ?sr else feed_loop [?p] sel 0 (Fin 8) ?sr)"
    unfolding reselect_def all option.case source_options_def [symmetric] assms(3) sel(1,3) Let_def prod.case
    using p(3,6,7) by simp
  show thesis
    by (rule that [OF note_system_form [OF note_selection_form] note_system_name sel(2-4) _ _ _ _ _ run]) (simp_all add: p)
qed

lemma measurement_prepared:
  assumes "sy_sources s = [''a'' \<mapsto> x]" "sy_order s = [''a'']" "me_Source m = ''a''"
  shows "sy_sources (prepared s (Op_Update m)) = [''a'' \<mapsto> apply_measurement x m]" "sy_order (prepared s (Op_Update m)) = [''a'']"
    "sys_apply s (Op_Update m) = reselect (prepared s (Op_Update m)) (me_Now m)"
    "sy_sinceStep (prepared s (Op_Update m)) = (if sy_sysName s = ''a'' \<and> IsAcquisition m then sy_sinceStep s + 1 else sy_sinceStep s)"
  using assms by (auto simp: prepared_def sys_Update_def Let_def)

lemma sample_step:
  "\<exists>s' res. sys_apply registered (Op_Update sample_measurement) = Some (s', res) \<and> steps_clock res \<and> l_Updates (sy_loop s') = 1"
proof -
  let ?x = "apply_measurement (new_source ''a'' sample_options) sample_measurement" and ?s = "prepared registered (Op_Update sample_measurement)"
  have m: "me_Source sample_measurement = ''a''" "me_Now sample_measurement = Fin 8" by (simp_all add: sample_measurement_def)
  note P = measurement_prepared [OF registered_fields(1,2) m(1)]
  have x: "looks_measured ?x" "ss_usedAt ?x = Fin 0" using measured_looks [of "new_source ''a'' sample_options"] by (simp_all add: new_source_def)
  have wf: "wf_sources ?s" using wf_prepared sys_run_inv [OF registered_run] by (simp add: run_inv_def)
  have cfg: "cf_MinSurvivors (sy_cfg ?s) = 1" "cf_LocalRefIDs (sy_cfg ?s) = []" by (simp_all add: registered_fields sample_sys_config_def)
  obtain p sel sr where r: "selected_form [p] sel ?s sr" "sel_Survivors sel = [0]" "sel_Offset sel = Fin (1 / 4)" "ss_Name p = ''a''"
    "reselect ?s (Fin 8) = Some (feed_loop [p] sel 0 (Fin 8) sr)"
    by (rule sample_reselect [OF P(1,2) cfg x(1)]) (simp_all add: x(2))
  obtain s' res where fl: "feed_loop [p] sel 0 (Fin 8) sr = (s', res)" by force
  obtain l u where la: "loop_answer [p] sel 0 (Fin 8) ?s = (l, u)" by force
  have sw: "step_wanted (sy_loop ?s) (sel_Offset sel)"
    by (simp add: step_wanted_def stepAllowed_def registered_fields sample_loop_def NewLoop_def sample_config_def r(3) Let_def f64_eval)
  have ms: "sys_mayStep ?s (use_sample [p] 0) (sel_Survivors sel) 0"
    by (simp add: sys_mayStep_def registered_fields sample_loop_def NewLoop_def Let_def)
  have "loop_answer [p] sel 0 (Fin 8) ?s = loop_step (sy_loop ?s) (sel_Offset sel) (Fin 8)"
    unfolding loop_answer_def eqTrueI [OF ms] by (rule loop_Update_step [OF sw])
  note ls = trans [OF this [symmetric] la]
  have "ur_Stepped u" using loop_step_fields(5) [of "sy_loop ?s" "sel_Offset sel" "Fin 8"] unfolding ls snd_conv .
  then have "\<exists>a \<in> set (ur_Actions u). ac_Kind a = ActionStep" using loop_answer_steps [OF la] by blast
  moreover have f: "sy_loop s' = l" "rs_Actions res = ur_Actions u"
    using feed_loop_sources [OF wf _ r(1) fl la] r(4) P(2) by simp_all
  ultimately have "steps_clock res" by (simp add: steps_clock_def)
  moreover have "l_Updates l = 1"
    using loop_step_fields(2) [of "sy_loop ?s" "sel_Offset sel" "Fin 8"] unfolding ls
    by (simp add: registered_fields sample_loop_def NewLoop_def Let_def)
  ultimately show ?thesis using P(3) m(2) r(5) fl f by simp
qed

section \<open>A run into holdover\<close>

definition calm_config :: sys_config where
  \<comment> \<open>the sample offset is within the step threshold\<close>
  "calm_config = sample_sys_config\<lparr>cf_Loop := sample_config\<lparr>lc_StepThreshold := Fin 1\<rparr>\<rparr>"

definition watched :: system where
  "watched = AddSource (sys_New calm_config (Fin 12) True) ''a'' sample_options"

lemma watched_run: "sys_run calm_config watched 0"
  using sys_run_op [OF sys_run_new [of calm_config "Fin 12" True], of "Op_Add ''a'' sample_options"]
  by (simp add: watched_def steps_clock_def no_result_def new_evidence_def)

lemma watched_fields:
  "sy_sources watched = [''a'' \<mapsto> new_source ''a'' sample_options]" "sy_order watched = [''a'']" "sy_cfg watched = calm_config"
  "sy_loop watched = NewLoop (cf_Loop calm_config) (Fin 12) True" "sy_state watched = StateUnsynced" "sy_sysName watched = []"
  "sy_sinceStep watched = 0" "sy_postStepUpdates watched = 0" "sy_resyncing watched = False"
  by (simp_all add: watched_def AddSource_def sys_New_def calm_config_def sample_sys_config_def Let_def)

lemma calm_fields: "cf_MinSurvivors calm_config = 1" "cf_LocalRefIDs calm_config = []" "cf_SettleUpdates calm_config = 1"
  "lc_StepThreshold (cf_Loop calm_config) = Fin 1"
  by (simp_all add: calm_config_def sample_sys_config_def)

lemma calm_update:
  assumes "loop_Update l (Fin (1 / 4)) poll now (StateUnsynced = StateSynced) may = (l', u)" "l_cfg l = effective_config (cf_Loop calm_config)"
  shows "\<not> ur_Deferred u \<and> \<not> ur_PanicRefused u \<and> \<not> ur_Ignored u \<and> \<not> ur_Stepped u \<and> ur_Actions u = []"
proof -
  have "lc_Panic (l_cfg l) = Fin 1000" "lc_StepThreshold (l_cfg l) = Fin 1"
    by (simp_all add: assms(2) calm_config_def sample_sys_config_def sample_config_def)
  then show ?thesis using assms(1) by (auto simp: loop_Update_def zero_result_def Let_def)
qed

text \<open>The first measurement makes the source the system source and settles nothing.\<close>

lemma settling_run:
  "\<exists>s n x. sys_run calm_config s n \<and> sy_state s = StateSettling \<and> sy_sysName s = ''a'' \<and> sy_sinceStep s = 0 \<and> sy_postStepUpdates s = 1 \<and>
    sy_offset s = Fin (1 / 4) \<and> sy_cfg s = calm_config \<and> sy_order s = [''a''] \<and> sy_sources s = [''a'' \<mapsto> x] \<and>
    ss_Name x = ''a'' \<and> ss_Options x = sample_options \<and> \<not> ss_inLoop x \<and> ss_usedAt x = Fin 8"
proof -
  let ?x = "apply_measurement (new_source ''a'' sample_options) sample_measurement" and ?s = "prepared watched (Op_Update sample_measurement)"
  have m: "me_Source sample_measurement = ''a''" "me_Now sample_measurement = Fin 8" by (simp_all add: sample_measurement_def)
  note P = measurement_prepared [OF watched_fields(1,2) m(1)]
  have x: "looks_measured ?x" "ss_usedAt ?x = Fin 0" using measured_looks [of "new_source ''a'' sample_options"] by (simp_all add: new_source_def)
  have cfg: "sy_cfg ?s = calm_config" by (simp add: watched_fields)
  obtain p sel sr where r: "selected_form [p] sel ?s sr" "sy_sysName (fst sr) = ''a''" "sel_Offset sel = Fin (1 / 4)" "ss_Name p = ''a''"
      "ss_Options p = sample_options" "\<not> ss_inLoop p" "ss_At p = Fin 8" "reselect ?s (Fin 8) = Some (feed_loop [p] sel 0 (Fin 8) sr)"
    by (rule sample_reselect [OF P(1,2) _ _ x(1)]) (simp_all add: x(2) watched_fields calm_fields)
  have f: "sy_state (fst sr) = StateUnsynced" "sy_loop (fst sr) = NewLoop (cf_Loop calm_config) (Fin 12) True" "sy_sinceStep (fst sr) = 0"
    "sy_postStepUpdates (fst sr) = 0" "sy_cfg (fst sr) = calm_config" "sy_order (fst sr) = [''a'']" "sy_resyncing (fst sr) = False"
    using r(1) P(2,4) by (auto simp: selected_form_def watched_fields prepared_def sample_measurement_def split: option.splits)
  obtain s' res where fl: "feed_loop [p] sel 0 (Fin 8) sr = (s', res)" by force
  obtain l u where la: "loop_answer [p] sel 0 (Fin 8) (fst sr) = (l, u)" by force
  have calm: "\<not> ur_Deferred u" "\<not> ur_PanicRefused u" "\<not> ur_Ignored u" "\<not> ur_Stepped u" "ur_Actions u = []"
    using calm_update [OF la [unfolded loop_answer_def f(1,2) r(3)] NewLoop_cfg] by simp_all
  define s1 where "s1 = (put_all (use_sample [p] 0) (fst sr))\<lparr>sy_loop := l\<rparr>"
  define r1 where "r1 = (snd sr)\<lparr>rs_Actions := rs_Actions (snd sr) @ ur_Actions u\<rparr>"
  have s': "s' = system_vars (use_sample [p] 0 ! 0) (sel_Jitter sel) (Fin 8) (fst (after_update (Fin (1 / 4)) (s1, r1)))"
    using fl la s1_def r1_def by (cases rule: feed_loop_cases) (use calm r(3) in simp_all)
  have s1: "sy_state s1 = StateUnsynced" "sy_sinceStep s1 = 0" "sy_postStepUpdates s1 = 0" "sy_cfg s1 = calm_config" "sy_order s1 = [''a'']"
    "sy_resyncing s1 = False" "sy_sysName s1 = ''a''" "sy_sources s1 = [''a'' \<mapsto> p\<lparr>ss_usedAt := Fin 8\<rparr>]"
    using f r(1,2,7) P(1) by (auto simp: s1_def selected_form_def put_all_def use_sample_def)
  have "\<not> settleDone (s1\<lparr>sy_offset := Fin (1 / 4), sy_postStepUpdates := 1\<rparr>) (Fin (1 / 4))" by (simp add: settleDone_def s1 calm_fields)
  then have a: "sy_state s' = StateSettling" "sy_postStepUpdates s' = 1" "sy_offset s' = Fin (1 / 4)" "sy_sinceStep s' = 0"
    "sy_cfg s' = calm_config" "sy_order s' = [''a'']" "sy_sysName s' = ''a''" "sy_sources s' = [''a'' \<mapsto> p\<lparr>ss_usedAt := Fin 8\<rparr>]"
    unfolding s' by (simp_all add: after_update_def system_vars_def s1 Let_def)
  have "sys_apply watched (Op_Update sample_measurement) = Some (s', res)" using P(3) m(2) r(8) fl by simp
  from sys_run_op [OF watched_run this] show ?thesis using a r(4-6)
    by (intro exI [of _ s'] exI [of _ "p\<lparr>ss_usedAt := Fin 8\<rparr>"] exI conjI) auto
qed

text \<open>The second brings no new sample of the source, but it is the acquisition that settles the clock.\<close>

lemma synced_run:
  "\<exists>s n x. sys_run calm_config s n \<and> sy_state s = StateSynced \<and> sy_cfg s = calm_config \<and> sy_order s = [''a''] \<and> sy_sources s = [''a'' \<mapsto> x]"
proof -
  obtain s0 n x0 where s0: "sys_run calm_config s0 n" "sy_state s0 = StateSettling" "sy_sysName s0 = ''a''" "sy_sinceStep s0 = 0"
    "sy_postStepUpdates s0 = 1" "sy_offset s0 = Fin (1 / 4)" "sy_cfg s0 = calm_config" "sy_order s0 = [''a'']" "sy_sources s0 = [''a'' \<mapsto> x0]"
    "ss_Name x0 = ''a''" "ss_Options x0 = sample_options" "\<not> ss_inLoop x0" "ss_usedAt x0 = Fin 8"
    using settling_run by blast
  let ?s = "prepared s0 (Op_Update sample_measurement)"
  have m: "me_Source sample_measurement = ''a''" "me_Now sample_measurement = Fin 8" "IsAcquisition sample_measurement"
    by (simp_all add: sample_measurement_def IsAcquisition_def)
  note P = measurement_prepared [OF s0(9,8) m(1)]
  have x: "looks_measured (apply_measurement x0 sample_measurement)" "ss_usedAt (apply_measurement x0 sample_measurement) = Fin 8"
    using measured_looks [OF s0(10-12)] s0(13) by simp_all
  have cfg: "sy_cfg ?s = calm_config" by (simp add: s0)
  obtain p sel sr where r: "selected_form [p] sel ?s sr" "reselect ?s (Fin 8) = Some (no_new_sample sr)" "ss_Name p = ''a''"
    by (rule sample_reselect [OF P(1,2) _ _ x(1)]) (simp_all add: x(2) s0 calm_fields)
  obtain s' res where nn: "no_new_sample sr = (s', res)" by force
  have f: "sy_state (fst sr) = StateSettling" "sy_offset (fst sr) = Fin (1 / 4)" "sy_postStepUpdates (fst sr) = 1" "sy_sinceStep (fst sr) = 1"
    "sy_cfg (fst sr) = calm_config"
    using r(1) s0(2-7) P(4) m(3) by (auto simp: selected_form_def prepared_def split: option.splits)
  have "settleDone (fst sr) (Fin (1 / 4))" by (simp add: settleDone_def f calm_fields f64_eval)
  then have st: "sy_state s' = StateSynced" using nn f by (cases sr) (auto simp: no_new_sample_def setState_def Let_def)
  have "same_sources s' (put_all [p] ?s)"
    using no_new_sample_sources [of sr] selected_sources [OF r(1)] same_sources_trans unfolding nn by auto
  then have src: "sy_sources s' = [''a'' \<mapsto> p]" "sy_order s' = [''a'']" "sy_cfg s' = calm_config"
    using P(1,2) cfg by (simp_all add: same_sources_def put_all_def)
  have "sys_apply s0 (Op_Update sample_measurement) = Some (s', res)" using P(3) m(2) r(2) nn by simp
  from sys_run_op [OF s0(1) this] show ?thesis using st src by blast
qed

lemma holdover_run:
  "\<exists>s n. sys_run calm_config s n \<and> unreachable s \<and> sy_state s = StateHoldover \<and> sy_holdoverSince s = Fin 9 \<and> sy_cfg s = calm_config"
proof -
  obtain s0 n x where s0: "sys_run calm_config s0 n" "sy_state s0 = StateSynced" "sy_cfg s0 = calm_config" "sy_order s0 = [''a'']"
    "sy_sources s0 = [''a'' \<mapsto> x]" using synced_run by blast
  let ?m = "zero_measurement\<lparr>me_Source := ''a'', me_Now := Fin 9\<rparr>"
  let ?s = "prepared s0 (Op_Update ?m)"
  have "me_Source ?m = ''a''" by simp
  note P = measurement_prepared [OF s0(5,4) this]
  have wf: "wf_sources ?s" using wf_prepared sys_run_inv [OF s0(1)] by (simp add: run_inv_def)
  have u: "unreachable ?s"
    unfolding unreachable_def P(1) by (simp add: apply_measurement_def apply_leap_def IsAcquisition_def zero_measurement_def Let_def)
  obtain s' res where r: "reselect ?s (Fin 9) = Some (s', res)"
    using tick_unreachable_total [OF wf u, of "Fin 9"] by (auto simp: sys_Tick_def split: option.splits)
  have "sys_apply s0 (Op_Update ?m) = Some (s', res)" using P(3) r by (simp add: zero_measurement_def)
  moreover have "sy_state ?s = StateSynced" "sy_cfg ?s = calm_config" using s0 by (simp_all add: prepared_def)
  ultimately show ?thesis using sys_run_op [OF s0(1)] reselect_unreachable [OF r wf u] by fastforce
qed

lemma sys_Status_fields:
  assumes "sys_Status s now = Some st"
  shows "st_State st = sy_state s" "st_LastUpdate st = (if sy_haveUpdate s then sy_lastUpdate s else Fin 0)"
    "st_Leap st = (if sy_state s \<in> {StateUnsynced, StateSettling} then LeapUnsync else sy_leap s)"
    "sy_state s = StateUnsynced \<Longrightarrow> st_Stratum st = 16 \<and> st_RootDisp st = MaxDispersion \<and> st_RefID st = sy_unsyncedReason s"
proof -
  obtain ss where ss: "sys_all s = Some ss" using assms by (auto simp: sys_Status_def split: option.splits)
  note st = assms [unfolded sys_Status_def ss option.case Let_def option.inject, symmetric]
  show "st_State st = sy_state s" unfolding st by (cases "sy_state s") simp_all
  show "st_LastUpdate st = (if sy_haveUpdate s then sy_lastUpdate s else Fin 0)" unfolding st by (cases "sy_state s") simp_all
  show "st_Leap st = (if sy_state s \<in> {StateUnsynced, StateSettling} then LeapUnsync else sy_leap s)"
    unfolding st by (cases "sy_state s") simp_all
  show "sy_state s = StateUnsynced \<Longrightarrow> st_Stratum st = 16 \<and> st_RootDisp st = MaxDispersion \<and> st_RefID st = sy_unsyncedReason s"
    unfolding st by simp
qed

section \<open>Properties\<close>

text \<open>C4: What the daemon serves. In every run, whatever the sources report, the published status carries a
  usable leap indicator only in the states SYNCED and HOLDOVER, and only when the loop has run and reached
  SYNCED since the last step; while UNSYNCED the status is stratum 16 with the largest dispersion and a
  reference identifier that says why, and while SETTLING it is marked unsynchronized.\<close>
theorem sys_serves_only_synchronized:
  assumes "sys_run cfg s n" "sys_Status s now = Some st"
  shows "(st_Leap st \<noteq> LeapUnsync \<longrightarrow> st_State st \<in> {StateSynced, StateHoldover}) \<and>
    (st_State st \<in> {StateSynced, StateHoldover} \<longrightarrow>
       sy_everSynced s \<and> sy_postStepUpdates s \<ge> 1 \<and> sy_haveUpdate s \<and> st_LastUpdate st = sy_lastUpdate s) \<and>
    (st_State st = StateUnsynced \<longrightarrow>
       st_Stratum st = 16 \<and> st_Leap st = LeapUnsync \<and> st_RootDisp st = MaxDispersion \<and> st_RefID st \<in> {KissINIT, KissPANC, KissHOLD})"
proof -
  have m: "mode_ok s" using sys_run_inv [OF assms(1)] by (simp add: run_inv_def)
  note F = sys_Status_fields [OF assms(2)]
  show ?thesis using m F(4) unfolding F(1-3) mode_ok_def by (cases "sy_state s") simp_all
qed

theorem sys_serves_only_synchronized_witness:
  "\<exists>st. sys_Status registered (Fin 0) = Some st \<and> st_Stratum st = 16 \<and> st_Leap st = LeapUnsync"
proof -
  obtain st where st: "sys_Status registered (Fin 0) = Some st" "st_State st = StateUnsynced"
    by (simp add: sys_Status_def sys_all_def registered_fields Let_def)
  from sys_serves_only_synchronized [OF registered_run st(1)] st show ?thesis by blast
qed

text \<open>C5: A step starts over. In every run, an operation that steps the clock leaves the system SETTLING with no
  synchronization to coast on, no settling progress, no valid estimate of any source, and exactly one more
  step counted: nothing measured before the step can be used after it.\<close>
theorem sys_step_restarts:
  assumes "sys_run cfg s n" "sys_apply s opr = Some (s', res)" "steps_clock res"
  shows "sy_state s' = StateSettling \<and> \<not> sy_everSynced s' \<and> sy_postStepUpdates s' = 0 \<and> sy_offset s' = Fin 0 \<and>
    (\<forall>nm x. sy_sources s' nm = Some x \<longrightarrow> \<not> ss_Valid x \<and> ss_sinceStep x = 0) \<and>
    l_Steps (sy_loop s') = Suc (l_Steps (sy_loop s))"
proof -
  have o: "op_outcome s opr s' res" using sys_apply_outcome [OF assms(2)] sys_run_inv [OF assms(1)] by (simp add: run_inv_def)
  then have e: "evidence s' = 0" "wf_sources s'" using assms(3) by (simp_all add: op_outcome_def)
  have "ss_sinceStep x = 0" if "sy_sources s' nm = Some x" for nm x
  proof -
    have "nm \<in> set (sy_order s')" using that e(2) by (auto simp: wf_sources_def)
    then have "evidence_of s' nm = 0" using e(1) by (auto simp: evidence_def)
    then show ?thesis using that by (simp add: evidence_of_def)
  qed
  then show ?thesis using o assms(3) unfolding op_outcome_def by auto
qed

theorem sys_step_restarts_witness:
  "\<exists>s' res. sys_apply registered (Op_Update sample_measurement) = Some (s', res) \<and> sy_state s' = StateSettling \<and> l_Steps (sy_loop s') = 1"
proof -
  obtain s' res where s: "sys_apply registered (Op_Update sample_measurement) = Some (s', res)" "steps_clock res" using sample_step by blast
  have "l_Steps (sy_loop registered) = 0" by (simp add: registered_fields sample_loop_def NewLoop_def Let_def)
  then show ?thesis using sys_step_restarts [OF registered_run s] s(1) by auto
qed

text \<open>C6: A further step needs fresh evidence. In every run, when the clock has been stepped before and an
  operation steps it again, at least two valid measurements of registered sources have arrived since the
  previous step, the one that triggers the step included: a stale measurement still queued at the time of a
  step cannot alone undo it.\<close>
theorem sys_second_step_evidence:
  assumes "sys_run cfg s n" "sys_apply s opr = Some (s', res)" "steps_clock res"
  shows "l_Steps (sy_loop s) = 0 \<or> 2 \<le> n + new_evidence s opr"
proof -
  have i: "run_inv s n" by (rule sys_run_inv [OF assms(1)])
  then have "op_outcome s opr s' res" using sys_apply_outcome [OF assms(2)] by (simp add: run_inv_def)
  then have "l_Steps (sy_loop s) \<noteq> 0 \<longrightarrow> 2 \<le> evidence s + new_evidence s opr" using assms(3) by (simp add: op_outcome_def)
  then show ?thesis using i by (auto simp: run_inv_def)
qed

theorem sys_second_step_evidence_witness:
  "\<exists>s' res. sys_apply registered (Op_Update sample_measurement) = Some (s', res) \<and> steps_clock res \<and>
    (l_Steps (sy_loop registered) = 0 \<or> 2 \<le> 0 + new_evidence registered (Op_Update sample_measurement))"
  using sample_step sys_second_step_evidence [OF registered_run] by blast

text \<open>C7: An observation is integrated at most once. In every run and for every operation that is not a
  registration, the loop takes an update only when the system source, the one the selection of that very operation chose, has a sample
  whose time is not at or before the time up to which its samples are used, and that time moves to the sample; it moves for no
  other source and in no other way. So a tick or a report without a new sample of the system source never feeds the loop
  again.\<close>
theorem sys_sample_used_once:
  assumes "sys_run cfg s n" "sys_apply s opr = Some (s', res)" "\<forall>nm opts. opr \<noteq> Op_Add nm opts"
  shows "(\<forall>nm x x'. sy_sources s nm = Some x \<longrightarrow> sy_sources s' nm = Some x' \<longrightarrow>
      ss_usedAt x' = ss_usedAt x \<or> (nm = sy_sysName s' \<and> newly_used x x')) \<and>
    (l_Updates (sy_loop s') \<noteq> l_Updates (sy_loop s) \<longrightarrow>
       (\<exists>i x x'. sel_System (sy_sel s') = Some i \<and> i < length (sy_order s') \<and> sy_order s' ! i = sy_sysName s' \<and>
          sy_sources s (sy_sysName s') = Some x \<and> sy_sources s' (sy_sysName s') = Some x' \<and> newly_used x x'))"
  using sys_apply_watermarks [OF assms(2) _ assms(3)] sys_run_inv [OF assms(1)] by (simp add: run_inv_def watermarks_def)

theorem sys_sample_used_once_witness:
  "\<exists>s' res x x'. sys_apply registered (Op_Update sample_measurement) = Some (s', res) \<and>
    sy_sources registered (sy_sysName s') = Some x \<and> sy_sources s' (sy_sysName s') = Some x' \<and> newly_used x x' \<and>
    sel_System (sy_sel s') \<noteq> None"
proof -
  obtain s' res where s: "sys_apply registered (Op_Update sample_measurement) = Some (s', res)" "l_Updates (sy_loop s') = 1"
    using sample_step by blast
  have "l_Updates (sy_loop registered) = 0" by (simp add: registered_fields sample_loop_def NewLoop_def Let_def)
  then show ?thesis using sys_sample_used_once [OF registered_run s(1)] s by auto
qed

text \<open>C9: No operation panics. In every run in which no source has reported a negative jitter, every operation
  with a measurement whose jitter is not negative returns, and no source has a negative jitter after it;
  the sources in the order and in the map are the same, each under its own name.\<close>
theorem sys_never_panics:
  assumes "sys_run cfg s n" "jitter_ok s" "safe_op opr"
  shows "(\<exists>s' res. sys_apply s opr = Some (s', res) \<and> jitter_ok s') \<and> (\<exists>st. sys_Status s now = Some st) \<and>
    distinct (sy_order s) \<and> dom (sy_sources s) = set (sy_order s) \<and> (\<forall>nm x. sy_sources s nm = Some x \<longrightarrow> ss_Name x = nm)"
proof -
  have wf: "wf_sources s" using sys_run_inv [OF assms(1)] by (simp add: run_inv_def)
  obtain ss where "sys_all s = Some ss" using sys_all_wf [OF wf] .
  then have "\<exists>st. sys_Status s now = Some st" by (simp add: sys_Status_def Let_def)
  then show ?thesis using sys_apply_total [OF wf assms(2,3)] wf by (simp add: wf_sources_def)
qed

theorem sys_never_panics_witness: "\<exists>s' res. sys_apply registered (Op_Update sample_measurement) = Some (s', res) \<and> jitter_ok s'"
  using sys_never_panics [OF registered_run, of "Op_Update sample_measurement"]
  by (simp add: jitter_ok_def registered_fields new_source_def safe_op_def sample_measurement_def)

lemma f64_minus_antimono:
  assumes "a \<le> (b::f64)" "c - b > m"
  shows "c - a > m"
proof -
  have le: "c - b \<le> c - a" if "a = Fin x" "b = Fin y" "c = Fin z" for x y z
    using that assms(1) f64_of_real_mono [of "z - y" "z - x"] by simp
  show ?thesis using assms f64_less_le_trans [OF assms(2) le]
    by (cases a; cases b; cases c; cases m) (simp_all add: minus_f64_def)
qed

text \<open>C8: Holdover ends. From any state of any run in which no source is reachable any more, two ticks further
  apart than the holdover limit leave the daemon UNSYNCHRONIZED, whatever state it was in and whatever its sources had reported,
  and the second tick finds it in HOLDOVER or UNSYNCHRONIZED. Time does not run backwards: a holdover that is under way began no
  later than the first tick.\<close>
theorem sys_holdover_ends:
  assumes "sys_run cfg s n" "unreachable s"
    and "t2 - t1 > cf_HoldoverMax (sy_cfg s)"
    and "sy_state s = StateHoldover \<longrightarrow> sy_holdoverSince s \<le> t1"
  shows "\<exists>s1 r1 s2 r2. sys_Tick s t1 = Some (s1, r1) \<and> sys_Tick s1 t2 = Some (s2, r2) \<and>
    sy_state s1 \<in> {StateHoldover, StateUnsynced} \<and> sy_state s2 = StateUnsynced"
proof -
  have i: "wf_sources s" "mode_ok s" using sys_run_inv [OF assms(1)] by (simp_all add: run_inv_def)
  obtain s1 r1 where s1: "sys_Tick s t1 = Some (s1, r1)" using tick_unreachable_total [OF i(1) assms(2)] by blast
  note T = tick_unreachable [OF s1 i(1) assms(2)]
  have w1: "wf_sources s1" using sys_apply_outcome [of s "Op_Tick t1" s1 r1] s1 i by (simp add: op_outcome_def)
  obtain s2 r2 where s2: "sys_Tick s1 t2 = Some (s2, r2)" using tick_unreachable_total [OF w1] T by blast
  have "t2 - sy_holdoverSince s > cf_HoldoverMax (sy_cfg s)" if "sy_state s = StateHoldover"
    using f64_minus_antimono assms(3,4) that by blast
  then have "sy_state s2 = StateUnsynced" using tick_unreachable [OF s2 w1] T assms(3) by (auto split: if_splits)
  then show ?thesis using s1 s2 T by blast
qed

theorem sys_holdover_ends_witness:
  "\<exists>s n s1 r1 s2 r2. sys_run calm_config s n \<and> sy_state s = StateHoldover \<and> sys_Tick s (Fin 10) = Some (s1, r1) \<and>
    sys_Tick s1 (Fin 4000) = Some (s2, r2) \<and> sy_state s2 = StateUnsynced"
proof -
  obtain s n where s: "sys_run calm_config s n" "unreachable s" "sy_state s = StateHoldover" "sy_holdoverSince s = Fin 9" "sy_cfg s = calm_config"
    using holdover_run by blast
  have "Fin 4000 - Fin 10 > cf_HoldoverMax (sy_cfg s)" by (simp add: s(5) calm_config_def sample_sys_config_def f64_eval)
  then show ?thesis using sys_holdover_ends [OF s(1,2), of "Fin 4000" "Fin 10"] s(1,3,4) by auto
qed

end
