(* ===== verification/NTP_Packet.thy ===== *)
theory NTP_Packet
  imports NTP_Time
begin

text \<open>
  \<^verbatim>\<open>internal/ntp/packet.go\<close>: the 48-byte header, its decoding and encoding, and the framing of
  extension fields and the MAC trailer (RFC 7822). \<open>Decode\<close> is total: the walk over the extension
  fields is a recursion that the 16-byte minimum of a field makes terminate.
\<close>

abbreviation (input) HeaderSize :: nat where "HeaderSize \<equiv> 48"
abbreviation (input) MACSizeCMAC :: nat where "MACSizeCMAC \<equiv> 20"
abbreviation (input) macSizeSHA1 :: nat where "macSizeSHA1 \<equiv> 24"
abbreviation (input) CryptoNAKSize :: nat where "CryptoNAKSize \<equiv> 4"
abbreviation (input) minExtensionField :: nat where "minExtensionField \<equiv> 16"
abbreviation (input) ntp_Version :: uint8 where "ntp_Version \<equiv> 4"

datatype decode_error = ErrShort | ErrVersion uint8 | ErrTrailer

record packet =
  p_Leap :: leap
  p_Version :: uint8
  p_Mode :: mode
  p_Stratum :: uint8
  p_Poll :: int8
  p_Precision :: int8
  p_RootDelay :: ntp_short
  p_RootDispersion :: ntp_short
  p_ReferenceID :: refid
  p_ReferenceTime :: ntp_time
  p_OriginTime :: ntp_time
  p_ReceiveTime :: ntp_time
  p_TransmitTime :: ntp_time

record mac_trailer =
  m_KeyID :: uint32
  m_Digest :: "byte list"

definition IsCryptoNAK :: "mac_trailer option \<Rightarrow> bool" where
  "IsCryptoNAK m = (case m of None \<Rightarrow> False | Some t \<Rightarrow> m_KeyID t = 0 \<and> m_Digest t = [])"

definition IsKiss :: "packet \<Rightarrow> bool" where
  "IsKiss p \<longleftrightarrow> p_Stratum p = 0"

definition KissCode :: "packet \<Rightarrow> string" where
  "KissCode p = (if \<not> IsKiss p \<or> \<not> refid_IsText (p_ReferenceID p) then []
                 else refid_Text (p_ReferenceID p))"

function skip_fields :: "byte list \<Rightarrow> nat \<Rightarrow> nat option" where
  \<comment> \<open>the loop of \<^verbatim>\<open>Decode\<close> over the extension fields: the offset where it stops\<close>
  "skip_fields b off =
     (if length b - off > macSizeSHA1 then
        (if length b - off < 4 then None
         else (let l = unat (get_uint16 (slice (off + 2) (off + 4) b))
               in if l < minExtensionField \<or> l mod 4 \<noteq> 0 \<or> off + l > length b then None
                  else skip_fields b (off + l)))
      else Some off)"
  by pat_completeness auto
termination
  by (relation "measure (\<lambda>(b, off). length b - off)") auto

declare skip_fields.simps [simp del]

definition decode_header :: "byte list \<Rightarrow> packet" where
  "decode_header b =
     \<lparr>p_Leap = leap_of_code (drop_bit 6 (b ! 0)),
      p_Version = drop_bit 3 (b ! 0) AND 7,
      p_Mode = mode_of_code (b ! 0 AND 7),
      p_Stratum = b ! 1,
      p_Poll = b ! 2,
      p_Precision = b ! 3,
      p_RootDelay = get_uint32 (slice 4 8 b),
      p_RootDispersion = get_uint32 (slice 8 12 b),
      p_ReferenceID = refid_of_bytes (slice 12 16 b),
      p_ReferenceTime = get_uint64 (slice 16 24 b),
      p_OriginTime = get_uint64 (slice 24 32 b),
      p_ReceiveTime = get_uint64 (slice 32 40 b),
      p_TransmitTime = get_uint64 (slice 40 48 b)\<rparr>"

definition decode_trailer :: "byte list \<Rightarrow> nat \<Rightarrow> (mac_trailer option \<times> nat) option" where
  "decode_trailer b off =
     (let rest = length b - off
      in if rest = 0 then Some (None, length b)
         else if rest = CryptoNAKSize then
           (if get_uint32 (drop off b) \<noteq> 0 then None
            else Some (Some \<lparr>m_KeyID = 0, m_Digest = []\<rparr>, off))
         else if rest = MACSizeCMAC \<or> rest = macSizeSHA1 then
           Some (Some \<lparr>m_KeyID = get_uint32 (drop off b), m_Digest = drop (off + 4) b\<rparr>, off)
         else None)"

definition Decode :: "byte list \<Rightarrow> decode_error + (packet \<times> mac_trailer option \<times> nat)" where
  "Decode b =
     (if length b < HeaderSize then Inl ErrShort
      else (let p = decode_header b
            in if p_Version p = 0 \<or> p_Version p > ntp_Version then Inl (ErrVersion (p_Version p))
               else (case skip_fields b HeaderSize of
                       None \<Rightarrow> Inl ErrTrailer
                     | Some off \<Rightarrow>
                         (case decode_trailer b off of
                            None \<Rightarrow> Inl ErrTrailer
                          | Some (mac, macOffset) \<Rightarrow> Inr (p, mac, macOffset)))))"

definition first_byte :: "leap \<Rightarrow> uint8 \<Rightarrow> mode \<Rightarrow> byte" where
  "first_byte l v m = push_bit 6 (leap_code l) OR push_bit 3 (v AND 7) OR (mode_code m AND 7)"

definition AppendTo :: "packet \<Rightarrow> byte list \<Rightarrow> byte list" where
  "AppendTo p dst = dst @
     [first_byte (p_Leap p) (p_Version p) (p_Mode p),
      p_Stratum p, p_Poll p, p_Precision p] @
     put_uint32 (p_RootDelay p) @ put_uint32 (p_RootDispersion p) @
     refid_bytes (p_ReferenceID p) @
     put_uint64 (p_ReferenceTime p) @ put_uint64 (p_OriginTime p) @
     put_uint64 (p_ReceiveTime p) @ put_uint64 (p_TransmitTime p)"

definition Marshal :: "packet \<Rightarrow> byte list" where
  "Marshal p = AppendTo p []"

section \<open>Header\<close>

lemma length_refid_bytes [simp, wire_simps]: "length (refid_bytes r) = 4"
  by (cases r) simp

lemma refid_of_refid_bytes [simp, wire_simps]: "refid_of_bytes (refid_bytes r) = r"
  by (cases r) (simp add: refid_of_bytes_def)

lemma refid_bytes_of_bytes: "length bs = 4 \<Longrightarrow> refid_bytes (refid_of_bytes bs) = bs"
  by (auto simp: refid_of_bytes_def numeral_eq_Suc length_Suc_conv)

lemma length_Marshal [simp, wire_simps]: "length (Marshal p) = HeaderSize"
  by (simp add: Marshal_def AppendTo_def)

lemma AppendTo_Marshal: "AppendTo p dst = dst @ Marshal p"
  by (simp add: Marshal_def AppendTo_def)

lemma word_eq_of_unat: "unat (w :: 'a::len word) = n \<Longrightarrow> w = of_nat n"
  by auto

lemma version_cases: "v \<noteq> 0 \<Longrightarrow> \<not> (v::uint8) > ntp_Version \<Longrightarrow> v = 1 \<or> v = 2 \<or> v = 3 \<or> v = 4"
proof -
  assume a: "v \<noteq> 0" "\<not> v > ntp_Version"
  then have "unat v \<le> 4" "unat v \<noteq> 0" by (auto simp: not_less word_le_nat_alt unat_eq_0)
  then have "unat v = 1 \<or> unat v = 2 \<or> unat v = 3 \<or> unat v = 4" by arith
  then show ?thesis by (elim disjE) (drule word_eq_of_unat, simp)+
qed

text \<open>The first byte packs three fields without loss.\<close>

lemma first_byte_round_trip:
  assumes "v \<noteq> 0" "\<not> v > ntp_Version"
  shows "leap_of_code (drop_bit 6 (first_byte l v m)) = l" and "drop_bit 3 (first_byte l v m) AND 7 = v"
    and "mode_of_code (first_byte l v m AND 7) = m"
proof -
  have v: "v = 1 \<or> v = 2 \<or> v = 3 \<or> v = 4" using version_cases assms by blast
  show "leap_of_code (drop_bit 6 (first_byte l v m)) = l"
    using v by (elim disjE; cases l; cases m; simp add: first_byte_def leap_of_code_def)
  show "drop_bit 3 (first_byte l v m) AND 7 = v"
    using v by (elim disjE; cases l; cases m; simp add: first_byte_def)
  show "mode_of_code (first_byte l v m AND 7) = m"
    using v by (elim disjE; cases l; cases m; simp add: first_byte_def mode_of_code_def)
qed

lemma leap_code_of_code: "y < 4 \<Longrightarrow> leap_code (leap_of_code y) = y"
proof -
  assume "y < 4"
  then have "unat y < 4" by (simp add: word_less_nat_alt)
  then have "unat y = 0 \<or> unat y = 1 \<or> unat y = 2 \<or> unat y = 3" by arith
  then have "y = 0 \<or> y = 1 \<or> y = 2 \<or> y = 3"
    by (elim disjE) (drule word_eq_of_unat, simp)+
  then show ?thesis by (auto simp: leap_of_code_def)
qed

lemma mode_code_of_code: "z < 8 \<Longrightarrow> mode_code (mode_of_code z) = z"
proof -
  assume "z < 8"
  then have "unat z < 8" by (simp add: word_less_nat_alt)
  then have "unat z = 0 \<or> unat z = 1 \<or> unat z = 2 \<or> unat z = 3 \<or> unat z = 4 \<or> unat z = 5 \<or> unat z = 6 \<or> unat z = 7"
    by arith
  then have "z = 0 \<or> z = 1 \<or> z = 2 \<or> z = 3 \<or> z = 4 \<or> z = 5 \<or> z = 6 \<or> z = 7"
    by (elim disjE) (drule word_eq_of_unat, simp)+
  then show ?thesis by (auto simp: mode_of_code_def)
qed

lemma first_byte_of_fields:
  "first_byte (leap_of_code (drop_bit 6 x)) (drop_bit 3 x AND 7) (mode_of_code (x AND 7)) = (x :: byte)"
proof -
  have a: "drop_bit 6 x < 4" using unat_bound [of x]
    by (simp only: word_less_nat_alt unat_drop_bit_eq) (simp add: drop_bit_eq_div)
  have "x AND 7 \<le> 7" by (rule word_and_le1)
  then have b: "x AND 7 < 8" by (rule le_less_trans) simp
  have "push_bit 6 (drop_bit 6 x) OR push_bit 3 ((drop_bit 3 x AND 7) AND 7) OR ((x AND 7) AND 7) = x"
  proof (rule bit_eqI)
    fix n
    have s: "(7 :: byte) = mask 3" by (simp add: mask_eq_exp_minus_1)
    show "bit (push_bit 6 (drop_bit 6 x) OR push_bit 3 ((drop_bit 3 x AND 7) AND 7) OR ((x AND 7) AND 7)) n = bit x n"
      unfolding s by (cases "n < 6") (auto simp: bit_simps dest: bit_imp_le_length)
  qed
  then show ?thesis by (simp add: first_byte_def leap_code_of_code [OF a] mode_code_of_code [OF b])
qed

lemma slice_within: "j \<le> length a \<Longrightarrow> slice i j (a @ b) = slice i j a"
  by (simp add: slice_def)

lemma decode_header_Marshal:
  assumes "p_Version p \<noteq> 0" "\<not> p_Version p > ntp_Version"
  shows "decode_header (Marshal p @ rest) = p"
proof -
  have hd: "(Marshal p @ rest) ! 0 = first_byte (p_Leap p) (p_Version p) (p_Mode p)"
    by (simp add: Marshal_def AppendTo_def)
  show ?thesis
    unfolding decode_header_def hd first_byte_round_trip [OF assms]
    by (simp add: Marshal_def AppendTo_def wire_simps nth_Cons_numeral)
qed

lemma Marshal_decode_header: "HeaderSize \<le> length b \<Longrightarrow> Marshal (decode_header b) = take HeaderSize b"
proof -
  assume len: "HeaderSize \<le> length b"
  have cut: "slice i j b @ take (n - j) (drop j b) = take (n - i) (drop i b)" if "i \<le> j" "j \<le> n" for i j n
  proof -
    have "n - i = (j - i) + (n - j)" using that by simp
    then show ?thesis using that by (simp only: slice_def take_add drop_drop) simp
  qed
  have "take 4 b = [b ! 0, b ! 1, b ! 2, b ! 3]"
  proof (rule nth_equalityI)
    fix i assume "i < length (take 4 b)"
    then have "i = 0 \<or> i = 1 \<or> i = 2 \<or> i = 3" by auto
    then show "take 4 b ! i = [b ! 0, b ! 1, b ! 2, b ! 3] ! i" by auto
  qed (use len in simp)
  moreover have "take HeaderSize b = take 4 b @ slice 4 8 b @ slice 8 12 b @ slice 12 16 b @ slice 16 24 b @
      slice 24 32 b @ slice 32 40 b @ slice 40 48 b"
    using cut [of 40 48 48] cut [of 32 40 48] cut [of 24 32 48] cut [of 16 24 48] cut [of 12 16 48]
      cut [of 8 12 48] cut [of 4 8 48] cut [of 0 4 48] by (simp add: slice_def)
  ultimately show ?thesis
    using len by (simp add: Marshal_def AppendTo_def decode_header_def first_byte_of_fields put_get
        refid_bytes_of_bytes)
qed

section \<open>Trailer\<close>

lemma skip_fields_stop: "length b - off \<le> macSizeSHA1 \<Longrightarrow> skip_fields b off = Some off"
  by (subst skip_fields.simps) simp

lemma skip_fields_step:
  "length b - off > macSizeSHA1 \<Longrightarrow> unat (get_uint16 (slice (off + 2) (off + 4) b)) = l \<Longrightarrow>
   minExtensionField \<le> l \<Longrightarrow> l mod 4 = 0 \<Longrightarrow> off + l \<le> length b \<Longrightarrow>
   skip_fields b off = skip_fields b (off + l)"
  by (subst skip_fields.simps) (simp add: Let_def)

lemma decode_trailer_bounds:
  "decode_trailer b off = Some (mac, n) \<Longrightarrow> off \<le> length b \<Longrightarrow>
     n = off \<and>
     (case mac of None \<Rightarrow> off = length b
      | Some m \<Rightarrow> drop off b = put_uint32 (m_KeyID m) @ m_Digest m \<and>
          length (m_Digest m) \<in> {0, 16, 20} \<and> (m_Digest m = [] \<longrightarrow> m_KeyID m = 0))"
proof -
  assume a: "decode_trailer b off = Some (mac, n)" and off: "off \<le> length b"
  have pg: "put_uint32 (get_uint32 (drop off b)) @ drop (off + 4) b = drop off b" if "4 \<le> length b - off"
  proof -
    have "put_uint32 (get_uint32 (take 4 (drop off b))) = take 4 (drop off b)"
      using that by (intro put_get) simp
    moreover have "get_uint32 (take 4 (drop off b)) = get_uint32 (drop off b)" by (simp add: get_uint32_def)
    ultimately show ?thesis by (metis append_take_drop_id drop_drop add.commute)
  qed
  show ?thesis using a off pg by (auto simp: decode_trailer_def Let_def split: if_splits)
qed

lemma decode_trailer_cases:
  "decode_trailer b off = None \<longleftrightarrow>
     (let rest = length b - off in rest \<notin> {0, CryptoNAKSize, MACSizeCMAC, macSizeSHA1} \<or>
        (rest = CryptoNAKSize \<and> get_uint32 (drop off b) \<noteq> 0))"
  by (auto simp: decode_trailer_def Let_def)

text \<open>A chain of extension fields, each with its own length in its header.\<close>

definition ext_field :: "byte list \<Rightarrow> bool" where
  \<comment> \<open>at least 16 bytes, whole words, and its own length in its header (RFC 7822)\<close>
  "ext_field f \<longleftrightarrow> 16 \<le> length f \<and> length f mod 4 = 0 \<and>
                  unat (get_uint16 (slice 2 4 f)) = length f"

lemma skip_fields_chain:
  "list_all ext_field fs \<Longrightarrow> length t \<in> {MACSizeCMAC, macSizeSHA1} \<Longrightarrow>
   skip_fields (h @ concat fs @ t) (length h) = Some (length h + length (concat fs))"
proof (induction fs arbitrary: h)
  case Nil
  then show ?case by (intro skip_fields_stop [THEN trans]) auto
next
  case (Cons f fs)
  let ?b = "h @ concat (f # fs) @ t"
  have f: "16 \<le> length f" "length f mod 4 = 0" "unat (get_uint16 (slice 2 4 f)) = length f"
    using Cons.prems by (auto simp: ext_field_def)
  have sl: "slice (length h + 2) (length h + 4) ?b = slice 2 4 f"
    using f(1) by (simp add: slice_append_skip slice_within)
  have gt: "length ?b - length h > 24" using f(1) Cons.prems by auto
  have "skip_fields ?b (length h) = skip_fields ?b (length h + length f)"
    using gt f sl by (intro skip_fields_step) auto
  also have "\<dots> = Some (length (h @ f) + length (concat fs))"
    using Cons.IH [of "h @ f"] Cons.prems by simp
  finally show ?case by simp
qed

text \<open>What is skipped is such a chain, and its last field began where more than a MAC was left.\<close>

lemma skip_fields_sound:
  "skip_fields b off = Some n \<Longrightarrow> off \<le> length b \<Longrightarrow>
    \<exists>fs. list_all ext_field fs \<and> drop off b = concat fs @ drop n b \<and> n = off + length (concat fs) \<and> n \<le> length b \<and> length b - n \<le> macSizeSHA1 \<and>
      (fs \<noteq> [] \<longrightarrow> 24 < length (last fs) + (length b - n))"
proof (induction b off rule: skip_fields.induct)
  case (1 b off)
  show ?case
  proof (cases "length b - off > macSizeSHA1")
    case False
    then show ?thesis using 1(2,3) by (intro exI [of _ "[]"]) (simp add: skip_fields_stop)
  next
    case True
    let ?l = "unat (get_uint16 (slice (off + 2) (off + 4) b))" and ?f = "take (unat (get_uint16 (slice (off + 2) (off + 4) b))) (drop off b)"
    have l: "\<not> (?l < minExtensionField \<or> ?l mod 4 \<noteq> 0 \<or> off + ?l > length b)"
      and r: "skip_fields b (off + ?l) = Some n"
      using 1(2) True by (simp_all add: skip_fields.simps [of b off] Let_def split: if_splits)
    obtain fs where fs: "list_all ext_field fs" "drop (off + ?l) b = concat fs @ drop n b" "n = off + ?l + length (concat fs)"
      "n \<le> length b" "length b - n \<le> macSizeSHA1" "fs \<noteq> [] \<longrightarrow> 24 < length (last fs) + (length b - n)"
      using 1(1) [OF True _ refl l r] l True by auto
    have len: "length ?f = ?l" using l by (auto simp: min_def)
    have "slice 2 4 ?f = slice (off + 2) (off + 4) b" using l by (simp add: slice_def take_drop add.commute)
    then have "ext_field ?f" unfolding ext_field_def len using l by simp
    moreover have "drop off b = ?f @ drop (off + ?l) b" by (metis append_take_drop_id drop_drop add.commute)
    ultimately show ?thesis using fs len True by (intro exI [of _ "?f # fs"]) auto
  qed
qed

lemma ext_field_words: "list_all ext_field fs \<Longrightarrow> length (concat fs) mod 4 = 0"
  by (induction fs) (auto simp: ext_field_def mod_add_eq [symmetric])

lemma skip_fields_bounds:
  assumes "skip_fields b off = Some n" "off \<le> length b"
  shows "off \<le> n \<and> n \<le> length b \<and> length b - n \<le> macSizeSHA1 \<and> (n - off) mod 4 = 0"
  using skip_fields_sound [OF assms] ext_field_words by auto

lemma Decode_Marshal_plain:
  assumes "p_Version p \<noteq> 0" and "\<not> p_Version p > ntp_Version"
  shows "Decode (Marshal p) = Inr (p, None, HeaderSize)"
proof -
  have "skip_fields (Marshal p) HeaderSize = Some HeaderSize" by (rule skip_fields_stop) simp
  then show ?thesis
    using decode_header_Marshal [OF assms, of "[]"] assms by (simp add: Decode_def decode_trailer_def)
qed

lemma Decode_Marshal_fields:
  assumes "p_Version p \<noteq> 0" and "\<not> p_Version p > ntp_Version"
    and "list_all ext_field fs" and "length digest \<in> {16, 20}"
  shows "Decode (Marshal p @ concat fs @ put_uint32 key @ digest) =
           Inr (p, Some \<lparr>m_KeyID = key, m_Digest = digest\<rparr>, HeaderSize + length (concat fs))"
proof -
  let ?b = "Marshal p @ concat fs @ put_uint32 key @ digest"
  have s: "skip_fields ?b HeaderSize = Some (HeaderSize + length (concat fs))"
    using skip_fields_chain [OF assms(3), of "put_uint32 key @ digest" "Marshal p"] assms(4) by auto
  have t: "decode_trailer ?b (HeaderSize + length (concat fs)) =
      Some (Some \<lparr>m_KeyID = key, m_Digest = digest\<rparr>, HeaderSize + length (concat fs))"
    using assms(4) by (auto simp: decode_trailer_def Let_def)
  show ?thesis
    using decode_header_Marshal [OF assms(1,2)] assms(1,2) s t by (simp add: Decode_def del: length_concat)
qed

lemma Decode_signed:
  assumes "p_Version p \<noteq> 0" and "\<not> p_Version p > ntp_Version" and "length digest = 16"
  shows "Decode (Marshal p @ put_uint32 key @ digest) =
           Inr (p, Some \<lparr>m_KeyID = key, m_Digest = digest\<rparr>, HeaderSize)"
  using Decode_Marshal_fields [OF assms(1,2), of "[]" digest key] assms(3) by simp

definition sample_packet :: packet where
  "sample_packet = \<lparr>p_Leap = LeapInsert, p_Version = 4, p_Mode = ModeClient, p_Stratum = 2, p_Poll = 6,
     p_Precision = - 20, p_RootDelay = 655, p_RootDispersion = 66, p_ReferenceID = KissINIT,
     p_ReferenceTime = 1, p_OriginTime = 2, p_ReceiveTime = 3, p_TransmitTime = 4\<rparr>"

section \<open>Properties\<close>

text \<open>C39: A header written by \<open>Marshal\<close> is read back by \<open>Decode\<close> field for field, for every protocol
  version the decoder accepts, whether it stands alone or is followed by any chain of well-formed
  extension fields and a MAC trailer; the MAC is found at the byte after the last extension field.\<close>
theorem Decode_Marshal_round_trip:
  assumes "p_Version p \<noteq> 0" and "\<not> p_Version p > ntp_Version"
    and "list_all ext_field fs" and "length digest \<in> {16, 20}"
  shows "Decode (Marshal p) = Inr (p, None, HeaderSize) \<and>
         Decode (Marshal p @ concat fs @ put_uint32 key @ digest) =
           Inr (p, Some \<lparr>m_KeyID = key, m_Digest = digest\<rparr>, HeaderSize + length (concat fs))"
  using Decode_Marshal_plain [OF assms(1,2)] Decode_Marshal_fields [OF assms] by simp

theorem Decode_Marshal_round_trip_witness:
  "Decode (Marshal sample_packet) = Inr (sample_packet, None, 48) \<and>
   Decode (Marshal sample_packet @ concat [[0xf5, 4, 0, 16] @ replicate 12 0] @ put_uint32 7 @ replicate 16 9) =
     Inr (sample_packet, Some \<lparr>m_KeyID = 7, m_Digest = replicate 16 9\<rparr>, 64)"
proof -
  have v: "p_Version sample_packet \<noteq> 0" "\<not> p_Version sample_packet > ntp_Version"
    by (simp_all add: sample_packet_def)
  have f: "list_all ext_field [[0xf5, 4, 0, 16] @ replicate 12 0]"
    by (simp add: ext_field_def slice_def get_uint16_def be_nat_def)
  have d: "length (replicate 16 (9::byte)) \<in> {16, 20}" by simp
  show ?thesis using Decode_Marshal_round_trip [OF v f d, of 7] by simp
qed

definition trailer_bytes :: "mac_trailer option \<Rightarrow> byte list" where
  \<comment> \<open>the encoding of a trailer\<close>
  "trailer_bytes mac = (case mac of None \<Rightarrow> [] | Some m \<Rightarrow> put_uint32 (m_KeyID m) @ m_Digest m)"

text \<open>C40: Whatever \<open>Decode\<close> accepts is a well-framed packet and nothing else: the 48 bytes \<open>Marshal\<close> writes for
  the header it returns, a chain of extension fields, each at least 16 bytes long, a multiple of four and as long as its own header
  says, and the bytes of the trailer it returns (none, a zero key id, or a key id and a digest of 16 or 20 bytes). The version is
  one of 1 to 4, the MAC offset is the byte after the last field, and the last field with the trailer is longer than any MAC, so
  no MAC is taken for a field.\<close>
theorem Decode_sound:
  assumes "Decode b = Inr (p, mac, macOffset)"
  shows "p_Version p \<in> {1, 2, 3, 4} \<and> macOffset mod 4 = 0 \<and>
    (case mac of None \<Rightarrow> True | Some m \<Rightarrow> IsCryptoNAK mac \<or> length (m_Digest m) \<in> {16, 20}) \<and>
    (\<exists>fs. b = Marshal p @ concat fs @ trailer_bytes mac \<and> macOffset = 48 + length (concat fs) \<and>
       (\<forall>f \<in> set fs. 16 \<le> length f \<and> length f mod 4 = 0 \<and> unat (get_uint16 (slice 2 4 f)) = length f) \<and>
       (fs \<noteq> [] \<longrightarrow> 24 < length (last fs) + length (trailer_bytes mac)))"
proof -
  from assms obtain off where len: "HeaderSize \<le> length b" and p: "p = decode_header b"
    and v: "p_Version p \<noteq> 0" "\<not> p_Version p > ntp_Version"
    and s: "skip_fields b HeaderSize = Some off" and t: "decode_trailer b off = Some (mac, macOffset)"
    by (auto simp: Decode_def Let_def split: if_splits option.splits prod.splits)
  obtain fs where fs: "list_all ext_field fs" "drop HeaderSize b = concat fs @ drop off b" "off = HeaderSize + length (concat fs)"
    "off \<le> length b" "fs \<noteq> [] \<longrightarrow> 24 < length (last fs) + (length b - off)"
    using skip_fields_sound [OF s len] by blast
  note tr = decode_trailer_bounds [OF t fs(4)]
  have rest: "drop off b = trailer_bytes mac" using tr by (auto simp: trailer_bytes_def split: option.splits)
  then have "length (trailer_bytes mac) = length b - off" by (metis length_drop)
  moreover have "b = Marshal p @ concat fs @ trailer_bytes mac"
    using Marshal_decode_header [OF len] fs(2) unfolding p rest by (metis append_take_drop_id)
  moreover have "macOffset = 48 + length (concat fs)" using tr fs(3) by simp
  moreover have "macOffset mod 4 = 0" using calculation(3) ext_field_words [OF fs(1)] by presburger
  moreover have "case mac of None \<Rightarrow> True | Some m \<Rightarrow> IsCryptoNAK mac \<or> length (m_Digest m) \<in> {16, 20}"
    using tr by (auto simp: IsCryptoNAK_def split: option.splits)
  ultimately show ?thesis using fs(1,5) version_cases [OF v] unfolding list_all_iff ext_field_def by auto
qed

theorem Decode_sound_witness:
  "Decode (Marshal sample_packet @ concat [[0xf5, 4, 0, 16] @ replicate 12 0] @ put_uint32 7 @ replicate 16 9) =
     Inr (sample_packet, Some \<lparr>m_KeyID = 7, m_Digest = replicate 16 9\<rparr>, 64) \<and>
   (\<exists>fs. Marshal sample_packet @ concat [[0xf5, 4, 0, 16] @ replicate 12 0] @ put_uint32 7 @ replicate 16 9 =
       Marshal sample_packet @ concat fs @ trailer_bytes (Some \<lparr>m_KeyID = 7, m_Digest = replicate 16 9\<rparr>) \<and> 64 = 48 + length (concat fs) \<and>
     (\<forall>f \<in> set fs. 16 \<le> length f \<and> length f mod 4 = 0 \<and> unat (get_uint16 (slice 2 4 f)) = length f))"
proof -
  have f: "list_all ext_field [[0xf5, 4, 0, 16] @ replicate 12 0]"
    by (simp add: ext_field_def slice_def get_uint16_def be_nat_def)
  have d: "Decode (Marshal sample_packet @ concat [[0xf5, 4, 0, 16] @ replicate 12 0] @ put_uint32 7 @ replicate 16 9) =
     Inr (sample_packet, Some \<lparr>m_KeyID = 7, m_Digest = replicate 16 9\<rparr>, 64)"
    using Decode_Marshal_fields [OF _ _ f, of sample_packet "replicate 16 9" 7] by (simp add: sample_packet_def)
  from Decode_sound [OF d] d show ?thesis by blast
qed

end
