(* ===== verification/Go_Text.thy ===== *)
theory Go_Text
  imports Go_Std
begin

text \<open>
  Go's text handling, as far as the parsers of the program use it: \<^verbatim>\<open>strings\<close>, \<^verbatim>\<open>strconv\<close>,
  \<^verbatim>\<open>encoding/hex\<close> and \<^verbatim>\<open>bufio.Scanner\<close> over lines. A Go string is a sequence of bytes, here a
  \<open>string\<close> whose characters are its bytes; white space outside ASCII is recognised by its UTF-8
  encoding, as \<^verbatim>\<open>unicode.IsSpace\<close> does after decoding.
\<close>

section \<open>Package strings\<close>

abbreviation (input) nl :: char where "nl \<equiv> CHR 0x0A"
abbreviation (input) cr :: char where "cr \<equiv> CHR 0x0D"

definition ascii_space :: "char \<Rightarrow> bool" where
  "ascii_space c \<longleftrightarrow> c \<in> {CHR 0x09, CHR 0x0A, CHR 0x0B, CHR 0x0C, CHR 0x0D, CHR 0x20}"

definition wide_spaces :: "string list" where
  \<comment> \<open>U+0085, U+00A0, U+1680, U+2000 to U+200A, U+2028, U+2029, U+202F, U+205F, U+3000\<close>
  "wide_spaces =
     [[CHR 0xC2, CHR 0x85], [CHR 0xC2, CHR 0xA0], [CHR 0xE1, CHR 0x9A, CHR 0x80],
      [CHR 0xE2, CHR 0x80, CHR 0x80], [CHR 0xE2, CHR 0x80, CHR 0x81], [CHR 0xE2, CHR 0x80, CHR 0x82],
      [CHR 0xE2, CHR 0x80, CHR 0x83], [CHR 0xE2, CHR 0x80, CHR 0x84], [CHR 0xE2, CHR 0x80, CHR 0x85],
      [CHR 0xE2, CHR 0x80, CHR 0x86], [CHR 0xE2, CHR 0x80, CHR 0x87], [CHR 0xE2, CHR 0x80, CHR 0x88],
      [CHR 0xE2, CHR 0x80, CHR 0x89], [CHR 0xE2, CHR 0x80, CHR 0x8A], [CHR 0xE2, CHR 0x80, CHR 0xA8],
      [CHR 0xE2, CHR 0x80, CHR 0xA9], [CHR 0xE2, CHR 0x80, CHR 0xAF], [CHR 0xE2, CHR 0x81, CHR 0x9F],
      [CHR 0xE3, CHR 0x80, CHR 0x80]]"

definition has_prefix :: "string \<Rightarrow> string \<Rightarrow> bool" where
  "has_prefix p s \<longleftrightarrow> take (length p) s = p"

definition space_len :: "string list \<Rightarrow> string \<Rightarrow> nat" where
  \<comment> \<open>the bytes of the white-space character \<open>s\<close> starts with, 0 if it starts with none\<close>
  "space_len wide s =
     (case s of [] \<Rightarrow> 0
      | c # _ \<Rightarrow> if ascii_space c then 1
                 else (case List.find (\<lambda>w. has_prefix w s) wide of None \<Rightarrow> 0 | Some w \<Rightarrow> length w))"

function fields_from :: "string \<Rightarrow> string \<Rightarrow> string list" where
  "fields_from cur s =
     (if s = [] then (if cur = [] then [] else [cur])
      else (let n = space_len wide_spaces s
            in if 0 < n then (if cur = [] then [] else [cur]) @ fields_from [] (drop n s)
               else fields_from (cur @ [hd s]) (tl s)))"
  by pat_completeness auto
termination
  by (relation "measure (\<lambda>(cur, s). length s)") auto

declare fields_from.simps [simp del]

definition strings_Fields :: "string \<Rightarrow> string list" where
  "strings_Fields s = fields_from [] s"

function trim_left :: "string list \<Rightarrow> string \<Rightarrow> string" where
  "trim_left wide s =
     (let n = space_len wide s in if 0 < n \<and> s \<noteq> [] then trim_left wide (drop n s) else s)"
  by pat_completeness auto
termination
  by (relation "measure (\<lambda>(wide, s). length s)") auto

declare trim_left.simps [simp del]

definition strings_TrimSpace :: "string \<Rightarrow> string" where
  "strings_TrimSpace s = rev (trim_left (map rev wide_spaces) (rev (trim_left wide_spaces s)))"

definition char_code :: "char \<Rightarrow> nat" where
  "char_code c = of_char c"

definition lower_ascii :: "char \<Rightarrow> nat" where
  "lower_ascii c = (if 65 \<le> char_code c \<and> char_code c \<le> 90 then char_code c + 32 else char_code c)"

function equal_fold :: "string \<Rightarrow> string \<Rightarrow> bool" where
  \<comment> \<open>\<^verbatim>\<open>strings.EqualFold(s, t)\<close> for an ASCII \<open>t\<close>: besides the two cases of a letter, the long s
     (U+017F) folds to s and the Kelvin sign (U+212A) to k\<close>
  "equal_fold [] t = (t = [])"
| "equal_fold (a # s) [] = False"
| "equal_fold (a # s) (c # t) =
     (if lower_ascii a = lower_ascii c then equal_fold s t
      else if lower_ascii c = 0x73 \<and> has_prefix [CHR 0xC5, CHR 0xBF] (a # s) then equal_fold (drop 1 s) t
      else if lower_ascii c = 0x6B \<and> has_prefix [CHR 0xE2, CHR 0x84, CHR 0xAA] (a # s) then
        equal_fold (drop 2 s) t
      else False)"
  by pat_completeness auto
termination
  by (relation "measure (\<lambda>(s, t). length s)") auto

definition strings_Cut :: "string \<Rightarrow> char \<Rightarrow> string \<times> string" where
  \<comment> \<open>before and after the first \<open>c\<close>; all of \<open>s\<close> and nothing if there is none\<close>
  "strings_Cut s c = (takeWhile (\<lambda>x. x \<noteq> c) s, drop 1 (dropWhile (\<lambda>x. x \<noteq> c) s))"

function strings_Split :: "string \<Rightarrow> char \<Rightarrow> string list" where
  "strings_Split s c =
     (if c \<in> set s then takeWhile (\<lambda>x. x \<noteq> c) s # strings_Split (drop 1 (dropWhile (\<lambda>x. x \<noteq> c) s)) c
      else [s])"
  by pat_completeness auto
termination
proof (relation "measure (\<lambda>(s, c). length s)", goal_cases)
  case (2 s c)
  have "length (dropWhile (\<lambda>x. x \<noteq> c) s) \<le> length s" by (rule length_dropWhile_le)
  moreover have "s \<noteq> []" using 2 by auto
  ultimately show ?case by (simp add: less_Suc_eq_le) (cases s; simp)
qed simp

declare strings_Split.simps [simp del]

section \<open>Packages strconv and encoding/hex\<close>

definition digit_val :: "char \<Rightarrow> nat option" where
  "digit_val c =
     (let n = char_code c
      in if 48 \<le> n \<and> n \<le> 57 then Some (n - 48)
         else if 97 \<le> n \<and> n \<le> 102 then Some (n - 87)
         else if 65 \<le> n \<and> n \<le> 70 then Some (n - 55)
         else None)"

fun digits_val :: "nat \<Rightarrow> nat \<Rightarrow> string \<Rightarrow> nat option" where
  "digits_val base acc [] = Some acc"
| "digits_val base acc (c # s) =
     (case digit_val c of None \<Rightarrow> None
      | Some d \<Rightarrow> if d < base then digits_val base (acc * base + d) s else None)"

definition parse_uint :: "nat \<Rightarrow> nat \<Rightarrow> string \<Rightarrow> nat option" where
  \<comment> \<open>\<^verbatim>\<open>strconv.ParseUint(s, base, bits)\<close>, base 10 or 16: None is either of its errors\<close>
  "parse_uint base bits s =
     (if s = [] then None
      else case digits_val base 0 s of None \<Rightarrow> None | Some n \<Rightarrow> if n < 2 ^ bits then Some n else None)"

definition strconv_Atoi :: "string \<Rightarrow> int option" where
  \<comment> \<open>also \<^verbatim>\<open>ParseInt(s, 10, 64)\<close>\<close>
  "strconv_Atoi s =
     (let neg = has_prefix ''-'' s;
          ds = (if neg \<or> has_prefix ''+'' s then drop 1 s else s)
      in if ds = [] then None
         else case digits_val 10 0 ds of None \<Rightarrow> None
           | Some n \<Rightarrow> if neg then (if n \<le> 2 ^ 63 then Some (- int n) else None)
                       else if n < 2 ^ 63 then Some (int n) else None)"

fun hex_DecodeString :: "string \<Rightarrow> byte list option" where
  "hex_DecodeString [] = Some []"
| "hex_DecodeString [c] = None"
| "hex_DecodeString (a # b # s) =
     (case (digit_val a, digit_val b, hex_DecodeString s) of
        (Some h, Some l, Some bs) \<Rightarrow> Some (of_nat (16 * h + l) # bs)
      | _ \<Rightarrow> None)"

section \<open>Package bufio\<close>

function raw_lines :: "string \<Rightarrow> string list" where
  "raw_lines s =
     (if s = [] then []
      else takeWhile (\<lambda>c. c \<noteq> nl) s # raw_lines (drop 1 (dropWhile (\<lambda>c. c \<noteq> nl) s)))"
  by pat_completeness auto
termination
proof (relation "measure length", goal_cases)
  case (2 s)
  have "length (dropWhile (\<lambda>x. x \<noteq> nl) s) \<le> length s" by (rule length_dropWhile_le)
  with 2 show ?case by (simp add: less_Suc_eq_le) (cases s; simp)
qed simp

declare raw_lines.simps [simp del]

definition drop_cr :: "string \<Rightarrow> string" where
  "drop_cr l = (if l \<noteq> [] \<and> last l = cr then butlast l else l)"

definition scan_lines :: "string \<Rightarrow> string list \<times> bool" where
  \<comment> \<open>the lines a \<^verbatim>\<open>Scanner\<close> with a 64 KiB buffer delivers, and whether it stopped at one that does
     not fit (\<^verbatim>\<open>bufio.ErrTooLong\<close>)\<close>
  "scan_lines s =
     (let ls = raw_lines s; fits = (\<lambda>l. length l < 65536)
      in (map drop_cr (takeWhile fits ls), \<not> list_all fits ls))"

lemma hex_DecodeString_length: "hex_DecodeString s = Some bs \<Longrightarrow> length s = 2 * length bs"
  by (induction s arbitrary: bs rule: hex_DecodeString.induct) (auto split: option.splits)

lemma parse_uint_bound: "parse_uint base bits s = Some n \<Longrightarrow> n < 2 ^ bits"
  by (auto simp: parse_uint_def split: if_splits option.splits)

text \<open>Evaluating the text functions on a literal.\<close>

lemmas text_eval = scan_lines_def raw_lines.simps drop_cr_def strings_Fields_def fields_from.simps
  strings_TrimSpace_def trim_left.simps strings_Split.simps strings_Cut_def space_len_def ascii_space_def
  wide_spaces_def has_prefix_def char_code_def lower_ascii_def parse_uint_def strconv_Atoi_def
  digit_val_def

end
