(* ===== verification/NTP_Auth.thy ===== *)
theory NTP_Auth
  imports NTP_Packet Go_Text Go_Crypto
begin

text \<open>
  \<^verbatim>\<open>internal/ntp/auth\<close>: AES-128-CMAC (RFC 4493), the MAC trailer of RFC 8573 and the keys file.
  A call of \<open>CMAC\<close> with a key of the wrong length panics; \<open>None\<close> is that panic, and a ring that
  \<open>ParseKeys\<close> returned never causes it.
\<close>

section \<open>CMAC\<close>

abbreviation (input) KeySize :: nat where "KeySize \<equiv> 16"

definition xorInto :: "byte list \<Rightarrow> byte list \<Rightarrow> byte list" where
  "xorInto dst src = map2 (XOR) dst src"

definition shl_carry :: "byte list \<Rightarrow> byte list \<times> byte" where
  \<comment> \<open>the loop over the bytes, last to first: the shifted bytes and the carry out of the first\<close>
  "shl_carry bs = foldr (\<lambda>b (out, carry). ((push_bit 1 b OR carry) # out, drop_bit 7 b)) bs ([], 0)"

definition shiftLeftAndCondition :: "byte list \<Rightarrow> byte list" where
  "shiftLeftAndCondition inp =
     (let out = fst (shl_carry inp)
      in if inp ! 0 AND 0x80 \<noteq> 0 then out[15 := out ! 15 XOR 0x87] else out)"

definition cmac_last :: "byte list \<Rightarrow> byte list \<Rightarrow> byte list \<Rightarrow> nat \<Rightarrow> bool \<Rightarrow> byte list" where
  \<comment> \<open>the last block, masked with a subkey\<close>
  "cmac_last k1 k2 msg n full =
     (let rest = drop ((n - 1) * 16) msg;
          lastb = take 16 (rest @ replicate 16 0)
      in if full then xorInto lastb k1
         else xorInto (lastb[length msg - (n - 1) * 16 := 0x80]) k2)"

definition CMAC :: "byte list \<Rightarrow> byte list \<Rightarrow> byte list option" where
  "CMAC key msg =
     (if length key \<noteq> KeySize then None
      else (let enc = aes_encrypt key;
                k1 = shiftLeftAndCondition (enc (replicate 16 0));
                k2 = shiftLeftAndCondition k1;
                n0 = (length msg + 15) div 16;
                full = (n0 \<noteq> 0 \<and> length msg mod 16 = 0);
                n = (if n0 = 0 then 1 else n0);
                lastb = cmac_last k1 k2 msg n full;
                x = foldl (\<lambda>x i. enc (xorInto (slice (i * 16) ((i + 1) * 16) msg) x)) (replicate 16 0) [0..<n - 1]
            in Some (enc (xorInto lastb x))))"

section \<open>Keys\<close>

record auth_key =
  k_ID :: uint32
  k_Secret :: "byte list"

definition Append :: "auth_key \<Rightarrow> byte list \<Rightarrow> byte list option" where
  "Append k pkt =
     (case CMAC (k_Secret k) pkt of None \<Rightarrow> None
      | Some digest \<Rightarrow> Some (pkt @ put_uint32 (k_ID k) @ digest))"

definition Verify :: "auth_key \<Rightarrow> byte list \<Rightarrow> mac_trailer option \<Rightarrow> bool option" where
  "Verify k pkt mac =
     (case mac of None \<Rightarrow> Some False
      | Some m \<Rightarrow>
          if IsCryptoNAK mac \<or> m_KeyID m \<noteq> k_ID k \<or> length (m_Digest m) \<noteq> 16 then Some False
          else (case CMAC (k_Secret k) pkt of None \<Rightarrow> None
                | Some want \<Rightarrow> Some (want = m_Digest m)))"

type_synonym keys = "uint32 \<rightharpoonup> auth_key"

datatype keys_error =
    BadFields nat nat | BadID nat string | IDRange nat nat | DuplicateID nat nat
  | BadType nat string | BadKeyLength nat nat | BadHex nat | ReadError

definition parse_key_line :: "keys \<Rightarrow> nat \<Rightarrow> string \<Rightarrow> keys_error + keys" where
  \<comment> \<open>one round of the loop of \<^verbatim>\<open>ParseKeys\<close>\<close>
  "parse_key_line keys lineNo line =
     (let fields = strings_Fields (takeWhile (\<lambda>c. c \<noteq> CHR ''#'') line)
      in if fields = [] then Inr keys
         else if length fields \<noteq> 3 then Inl (BadFields lineNo (length fields))
         else (case parse_uint 10 32 (fields ! 0) of
                 None \<Rightarrow> Inl (BadID lineNo (fields ! 0))
               | Some kid \<Rightarrow>
                   if kid < 1 \<or> kid > 65535 then Inl (IDRange lineNo kid)
                   else if keys (of_nat kid) \<noteq> None then Inl (DuplicateID lineNo kid)
                   else if \<not> equal_fold (fields ! 1) ''AES128CMAC'' then Inl (BadType lineNo (fields ! 1))
                   else if length (fields ! 2) \<noteq> 2 * KeySize then Inl (BadKeyLength lineNo (length (fields ! 2)))
                   else (case hex_DecodeString (fields ! 2) of
                           None \<Rightarrow> Inl (BadHex lineNo)
                         | Some secret \<Rightarrow>
                             Inr (keys(of_nat kid \<mapsto> \<lparr>k_ID = of_nat kid, k_Secret = secret\<rparr>)))))"

fun parse_key_lines :: "keys \<Rightarrow> nat \<Rightarrow> string list \<Rightarrow> keys_error + keys" where
  "parse_key_lines keys n [] = Inr keys"
| "parse_key_lines keys n (l # ls) =
     (case parse_key_line keys (n + 1) l of Inl e \<Rightarrow> Inl e | Inr keys' \<Rightarrow> parse_key_lines keys' (n + 1) ls)"

definition ParseKeys :: "string \<Rightarrow> keys_error + keys" where
  "ParseKeys text =
     (let (ls, too_long) = scan_lines text
      in case parse_key_lines Map.empty 0 ls of
           Inl e \<Rightarrow> Inl e
         | Inr keys \<Rightarrow> if too_long then Inl ReadError else Inr keys)"

datatype load_error = OpenError | StatError | Permissions uint16 | ParseError keys_error

definition LoadKeys :: "(uint16 option \<times> string) option \<Rightarrow> load_error + keys" where
  \<comment> \<open>of the opened file: the permission bits, if it can be examined, and the contents\<close>
  "LoadKeys file =
     (case file of None \<Rightarrow> Inl OpenError
      | Some (None, _) \<Rightarrow> Inl StatError
      | Some (Some perm, text) \<Rightarrow>
          if perm AND 0x3F \<noteq> 0 then Inl (Permissions perm)
          else (case ParseKeys text of Inl e \<Rightarrow> Inl (ParseError e) | Inr keys \<Rightarrow> Inr keys))"

section \<open>Subkeys are doublings in the field of the cipher blocks\<close>

lemma be_nat_Cons: "be_nat (b # bs) = unat b * 256 ^ length bs + be_nat bs"
proof (induction bs rule: rev_induct)
  case Nil
  then show ?case by (simp add: be_nat_def)
next
  case (snoc x xs)
  then show ?case by (simp add: be_nat_snoc [of "b # xs", simplified] algebra_simps)
qed

lemma unat_shl_or_carry:
  assumes "c \<le> 1"
  shows "unat (push_bit 1 (b :: byte) OR c) = 2 * unat b mod 256 + unat c"
    and "unat (drop_bit 7 b) = unat b div 128"
proof -
  have c: "unat c \<le> 1" using assms by (simp add: word_le_nat_alt)
  then have "unat c = 0 \<or> unat c = 1" by arith
  then have "c = 0 \<or> c = 1" by (auto simp: unat_eq_0 dest: word_eq_of_unat)
  moreover have "push_bit 1 b AND 1 = 0"
    by (rule bit_eqI) (simp only: bit_and_iff bit_push_bit_iff bit_1_iff, simp)
  ultimately have "push_bit 1 b AND c = 0" by auto
  then have "push_bit 1 b OR c = push_bit 1 b + c"
    by (simp add: disjunctive_add_eq_or)
  moreover have "unat (push_bit 1 b) = 2 * unat b mod 256"
    by (simp add: push_bit_eq_mult unat_word_ariths mult.commute)
  moreover have "2 * unat b mod 256 + unat c < 256"
  proof -
    have "2 * unat b mod 256 = 2 * (unat b mod 128)" by (simp add: mult_mod_right)
    moreover have "unat b mod 128 < 128" by simp
    ultimately show ?thesis using c by linarith
  qed
  ultimately show "unat (push_bit 1 b OR c) = 2 * unat b mod 256 + unat c"
    by (simp add: unat_word_ariths)
  show "unat (drop_bit 7 b) = unat b div 128"
    by (simp only: unat_drop_bit_eq) (simp add: drop_bit_eq_div)
qed

lemma shl_carry_value:
  "length (fst (shl_carry bs)) = length bs \<and> snd (shl_carry bs) \<le> 1 \<and>
   be_nat (fst (shl_carry bs)) + 256 ^ length bs * unat (snd (shl_carry bs)) = 2 * be_nat bs"
proof (induction bs)
  case Nil
  then show ?case by (simp add: shl_carry_def)
next
  case (Cons b bs)
  obtain out c where oc: "shl_carry bs = (out, c)" by force
  then have ih: "length out = length bs" "c \<le> 1" "be_nat out + 256 ^ length bs * unat c = 2 * be_nat bs"
    using Cons by auto
  have step: "shl_carry (b # bs) = ((push_bit 1 b OR c) # out, drop_bit 7 b)"
    using oc by (simp add: shl_carry_def)
  have d: "unat b div 128 \<le> 1" using unat_bound [of b] by simp
  then have "drop_bit 7 b \<le> 1" using unat_shl_or_carry(2) [OF ih(2), of b] by (simp add: word_le_nat_alt)
  moreover have split: "2 * unat b mod 256 + 256 * (unat b div 128) = 2 * unat b"
    using mult_mod_right [of 2 "unat b" 128, simplified] div_mult_mod_eq [of "unat b" 128] by linarith
  have "(2 * unat b mod 256 + unat c) * P + R + 256 * P * (unat b div 128) = 2 * unat b * P + 2 * B"
    if "R + P * unat c = 2 * B" for P R B :: nat
  proof -
    have "(2 * unat b mod 256 + unat c) * P + R + 256 * P * (unat b div 128) =
          (2 * unat b mod 256 + 256 * (unat b div 128)) * P + (R + P * unat c)"
      by (simp add: algebra_simps)
    then show ?thesis by (simp only: split that)
  qed
  from this [OF ih(3)] have
    "be_nat ((push_bit 1 b OR c) # out) + 256 ^ length (b # bs) * unat (drop_bit 7 b) = 2 * be_nat (b # bs)"
    using unat_shl_or_carry [OF ih(2), of b] ih(1) by (simp add: be_nat_Cons algebra_simps)
  ultimately show ?case using step ih(1) by simp
qed

lemma xor_last_byte:
  "be_bytes (Suc n) (v XOR unat (c :: byte)) =
   (be_bytes (Suc n) v)[n := be_bytes (Suc n) v ! n XOR c]"
proof -
  have c: "unat c < 256" using unat_bound [of c] by simp
  have "drop_bit 8 (v XOR unat c) = drop_bit 8 v"
    using c by (simp add: drop_bit_xor drop_bit_eq_div [of 8 "unat c"])
  then have hi: "(v XOR unat c) div 256 = v div 256" by (simp add: drop_bit_eq_div)
  have "take_bit 8 (v XOR unat c) = take_bit 8 v XOR unat c"
    using c by (simp add: take_bit_xor take_bit_nat_eq_self)
  then have lo: "(v XOR unat c) mod 256 = v mod 256 XOR unat c" by (simp add: take_bit_eq_mod)
  have "of_nat (a XOR unat c) = (of_nat a XOR c :: byte)" for a
    by (rule bit_eqI) (simp add: bit_simps bit_unsigned_iff)
  then show ?thesis using hi lo by (simp add: nth_append list_update_append)
qed

text \<open>The 128-bit number a block stands for.\<close>

definition block_of :: "128 word \<Rightarrow> byte list" where
  "block_of w = be_bytes 16 (unat w)"

lemma shl_block: "fst (shl_carry (block_of w)) = block_of (push_bit 1 w)"
proof -
  let ?o = "fst (shl_carry (block_of w))" and ?c = "snd (shl_carry (block_of w))"
  have len: "length ?o = 16" and v: "be_nat ?o + 256 ^ 16 * unat ?c = 2 * unat w"
    using shl_carry_value [of "block_of w"] unat_bound [of w]
    by (simp_all add: block_of_def be_nat_be_bytes)
  have "be_nat ?o = 2 * unat w mod 256 ^ 16"
    using be_nat_less [of ?o] len by (simp only: v [symmetric] mod_mult_self2 mod_less)
  also have "\<dots> = unat (push_bit 1 w)"
    by (simp add: push_bit_eq_mult unat_word_ariths mult.commute)
  finally show ?thesis using be_bytes_be_nat [of ?o] len by (simp add: block_of_def)
qed

lemma be_bytes_first: "be_bytes (Suc n) v ! 0 = of_nat (v div 256 ^ n mod 256)"
proof (induction n arbitrary: v)
  case (Suc n)
  have "be_bytes (Suc (Suc n)) v ! 0 = be_bytes (Suc n) (v div 256) ! 0"
    by (subst be_bytes.simps(2)) (simp only: nth_append length_be_bytes, simp)
  then show ?case by (simp only: Suc.IH power_Suc div_mult2_eq)
qed simp

lemma block_msb: "block_of w ! 0 AND 0x80 \<noteq> 0 \<longleftrightarrow> bit w 127"
proof -
  have s: "(16::nat) = Suc 15" by simp
  have "block_of w ! 0 = of_nat (unat w div 256 ^ 15 mod 256)"
    unfolding block_of_def s by (rule be_bytes_first)
  also have "\<dots> = (of_nat (take_bit 8 (drop_bit 120 (unat w))) :: byte)"
    by (simp add: drop_bit_eq_div take_bit_eq_mod)
  finally have b: "block_of w ! 0 = of_nat (take_bit 8 (drop_bit 120 (unat w)))" .
  have "(x AND 0x80 \<noteq> 0) = bit x 7" for x :: byte
  proof -
    have "(0x80 :: byte) = push_bit 7 1" by simp
    then show ?thesis by (metis and_exp_eq_0_iff_not_bit push_bit_of_1)
  qed
  then show ?thesis by (simp add: b bit_of_nat_iff bit_take_bit_iff bit_drop_bit_eq bit_unsigned_iff)
qed

lemma shiftLeftAndCondition_block:
  "shiftLeftAndCondition (block_of w) =
   block_of (push_bit 1 w XOR (if bit w 127 then 0x87 else 0))"
proof (cases "bit w 127")
  case True
  have "unat (push_bit 1 w XOR 0x87) = unat (push_bit 1 w) XOR unat (0x87 :: byte)"
    by (simp only: unsigned_xor_eq) simp
  then have "block_of (push_bit 1 w XOR 0x87) = (block_of (push_bit 1 w))[15 := block_of (push_bit 1 w) ! 15 XOR 0x87]"
    using xor_last_byte [of 15 "unat (push_bit 1 w)" "0x87"] by (simp only: block_of_def) simp
  then show ?thesis using True block_msb [of w] by (simp only: shiftLeftAndCondition_def Let_def shl_block) simp
next
  case False
  then show ?thesis using block_msb [of w] by (simp only: shiftLeftAndCondition_def Let_def shl_block) simp
qed

lemma block_of_surj: "length b = 16 \<Longrightarrow> \<exists>w. b = block_of w"
proof -
  assume l: "length b = 16"
  have "unat (of_nat (be_nat b) :: 128 word) = be_nat b"
    using be_nat_less [of b] l by (simp add: unat_of_nat)
  then show ?thesis using be_bytes_be_nat [of b] l unfolding block_of_def by metis
qed

lemma length_shiftLeftAndCondition: "length b = 16 \<Longrightarrow> length (shiftLeftAndCondition b) = 16"
  using shl_carry_value [of b] by (simp add: shiftLeftAndCondition_def Let_def)

section \<open>CMAC against its standard\<close>

text \<open>RFC 4493 in its own terms: double the zero block's encipherment for the subkeys, pad the
  message to blocks, mask the last one, and run CBC over the blocks.\<close>

definition double_block :: "byte list \<Rightarrow> byte list" where
  "double_block b =
     (let w = of_nat (be_nat b) :: 128 word
      in be_bytes 16 (unat (push_bit 1 w XOR (if bit w 127 then 0x87 else 0))))"

definition masked_blocks :: "byte list \<Rightarrow> byte list \<Rightarrow> byte list \<Rightarrow> byte list list" where
  "masked_blocks k1 k2 msg =
     (if msg \<noteq> [] \<and> length msg mod 16 = 0
      then butlast (chunks 16 msg) @ [xor_bytes (last (chunks 16 msg)) k1]
      else (let padded = chunks 16 (msg @ [0x80] @ replicate (15 - length msg mod 16) 0)
            in butlast padded @ [xor_bytes (last padded) k2]))"

definition cbc_mac :: "(byte list \<Rightarrow> byte list) \<Rightarrow> byte list list \<Rightarrow> byte list" where
  "cbc_mac E bs = foldl (\<lambda>x b. E (xor_bytes b x)) (replicate 16 0) bs"

definition rfc4493 :: "(byte list \<Rightarrow> byte list) \<Rightarrow> byte list \<Rightarrow> byte list" where
  "rfc4493 E msg =
     (let k1 = double_block (E (replicate 16 0))
      in cbc_mac E (masked_blocks k1 (double_block k1) msg))"

lemma double_block_eq: "length b = 16 \<Longrightarrow> shiftLeftAndCondition b = double_block b"
proof -
  assume "length b = 16"
  then obtain w where w: "b = block_of w" using block_of_surj by blast
  then have "of_nat (be_nat b) = w" using unat_bound [of w] by (simp add: block_of_def be_nat_be_bytes)
  then show ?thesis by (simp only: w shiftLeftAndCondition_block double_block_def Let_def) (simp only: block_of_def)
qed

lemma length_double_block [simp]: "length (double_block b) = 16"
  by (simp add: double_block_def Let_def)

lemma xorInto_eq: "xorInto = xor_bytes"
  by (intro ext) (simp add: xorInto_def xor_bytes_def)

lemma chunks_step: "xs \<noteq> [] \<Longrightarrow> chunks 16 xs = take 16 xs # chunks 16 (drop 16 xs)"
  by (subst chunks.simps) simp

lemma chunks_slices:
  "length xs = 16 * n + r \<Longrightarrow> 0 < r \<Longrightarrow> r \<le> 16 \<Longrightarrow>
   chunks 16 xs = map (\<lambda>i. slice (i * 16) ((i + 1) * 16) xs) [0..<n] @ [drop (16 * n) xs]"
proof (induction n arbitrary: xs)
  case 0
  then have "xs \<noteq> []" "drop 16 xs = []" "take 16 xs = xs" by auto
  then show ?case by (simp add: chunks_step chunks.simps [of _ "[]"])
next
  case (Suc n)
  have "chunks 16 xs = take 16 xs # chunks 16 (drop 16 xs)"
    using Suc.prems by (intro chunks_step) auto
  also have "chunks 16 (drop 16 xs) =
      map (\<lambda>i. slice (i * 16) ((i + 1) * 16) (drop 16 xs)) [0..<n] @ [drop (16 * n) (drop 16 xs)]"
    using Suc.prems by (intro Suc.IH) auto
  also have "take 16 xs # \<dots> = map (\<lambda>i. slice (i * 16) ((i + 1) * 16) xs) [0..<Suc n] @ [drop (16 * Suc n) xs]"
    by (simp add: slice_def map_upt_Suc add.commute del: upt_Suc)
  finally show ?case .
qed

lemma pad_block:
  "length rest < 16 \<Longrightarrow>
   (take 16 (rest @ replicate 16 0))[length rest := (0x80 :: byte)] = rest @ [0x80] @ replicate (15 - length rest) 0"
proof -
  assume "length rest < 16"
  then have "take 16 (rest @ replicate 16 (0::byte)) = rest @ 0 # replicate (15 - length rest) 0"
    by (simp add: replicate_Suc [symmetric] Suc_diff_le [symmetric] del: replicate_Suc)
  then show ?thesis by (simp add: list_update_append)
qed

lemma block_count:
  "m = 0 \<or> m mod 16 \<noteq> 0 \<Longrightarrow> (if (m + 15) div 16 = 0 then 1 else (m + 15) div 16) - 1 = m div (16::nat)"
proof (cases "m = 0")
  case False
  assume "m = 0 \<or> m mod 16 \<noteq> 0"
  with False have "0 < m mod 16" by auto
  moreover have "m + 15 = (r - 1) + (x + 1) * 16" if "x * 16 + r = m" "0 < r" for x r using that by simp
  ultimately have "m + 15 = (m mod 16 - 1) + (m div 16 + 1) * 16" using div_mult_mod_eq [of m 16] by blast
  then have "(m + 15) div 16 = (m mod 16 - 1) div 16 + (m div 16 + 1)" by (simp only: div_mult_self3) simp
  moreover have "(m mod 16 - 1) div 16 = 0" by (simp add: less_imp_diff_less)
  ultimately have "(m + 15) div 16 = Suc (m div 16)" by simp
  then show ?thesis by simp
qed simp

lemma CMAC_blocks:
  assumes key: "length key = KeySize"
  shows "CMAC key msg = Some (rfc4493 (aes_encrypt key) msg)"
proof -
  define E k1 k2 where "E = aes_encrypt key" and "k1 = double_block (E (replicate 16 0))"
    and "k2 = double_block k1"
  have k: "shiftLeftAndCondition (E (replicate 16 0)) = k1" "shiftLeftAndCondition k1 = k2"
    using key by (simp_all add: E_def k1_def k2_def double_block_eq length_aes_encrypt)
  let ?slices = "\<lambda>q m. map (\<lambda>i. slice (i * 16) ((i + 1) * 16) m) [0..<q]"
  show ?thesis
  proof (cases "msg \<noteq> [] \<and> length msg mod 16 = 0")
    case True
    define q where "q = length msg div 16 - 1"
    have l: "length msg = 16 * q + 16"
      using True div_mult_mod_eq [of "length msg" 16] by (cases "length msg div 16") (auto simp: q_def)
    have "chunks 16 msg = ?slices q msg @ [drop (16 * q) msg]" using chunks_slices [OF l] by simp
    then have "rfc4493 E msg = E (xor_bytes (xor_bytes (drop (16 * q) msg) k1)
        (foldl (\<lambda>x b. E (xor_bytes b x)) (replicate 16 0) (?slices q msg)))"
      using True by (simp add: rfc4493_def masked_blocks_def cbc_mac_def k1_def [symmetric] Let_def del: map_map)
    moreover have "(length msg + 15) div 16 = Suc q" using l by simp
    ultimately show ?thesis using l key True
      by (simp add: CMAC_def Let_def k cmac_last_def foldl_map E_def [symmetric] xorInto_eq mult.commute del: map_map upt_Suc)
  next
    case False
    define q where "q = length msg div 16"
    define pad :: "byte list" where "pad = [0x80] @ replicate (15 - length msg mod 16) 0"
    have r: "length msg = 16 * q + length msg mod 16" by (simp add: q_def)
    then have "length (msg @ pad) = 16 * q + 16" by (simp add: pad_def)
    moreover have "?slices q (msg @ pad) = ?slices q msg" using r by (intro map_cong) (auto simp: slice_def)
    moreover have "drop (16 * q) (msg @ pad) = drop (16 * q) msg @ pad" using r by simp
    ultimately have "chunks 16 (msg @ pad) = ?slices q msg @ [drop (16 * q) msg @ pad]"
      using chunks_slices [of "msg @ pad" q 16] by simp
    then have spec: "rfc4493 E msg = E (xor_bytes (xor_bytes (drop (16 * q) msg @ pad) k2)
        (foldl (\<lambda>x b. E (xor_bytes b x)) (replicate 16 0) (?slices q msg)))"
      unfolding rfc4493_def masked_blocks_def Let_def k1_def [symmetric] k2_def [symmetric]
        if_not_P [OF False] pad_def [symmetric] by (simp add: cbc_mac_def)
    let ?n = "if (length msg + 15) div 16 = 0 then 1 else (length msg + 15) div 16"
    have n: "?n - 1 = q" using block_count [of "length msg"] False by (simp add: q_def)
    have len: "length (drop (16 * q) msg) = length msg mod 16" using r by simp
    have off: "length msg - q * 16 = length msg mod 16" using len by (simp add: mult.commute)
    have "cmac_last k1 k2 msg ?n False = xor_bytes (drop (16 * q) msg @ pad) k2"
      using pad_block [of "drop (16 * q) msg", unfolded len] unfolding cmac_last_def n Let_def off
      by (simp only: xorInto_eq pad_def if_False mult.commute [of q] mod_less_divisor zero_less_numeral simp_thms)
    moreover have "\<not> ((length msg + 15) div 16 \<noteq> 0 \<and> length msg mod 16 = 0)" using False by auto
    ultimately show ?thesis using key spec
      by (simp only: CMAC_def Let_def k E_def [symmetric] n foldl_map xorInto_eq if_False simp_thms)
  qed
qed

section \<open>Trailers\<close>

lemma CMAC_total: "length key = KeySize \<Longrightarrow> \<exists>d. CMAC key msg = Some d \<and> length d = 16"
  by (simp add: CMAC_def Let_def length_aes_encrypt)

lemma CMAC_length: "CMAC key msg = Some d \<Longrightarrow> length d = 16"
  using CMAC_total [of key msg] by (auto simp: CMAC_def Let_def split: if_splits)

lemma Verify_Some_True:
  "Verify k pkt mac = Some True \<longleftrightarrow>
   (\<exists>d. CMAC (k_Secret k) pkt = Some d \<and> mac = Some \<lparr>m_KeyID = k_ID k, m_Digest = d\<rparr>)"
  using CMAC_length [of "k_Secret k" pkt]
  by (cases mac) (auto simp: Verify_def IsCryptoNAK_def split: option.splits)

lemma Verify_total: "length (k_Secret k) = KeySize \<Longrightarrow> Verify k pkt mac \<noteq> None"
  using CMAC_total [of "k_Secret k" pkt] by (auto simp: Verify_def split: option.splits)

lemma Append_total: "length (k_Secret k) = KeySize \<Longrightarrow> \<exists>out. Append k pkt = Some out \<and> length out = length pkt + MACSizeCMAC"
  using CMAC_total [of "k_Secret k" pkt] by (auto simp: Append_def)

lemma Decode_frame:
  assumes "Decode b = Inr (p, Some m, off)"
  shows "b = take off b @ put_uint32 (m_KeyID m) @ m_Digest m" and "HeaderSize \<le> off"
proof -
  from assms have len: "HeaderSize \<le> length b"
    and sk: "\<exists>n. skip_fields b HeaderSize = Some n \<and> decode_trailer b n = Some (Some m, off)"
    by (auto simp: Decode_def Let_def split: if_splits option.splits)
  then obtain n where n: "skip_fields b HeaderSize = Some n" "decode_trailer b n = Some (Some m, off)" by blast
  have nb: "HeaderSize \<le> n" "n \<le> length b" using skip_fields_bounds [OF n(1) len] by auto
  with decode_trailer_bounds [OF n(2)] have "off = n" "drop n b = put_uint32 (m_KeyID m) @ m_Digest m" by auto
  with nb show "b = take off b @ put_uint32 (m_KeyID m) @ m_Digest m" "HeaderSize \<le> off"
    by (simp_all, metis append_take_drop_id)
qed

lemma Verify_iff_Append:
  assumes "Decode b = Inr (p, Some m, off)"
  shows "Verify k (take off b) (Some m) = Some True \<longleftrightarrow> Append k (take off b) = Some b"
proof -
  note fr = Decode_frame(1) [OF assms]
  have "Append k (take off b) = Some b \<longleftrightarrow>
      (\<exists>d. CMAC (k_Secret k) (take off b) = Some d \<and> put_uint32 (k_ID k) @ d = put_uint32 (m_KeyID m) @ m_Digest m)"
    by (subst (2) fr) (auto simp: Append_def split: option.split)
  also have "\<dots> \<longleftrightarrow> (\<exists>d. CMAC (k_Secret k) (take off b) = Some d \<and> k_ID k = m_KeyID m \<and> d = m_Digest m)"
    by (metis append_eq_append_conv get_put(2) length_put(2))
  also have "\<dots> \<longleftrightarrow> Verify k (take off b) (Some m) = Some True"
    unfolding Verify_Some_True by (cases m) auto
  finally show ?thesis by simp
qed

section \<open>The keys file\<close>

text \<open>What one line adds to the ring, stated without the order of the checks.\<close>

definition key_of_fields :: "string list \<Rightarrow> (uint32 \<times> auth_key) option" where
  "key_of_fields fs =
     (case fs of
        [n, t, h] \<Rightarrow>
          (case (parse_uint 10 32 n, hex_DecodeString h) of
             (Some i, Some secret) \<Rightarrow>
               if 1 \<le> i \<and> i \<le> 65535 \<and> equal_fold t ''AES128CMAC'' \<and> length secret = KeySize
               then Some (of_nat i, \<lparr>k_ID = of_nat i, k_Secret = secret\<rparr>) else None
           | _ \<Rightarrow> None)
      | _ \<Rightarrow> None)"

definition key_fields :: "string \<Rightarrow> string list" where
  "key_fields line = strings_Fields (takeWhile (\<lambda>c. c \<noteq> CHR ''#'') line)"

lemma parse_key_line_spec:
  "parse_key_line ks n l = Inr ks' \<longleftrightarrow>
     (if key_fields l = [] then ks' = ks
      else \<exists>i k. key_of_fields (key_fields l) = Some (i, k) \<and> ks i = None \<and> ks' = ks(i \<mapsto> k))"
proof (cases "key_fields l = [] \<or> length (key_fields l) \<noteq> 3")
  case True
  then show ?thesis
    by (auto simp: parse_key_line_def key_fields_def Let_def key_of_fields_def split: list.splits)
next
  case False
  then obtain a t h where fs: "key_fields l = [a, t, h]" by (auto simp: length_Suc_conv numeral_eq_Suc)
  have len: "hex_DecodeString h = Some s \<Longrightarrow> length h = 2 * KeySize \<longleftrightarrow> length s = KeySize" for s
    using hex_DecodeString_length [of h s] by auto
  show ?thesis
    using fs len unfolding key_fields_def parse_key_line_def Let_def key_of_fields_def
    by (auto split: option.splits)
qed

text \<open>The ring after a sequence of lines.\<close>

lemma parse_key_lines_spec:
  "parse_key_lines ks n ls = Inr ks' \<Longrightarrow>
     (\<forall>l \<in> set ls. key_fields l \<noteq> [] \<longrightarrow> (\<exists>i k. key_of_fields (key_fields l) = Some (i, k) \<and> ks' i = Some k)) \<and>
     (\<forall>i k. ks' i = Some k \<longrightarrow> ks i = Some k \<or> (\<exists>l \<in> set ls. key_of_fields (key_fields l) = Some (i, k))) \<and>
     (\<forall>i k. ks i = Some k \<longrightarrow> ks' i = Some k)"
proof (induction ls arbitrary: ks n)
  case (Cons l ls)
  then obtain ks1 where 1: "parse_key_line ks (n + 1) l = Inr ks1" and 2: "parse_key_lines ks1 (n + 1) ls = Inr ks'"
    by (auto split: sum.splits)
  note ih = Cons.IH [OF 2]
  show ?case
  proof (cases "key_fields l = []")
    case True
    with 1 have "ks1 = ks" by (simp add: parse_key_line_spec)
    with ih True show ?thesis by auto
  next
    case False
    with 1 obtain i k where k: "key_of_fields (key_fields l) = Some (i, k)" "ks i = None" "ks1 = ks(i \<mapsto> k)"
      by (auto simp: parse_key_line_spec)
    then have "ks' i = Some k" and "ks j = Some x \<Longrightarrow> ks' j = Some x" for j x
      using ih by (simp_all add: fun_upd_apply, metis option.distinct(1))
    moreover have "ks j = Some x \<or> (\<exists>m \<in> set (l # ls). key_of_fields (key_fields m) = Some (j, x))"
      if "ks' j = Some x" for j x
    proof -
      have "ks1 j = Some x \<or> (\<exists>m \<in> set ls. key_of_fields (key_fields m) = Some (j, x))" using ih that by blast
      then show ?thesis using k by (cases "j = i") auto
    qed
    ultimately show ?thesis using ih k by simp
  qed
qed simp

lemma key_of_fields_valid:
  "key_of_fields fs = Some (i, k) \<Longrightarrow> k_ID k = i \<and> 1 \<le> unat i \<and> unat i \<le> 65535 \<and> length (k_Secret k) = KeySize"
  by (auto simp: key_of_fields_def unat_of_nat split: list.splits option.splits if_splits)

lemma ParseKeys_lines: "ParseKeys text = Inr ks \<Longrightarrow> parse_key_lines Map.empty 0 (fst (scan_lines text)) = Inr ks"
  by (auto simp: ParseKeys_def split: prod.splits sum.splits if_splits)

text \<open>A ring whose every key can be used: the shape \<open>ParseKeys\<close> gives it.\<close>

definition valid_keys :: "keys \<Rightarrow> bool" where
  "valid_keys ks \<longleftrightarrow> (\<forall>i k. ks i = Some k \<longrightarrow>
      k_ID k = i \<and> 1 \<le> unat i \<and> unat i \<le> 65535 \<and> length (k_Secret k) = KeySize)"

lemma ParseKeys_valid: "ParseKeys inp = Inr ks \<Longrightarrow> valid_keys ks"
  using parse_key_lines_spec [OF ParseKeys_lines, of inp ks] key_of_fields_valid
  unfolding valid_keys_def by fastforce

section \<open>The example of RFC 4493 for the empty message\<close>

definition rfc4493_key :: "byte list" where
  "rfc4493_key = [0x2b, 0x7e, 0x15, 0x16, 0x28, 0xae, 0xd2, 0xa6, 0xab, 0xf7, 0x15, 0x88, 0x09, 0xcf, 0x4f, 0x3c]"

lemma replicate_16: "replicate 16 x = [x, x, x, x, x, x, x, x, x, x, x, x, x, x, x, x]"
  by (simp add: numeral_eq_Suc)

lemma rfc4493_subkey:
  "shiftLeftAndCondition (aes_encrypt rfc4493_key (replicate 16 0)) =
   [0xfb, 0xee, 0xd6, 0x18, 0x35, 0x71, 0x33, 0x66, 0x7c, 0x85, 0xe0, 0x8f, 0x72, 0x36, 0xa8, 0xde]"
proof -
  have "aes_encrypt rfc4493_key (replicate 16 0) =
    [0x7d, 0xf7, 0x6b, 0x0c, 0x1a, 0xb8, 0x99, 0xb3, 0x3e, 0x42, 0xf0, 0x47, 0xb9, 0x1b, 0x54, 0x6f]"
    by (simp add: aes_eval rfc4493_key_def replicate_16)
  then show ?thesis by (simp add: shiftLeftAndCondition_def shl_carry_def)
qed

lemma rfc4493_last:
  "aes_encrypt rfc4493_key
     [0x77, 0xdd, 0xac, 0x30, 0x6a, 0xe2, 0x66, 0xcc, 0xf9, 0x0b, 0xc1, 0x1e, 0xe4, 0x6d, 0x51, 0x3b] =
   [0xbb, 0x1d, 0x69, 0x29, 0xe9, 0x59, 0x37, 0x28, 0x7f, 0xa3, 0x7d, 0x12, 0x9b, 0x75, 0x67, 0x46]"
  by (simp add: aes_eval rfc4493_key_def)

lemma CMAC_rfc4493_empty:
  "CMAC rfc4493_key [] =
   Some [0xbb, 0x1d, 0x69, 0x29, 0xe9, 0x59, 0x37, 0x28, 0x7f, 0xa3, 0x7d, 0x12, 0x9b, 0x75, 0x67, 0x46]"
proof -
  have k2: "shiftLeftAndCondition [0xfb, 0xee, 0xd6, 0x18, 0x35, 0x71, 0x33, 0x66, 0x7c, 0x85, 0xe0, 0x8f, 0x72, 0x36, 0xa8, 0xde] =
    [0xf7, 0xdd, 0xac, 0x30, 0x6a, 0xe2, 0x66, 0xcc, 0xf9, 0x0b, 0xc1, 0x1e, 0xe4, 0x6d, 0x51, 0x3b]"
    by (simp add: shiftLeftAndCondition_def shl_carry_def)
  have l: "cmac_last k1 [0xf7, 0xdd, 0xac, 0x30, 0x6a, 0xe2, 0x66, 0xcc, 0xf9, 0x0b, 0xc1, 0x1e, 0xe4, 0x6d, 0x51, 0x3b] [] 1 False =
    [0x77, 0xdd, 0xac, 0x30, 0x6a, 0xe2, 0x66, 0xcc, 0xf9, 0x0b, 0xc1, 0x1e, 0xe4, 0x6d, 0x51, 0x3b]" for k1
    by (simp add: cmac_last_def xorInto_def replicate_16)
  have "xorInto [0x77, 0xdd, 0xac, 0x30, 0x6a, 0xe2, 0x66, 0xcc, 0xf9, 0x0b, 0xc1, 0x1e, 0xe4, 0x6d, 0x51, 0x3b] (replicate 16 0) =
    [0x77, 0xdd, 0xac, 0x30, 0x6a, 0xe2, 0x66, 0xcc, 0xf9, 0x0b, 0xc1, 0x1e, 0xe4, 0x6d, 0x51, 0x3b]"
    by (simp add: xorInto_def replicate_16)
  moreover have "length rfc4493_key = KeySize" by (simp add: rfc4493_key_def)
  ultimately show ?thesis
    unfolding CMAC_def Let_def rfc4493_subkey k2 using rfc4493_last by (simp add: l [simplified])
qed

section \<open>Properties\<close>

text \<open>C29: The code's CMAC is the CMAC of RFC 4493 over AES-128: subkeys by doubling in the field of the
  blocks, the last block padded and masked, CBC over the blocks. It returns a digest of 16 bytes for
  every message under a key of 16 bytes, and panics on any other key.\<close>
theorem CMAC_is_rfc4493:
  "CMAC key msg = (if length key = KeySize then Some (rfc4493 (aes_encrypt key) msg) else None) \<and>
   (\<forall>d. CMAC key msg = Some d \<longrightarrow> length d = 16)"
proof (intro conjI allI impI)
  show "CMAC key msg = (if length key = KeySize then Some (rfc4493 (aes_encrypt key) msg) else None)"
  proof (cases "length key = KeySize")
    case True
    then show ?thesis unfolding if_P [OF True] by (rule CMAC_blocks)
  next
    case False
    then show ?thesis unfolding CMAC_def if_not_P [OF False] by (rule if_P)
  qed
qed (rule CMAC_length)

theorem CMAC_is_rfc4493_witness:
  "CMAC rfc4493_key [] =
     Some [0xbb, 0x1d, 0x69, 0x29, 0xe9, 0x59, 0x37, 0x28, 0x7f, 0xa3, 0x7d, 0x12, 0x9b, 0x75, 0x67, 0x46] \<and>
   length [0xbb, 0x1d, 0x69, 0x29, 0xe9, 0x59, 0x37, 0x28, 0x7f, 0xa3, 0x7d, 0x12, 0x9b, 0x75, 0x67, 0x46 :: byte] = 16"
  using CMAC_is_rfc4493 [of rfc4493_key "[]"] CMAC_rfc4493_empty by blast

text \<open>C30: A verifier accepts exactly what a signer produces. Of a datagram that \<open>Decode\<close> accepts with a
  trailer, \<open>Verify\<close> of the bytes before the trailer succeeds if and only if \<open>Append\<close> of those bytes
  under the same key gives the datagram; and a marshalled packet signed with a key of the ring decodes
  to the packet and verifies.\<close>
theorem Verify_exactly_Append:
  assumes "length (k_Secret k) = KeySize" and "p_Version p \<noteq> 0" and "\<not> p_Version p > ntp_Version"
    and "Decode b = Inr (q, Some m, off)"
  shows "(Verify k (take off b) (Some m) = Some True \<longleftrightarrow> Append k (take off b) = Some b) \<and>
    (\<exists>signed mac. Append k (Marshal p) = Some signed \<and> Decode signed = Inr (p, Some mac, HeaderSize) \<and>
       Verify k (take HeaderSize signed) (Some mac) = Some True)"
proof
  show "Verify k (take off b) (Some m) = Some True \<longleftrightarrow> Append k (take off b) = Some b"
    by (rule Verify_iff_Append [OF assms(4)])
  obtain d where d: "CMAC (k_Secret k) (Marshal p) = Some d" "length d = 16" using CMAC_total assms(1) by blast
  let ?s = "Marshal p @ put_uint32 (k_ID k) @ d"
  have dec: "Decode ?s = Inr (p, Some \<lparr>m_KeyID = k_ID k, m_Digest = d\<rparr>, HeaderSize)"
    using Decode_signed [OF assms(2,3), of d "k_ID k"] d by simp
  show "\<exists>signed mac. Append k (Marshal p) = Some signed \<and> Decode signed = Inr (p, Some mac, HeaderSize) \<and>
       Verify k (take HeaderSize signed) (Some mac) = Some True"
    using dec d by (intro exI [of _ ?s] exI [of _ "\<lparr>m_KeyID = k_ID k, m_Digest = d\<rparr>"])
      (simp add: Append_def Verify_Some_True)
qed

theorem Verify_exactly_Append_witness:
  "(Verify \<lparr>k_ID = 7, k_Secret = rfc4493_key\<rparr> (Marshal sample_packet) (Some \<lparr>m_KeyID = 7, m_Digest = replicate 16 9\<rparr>) = Some True \<longleftrightarrow>
    Append \<lparr>k_ID = 7, k_Secret = rfc4493_key\<rparr> (Marshal sample_packet) =
      Some (Marshal sample_packet @ put_uint32 7 @ replicate 16 9)) \<and>
   (\<exists>signed mac. Append \<lparr>k_ID = 7, k_Secret = rfc4493_key\<rparr> (Marshal sample_packet) = Some signed \<and>
      Decode signed = Inr (sample_packet, Some mac, HeaderSize) \<and>
      Verify \<lparr>k_ID = 7, k_Secret = rfc4493_key\<rparr> (take HeaderSize signed) (Some mac) = Some True)"
proof -
  have k: "length (k_Secret \<lparr>k_ID = 7, k_Secret = rfc4493_key\<rparr>) = KeySize" by (simp add: rfc4493_key_def)
  have v: "p_Version sample_packet \<noteq> 0" "\<not> p_Version sample_packet > ntp_Version"
    by (simp_all add: sample_packet_def)
  have d: "Decode (Marshal sample_packet @ put_uint32 7 @ replicate 16 9) =
      Inr (sample_packet, Some \<lparr>m_KeyID = 7, m_Digest = replicate 16 9\<rparr>, HeaderSize)"
    using Decode_signed [OF v, of "replicate 16 9" 7] by simp
  show ?thesis using Verify_exactly_Append [OF k v d] by simp
qed

text \<open>C38: A keys file that parses gives exactly the keys its lines spell: every line with any field
  left after the comment is cut is an id from 1 to 65535, the type and 32 hexadecimal digits, its key is
  in the ring under its id, the ring holds nothing else, no two such lines share an id, and every key
  in it can be used to sign and verify without a panic. A file that group or others may access is
  refused whatever it holds.\<close>
theorem ParseKeys_exact:
  assumes "ParseKeys inp = Inr ks" and "perm AND 0x3F \<noteq> 0"
  shows "(\<forall>i k. ks i = Some k \<longleftrightarrow> (\<exists>l \<in> set (fst (scan_lines inp)). key_of_fields (key_fields l) = Some (i, k))) \<and>
         (\<forall>l \<in> set (fst (scan_lines inp)). key_fields l = [] \<or> key_of_fields (key_fields l) \<noteq> None) \<and>
         valid_keys ks \<and> (\<forall>i k pkt mac. ks i = Some k \<longrightarrow> Append k pkt \<noteq> None \<and> Verify k pkt mac \<noteq> None) \<and>
         LoadKeys (Some (Some perm, inp)) = Inl (Permissions perm)"
proof (intro conjI allI)
  note sp = parse_key_lines_spec [OF ParseKeys_lines [OF assms(1)]]
  show v: "valid_keys ks" by (rule ParseKeys_valid [OF assms(1)])
  show "ks i = Some k \<longleftrightarrow> (\<exists>l \<in> set (fst (scan_lines inp)). key_of_fields (key_fields l) = Some (i, k))" for i k
  proof
    assume "ks i = Some k"
    then show "\<exists>l \<in> set (fst (scan_lines inp)). key_of_fields (key_fields l) = Some (i, k)" using sp by auto
  next
    assume "\<exists>l \<in> set (fst (scan_lines inp)). key_of_fields (key_fields l) = Some (i, k)"
    then obtain l where l: "l \<in> set (fst (scan_lines inp))" "key_of_fields (key_fields l) = Some (i, k)" by blast
    then have "key_fields l \<noteq> []" by (auto simp: key_of_fields_def)
    with l sp show "ks i = Some k" by (metis (no_types, lifting) option.inject prod.inject)
  qed
  show "\<forall>l \<in> set (fst (scan_lines inp)). key_fields l = [] \<or> key_of_fields (key_fields l) \<noteq> None"
    using sp by auto
  show "ks i = Some k \<longrightarrow> Append k pkt \<noteq> None \<and> Verify k pkt mac \<noteq> None" for i k pkt mac
    using v Append_total [of k pkt] Verify_total [of k pkt mac] by (auto simp: valid_keys_def)
  show "LoadKeys (Some (Some perm, inp)) = Inl (Permissions perm)" using assms(2) by (simp add: LoadKeys_def)
qed

definition sample_keys :: string where
  "sample_keys = ''# ring'' @ [nl] @ ''7 aes128cmac 000102030405060708090A0b0c0d0e0f # lab'' @ [nl]"

theorem ParseKeys_exact_witness:
  "(\<exists>ks. ParseKeys sample_keys = Inr ks \<and> ks 7 = Some \<lparr>k_ID = 7, k_Secret = map of_nat [0..<16]\<rparr> \<and> valid_keys ks) \<and>
   LoadKeys (Some (Some 0x1A4, sample_keys)) = Inl (Permissions 0x1A4)"
proof -
  have p: "ParseKeys sample_keys = Inr [7 \<mapsto> \<lparr>k_ID = 7, k_Secret = map of_nat [0..<16]\<rparr>]"
    by (simp add: ParseKeys_def sample_keys_def parse_key_line_def text_eval upt_conv_Cons)
  show ?thesis using ParseKeys_exact [OF p, of "0x1A4"] p by simp
qed

end
