(* ===== verification/NTP_Exchange.thy ===== *)
theory NTP_Exchange
  imports NTP_Auth
begin

text \<open>
  One request and its reply: \<^verbatim>\<open>internal/source/poll.go\<close> and the functions \<^verbatim>\<open>resolve\<close>, \<^verbatim>\<open>exchange\<close> and
  \<^verbatim>\<open>Query\<close> of \<^verbatim>\<open>internal/source/ntp.go\<close>. What the socket, the clock and the random generator
  return in an exchange is a record \<open>exchange_env\<close>; the datagrams read are the finite list of what arrives
  before the deadline, after which the read times out.
\<close>

section \<open>Poll exponents\<close>

definition clampPoll :: "int8 \<Rightarrow> int8 \<Rightarrow> int8 \<Rightarrow> int8" where
  "clampPoll poll lo hi = (if sint poll < sint lo then lo else if sint poll > sint hi then hi else poll)"

definition adaptPoll :: "int8 \<Rightarrow> f64 \<Rightarrow> f64 \<Rightarrow> int8 \<Rightarrow> int8 \<Rightarrow> int8" where
  "adaptPoll poll offset jitter lo hi =
     (let offset = (if offset < Fin 0 then - offset else offset);
          poll = (if offset < Fin 4 * jitter then poll + 1 else poll - 1)
      in clampPoll poll lo hi)"

definition pollJitter :: f64 where "pollJitter = f64_of_real (5 / 100)"

definition pollInterval :: "f64 \<Rightarrow> int8 \<Rightarrow> int8 \<Rightarrow> duration option" where
  \<comment> \<open>\<open>r\<close> is what \<^verbatim>\<open>rand.Float64\<close> returns\<close>
  "pollInterval r poll floorPoll =
     (let jitter = Fin 1 + (r * Fin 2 - Fin 1) * pollJitter
      in case f64_trunc (Log2Seconds poll * jitter * Fin 1000000000) of
           None \<Rightarrow> None
         | Some d \<Rightarrow>
             if sint floorPoll > 0 then
               (case f64_trunc (Log2Seconds floorPoll * Fin 1000000000) of
                  None \<Rightarrow> None
                | Some fl \<Rightarrow> Some (if d < fl then fl else d))
             else Some d)"

abbreviation (input) maxRemoteBackoffPoll :: int8 where "maxRemoteBackoffPoll \<equiv> 13"

definition clampPrecision :: "int8 \<Rightarrow> int8" where
  "clampPrecision p = (if sint p > 0 then 0 else if sint p < - 30 then - 30 else p)"

definition sameEndpoint :: "addr_port \<Rightarrow> addr_port \<Rightarrow> bool" where
  "sameEndpoint a b \<longleftrightarrow> ap_port a = ap_port b \<and> addr_unmap (ap_addr a) = addr_unmap (ap_addr b)"

definition resolve :: "ipaddr option \<Rightarrow> ipaddr list option \<Rightarrow> uint16 \<Rightarrow> addr_port list option" where
  \<comment> \<open>\<open>literal\<close> is the host read as an address, \<open>answers\<close> what the resolver returns for it\<close>
  "resolve literal answers port =
     (case literal of
        Some a \<Rightarrow> Some [\<lparr>ap_addr = addr_unmap a, ap_port = port\<rparr>]
      | None \<Rightarrow>
          (case answers of
             None \<Rightarrow> None
           | Some addrs \<Rightarrow>
               if length addrs = 0 then None
               else Some (map (\<lambda>a. \<lparr>ap_addr = addr_unmap a, ap_port = port\<rparr>) addrs)))"

section \<open>The exchange\<close>

datatype bogus_reason =
    BadMode mode | NoKissCode | BadStratum uint8 | ServerUnsynchronized | ZeroTimestamp
  | BadDelay f64 | BadRootDistance f64 | FutureReference

datatype exchange_error =
    ErrTimeout | ErrBadAuth | ErrUnreachable | ErrNetworkUnreachable | ErrCancelled
  | Bogus bogus_reason
  | Kiss string packet bool
  | ErrOther
    \<comment> \<open>the wrapped errors of the socket and the random generator\<close>

record exchangeParams =
  xp_addr :: addr_port
  xp_key :: "auth_key option"
  xp_poll :: int8
  xp_precision :: int8
    \<comment> \<open>the clock's precision\<close>
  xp_kernelTS :: bool

record exchangeResult =
  er_Sent :: bool
  er_Packet :: packet
  er_MAC :: "mac_trailer option"
  er_Authenticated :: bool
  er_T1 :: gtime
  er_T4 :: gtime
  er_KernelTS :: bool
  er_Offset :: f64
  er_Delay :: f64

datatype socket_error = SockTimeout | SockRefused | SockNoRoute | SockOther

datatype read_event =
    ReadError bool socket_error
    \<comment> \<open>whether the context was cancelled, and the error\<close>
  | Datagram "byte list" addr_port gtime "gtime option"
    \<comment> \<open>the datagram, its source, the clock after the read and the kernel's timestamp\<close>

record exchange_env =
  xe_nonce :: "byte list option"
  xe_socket :: bool
  xe_deadline :: bool
  xe_t1 :: gtime
  xe_write :: "socket_error option"
  xe_reads :: "read_event list"
  xe_cancelled :: bool
    \<comment> \<open>whether the context is cancelled when the deadline ends the last read\<close>

abbreviation (input) ntp_MaxPacketSize :: nat where "ntp_MaxPacketSize \<equiv> 1500"

definition zero_packet :: packet where
  "zero_packet = \<lparr>p_Leap = LeapNone, p_Version = 0, p_Mode = ModeReserved, p_Stratum = 0, p_Poll = 0,
     p_Precision = 0, p_RootDelay = 0, p_RootDispersion = 0, p_ReferenceID = zero_refid,
     p_ReferenceTime = 0, p_OriginTime = 0, p_ReceiveTime = 0, p_TransmitTime = 0\<rparr>"

definition zero_result :: exchangeResult where
  "zero_result = \<lparr>er_Sent = False, er_Packet = zero_packet, er_MAC = None, er_Authenticated = False,
     er_T1 = zero_time, er_T4 = zero_time, er_KernelTS = False, er_Offset = Fin 0, er_Delay = Fin 0\<rparr>"

definition request_packet :: "exchangeParams \<Rightarrow> byte list \<Rightarrow> packet" where
  "request_packet p nonce =
     zero_packet\<lparr>p_Version := ntp_Version, p_Mode := ModeClient, p_Poll := xp_poll p,
       p_Precision := xp_precision p, p_TransmitTime := get_uint64 nonce\<rparr>"

definition request_bytes :: "exchangeParams \<Rightarrow> packet \<Rightarrow> byte list option" where
  "request_bytes p req =
     (case xp_key p of None \<Rightarrow> Some (Marshal req) | Some k \<Rightarrow> Append k (Marshal req))"

definition dial_addr :: "addr_port \<Rightarrow> addr_port" where
  "dial_addr a =
     (let u = addr_unmap (ap_addr a) in if addr_is4 u then \<lparr>ap_addr = u, ap_port = ap_port a\<rparr> else a)"

definition reply_tolerance :: "exchangeParams \<Rightarrow> packet \<Rightarrow> f64" where
  "reply_tolerance p pkt = Log2Seconds (xp_precision p) + Log2Seconds (clampPrecision (p_Precision pkt))"

definition reply_delay :: "gtime \<Rightarrow> gtime \<Rightarrow> packet \<Rightarrow> f64" where
  "reply_delay t1 t4 pkt =
     ntp_Sub (FromTime t4) (FromTime t1) - ntp_Sub (p_TransmitTime pkt) (p_ReceiveTime pkt)"

definition reply_offset :: "gtime \<Rightarrow> gtime \<Rightarrow> packet \<Rightarrow> f64" where
  "reply_offset t1 t4 pkt =
     (ntp_Sub (p_ReceiveTime pkt) (FromTime t1) + ntp_Sub (p_TransmitTime pkt) (FromTime t4)) / Fin 2"

definition reply_distance :: "packet \<Rightarrow> f64" where
  "reply_distance pkt = short_Seconds (p_RootDelay pkt) / Fin 2 + short_Seconds (p_RootDispersion pkt)"

definition check_reply :: "exchangeParams \<Rightarrow> gtime \<Rightarrow> gtime \<Rightarrow> packet \<Rightarrow> bool \<Rightarrow> exchange_error + (f64 \<times> f64)" where
  \<comment> \<open>the checks of a reply that is a server's and is authenticated: its offset and delay\<close>
  "check_reply p t1 t4 pkt authenticated =
     (if IsKiss pkt then
        (if KissCode pkt = [] then Inl (Bogus NoKissCode)
         else Inl (Kiss (KissCode pkt) pkt authenticated))
      else if p_Stratum pkt > 15 then Inl (Bogus (BadStratum (p_Stratum pkt)))
      else if p_Leap pkt = LeapUnsync then Inl (Bogus ServerUnsynchronized)
      else if ntp_IsZero (p_TransmitTime pkt) \<or> ntp_IsZero (p_ReceiveTime pkt) then Inl (Bogus ZeroTimestamp)
      else (let delay = reply_delay t1 t4 pkt
            in if delay < - reply_tolerance p pkt \<or> delay \<ge> Fin 16 then Inl (Bogus (BadDelay delay))
               else (let delay = (if delay < Fin 0 then Fin 0 else delay);
                         rd = reply_distance pkt
                     in if rd \<ge> Fin (3 / 2) then Inl (Bogus (BadRootDistance rd))
                        else if ntp_Sub (p_ReferenceTime pkt) (p_TransmitTime pkt) > Fin 1
                        then Inl (Bogus FutureReference)
                        else Inr (reply_offset t1 t4 pkt, delay))))"

definition authentic :: "auth_key option \<Rightarrow> byte list \<Rightarrow> mac_trailer option \<Rightarrow> nat \<Rightarrow> bool option" where
  "authentic key rbuf mac macOff =
     (case key of
        None \<Rightarrow> Some True
      | Some k \<Rightarrow>
          if mac = None \<or> IsCryptoNAK mac then Some False
          else Verify k (take macOff rbuf) mac)"

definition take_reply ::
    "exchangeParams \<Rightarrow> exchangeResult \<Rightarrow> gtime \<Rightarrow> byte list \<Rightarrow> packet \<Rightarrow> mac_trailer option \<Rightarrow> nat \<Rightarrow>
     (exchangeResult \<times> exchange_error option) option" where
  \<comment> \<open>a datagram that answers the request; \<open>res\<close> already holds it\<close>
  "take_reply p res t1 rbuf pkt mac macOff =
     (if p_Mode pkt \<noteq> ModeServer then Some (res, Some (Bogus (BadMode (p_Mode pkt))))
      else case authentic (xp_key p) rbuf mac macOff of
          None \<Rightarrow> None
        | Some False \<Rightarrow> Some (res, Some ErrBadAuth)
        | Some True \<Rightarrow>
            (let res = res\<lparr>er_Authenticated := (xp_key p \<noteq> None)\<rparr>
             in case check_reply p t1 (er_T4 res) pkt (er_Authenticated res) of
                  Inl e \<Rightarrow> Some (res, Some e)
                | Inr (offset, delay) \<Rightarrow> Some (res\<lparr>er_Offset := offset, er_Delay := delay\<rparr>, None)))"

fun exchange_reads ::
    "exchangeParams \<Rightarrow> addr_port \<Rightarrow> packet \<Rightarrow> exchangeResult \<Rightarrow> bool \<Rightarrow> read_event list \<Rightarrow>
     (exchangeResult \<times> exchange_error option) option" where
  "exchange_reads p addr req res cancelled [] =
     Some (res, Some (if cancelled then ErrCancelled else ErrTimeout))"
| "exchange_reads p addr req res cancelled (ReadError c e # evs) =
     Some (res, Some (if c then ErrCancelled
       else case e of SockTimeout \<Rightarrow> ErrTimeout | SockRefused \<Rightarrow> ErrUnreachable
            | SockNoRoute \<Rightarrow> ErrNetworkUnreachable | SockOther \<Rightarrow> ErrOther))"
| "exchange_reads p addr req res cancelled (Datagram bs from' now kt # evs) =
     (let rbuf = take ntp_MaxPacketSize bs;
          (t4, kernel) = (case kt of Some t \<Rightarrow> if xp_kernelTS p then (t, True) else (now, False)
                          | None \<Rightarrow> (now, False))
      in if \<not> sameEndpoint from' addr then exchange_reads p addr req res cancelled evs
         else case Decode rbuf of
             Inl _ \<Rightarrow> exchange_reads p addr req res cancelled evs
           | Inr (pkt, mac, macOff) \<Rightarrow>
               if p_OriginTime pkt \<noteq> p_TransmitTime req then exchange_reads p addr req res cancelled evs
               else take_reply p (res\<lparr>er_Packet := pkt, er_MAC := mac, er_T4 := t4, er_KernelTS := kernel\<rparr>)
                      (er_T1 res) rbuf pkt mac macOff)"

definition exchange :: "exchangeParams \<Rightarrow> exchange_env \<Rightarrow> (exchangeResult \<times> exchange_error option) option" where
  \<comment> \<open>\<open>None\<close> is a panic, of signing or verifying with a key of a wrong size\<close>
  "exchange p env =
     (case xe_nonce env of
        None \<Rightarrow> Some (zero_result, Some ErrOther)
      | Some nonce \<Rightarrow>
          (let req = request_packet p nonce
           in case request_bytes p req of
                None \<Rightarrow> None
              | Some buf \<Rightarrow>
                  let addr = dial_addr (xp_addr p)
                  in if \<not> xe_socket env then Some (zero_result, Some ErrOther)
                     else if \<not> xe_deadline env then Some (zero_result, Some ErrOther)
                     else case xe_write env of
                         Some SockRefused \<Rightarrow> Some (zero_result, Some ErrUnreachable)
                       | Some SockNoRoute \<Rightarrow> Some (zero_result, Some ErrNetworkUnreachable)
                       | Some _ \<Rightarrow> Some (zero_result, Some ErrOther)
                       | None \<Rightarrow>
                           exchange_reads p addr req (zero_result\<lparr>er_Sent := True, er_T1 := xe_t1 env\<rparr>)
                             (xe_cancelled env) (xe_reads env)))"

record query_result =
  qr_Server :: addr_port
  qr_Offset :: f64
  qr_Delay :: f64
  qr_Packet :: packet
  qr_T1 :: gtime
  qr_T2 :: gtime
  qr_T3 :: gtime
  qr_T4 :: gtime
  qr_KernelTS :: bool
  qr_Authenticated :: bool

datatype query_error = LookupFailed | QueryFailed addr_port exchange_error

definition Query ::
    "ipaddr option \<Rightarrow> ipaddr list option \<Rightarrow> uint16 \<Rightarrow> auth_key option \<Rightarrow> int8 \<Rightarrow> exchange_env \<Rightarrow>
     (query_error + query_result) option" where
  "Query literal answers port key precision env =
     (case resolve literal answers port of
        None \<Rightarrow> Some (Inl LookupFailed)
      | Some addrs \<Rightarrow>
          (let addr = addrs ! 0
           in case exchange \<lparr>xp_addr = addr, xp_key = key, xp_poll = 6, xp_precision = precision, xp_kernelTS = True\<rparr> env of
                None \<Rightarrow> None
              | Some (res, Some e) \<Rightarrow> Some (Inl (QueryFailed addr e))
              | Some (res, None) \<Rightarrow>
                  Some (Inr \<lparr>qr_Server = addr, qr_Offset = er_Offset res, qr_Delay = er_Delay res,
                    qr_Packet = er_Packet res, qr_T1 = er_T1 res,
                    qr_T2 = ntp_Time (p_ReceiveTime (er_Packet res)) (er_T1 res),
                    qr_T3 = ntp_Time (p_TransmitTime (er_Packet res)) (er_T1 res),
                    qr_T4 = er_T4 res, qr_KernelTS = er_KernelTS res,
                    qr_Authenticated = er_Authenticated res\<rparr>)))"

section \<open>Exactness of the arithmetic on timestamps\<close>

lemma scaled_exact:
  assumes "\<bar>n\<bar> < 2 ^ 53" "k \<le> 1074"
  shows "f64_of_real (of_int n / 2 ^ k) = Fin (of_int n / 2 ^ k)"
proof (rule f64_of_real_exact)
  have "of_int n / 2 ^ k = of_int n * (2::real) powi (- int k)" by (simp add: power_int_minus divide_inverse)
  then show "rnd (of_int n / 2 ^ k) = of_int n / 2 ^ k"
    using rnd_representable [OF assms(1), of "- int k"] assms(2) by simp
  have "\<bar>of_int n / (2::real) ^ k\<bar> \<le> \<bar>of_int n\<bar>"
    by (simp add: abs_divide divide_le_eq mult_le_cancel_left1)
  also have "\<dots> < 2 ^ 53" using assms(1) by (simp flip: of_int_abs)
  also have "\<dots> < f64_limit" by (rule f64_limit_pos)
  finally show "\<bar>of_int n / (2::real) ^ k\<bar> < f64_limit" .
qed

lemma sint_word_of_int:
  assumes "\<bar>d\<bar> < 2 ^ 53"
  shows "sint (word_of_int d :: 64 word) = d"
proof -
  have "- (2 ^ 63) \<le> d" "d < 2 ^ 63" using assms by (simp_all add: abs_less_iff)
  then show ?thesis by (simp add: sint_sbintrunc' signed_take_bit_int_eq_self)
qed

lemma ntp_Sub_exact:
  assumes "t = u + word_of_int d" "\<bar>d\<bar> < 2 ^ 53"
  shows "ntp_Sub t u = Fin (of_int d / 2 ^ 32)"
proof -
  have "sint (t - u) = d" using sint_word_of_int [OF assms(2)] unfolding assms(1) by simp
  then show ?thesis using scaled_exact [OF assms(2), of 32]
    unfolding ntp_Sub_def by (simp add: f64_of_int_small [OF assms(2)])
qed

lemma f64_of_int_range:
  assumes "\<bar>n\<bar> \<le> 2 ^ 63"
  shows "\<exists>r. f64_of_int n / Fin (2 ^ k) = Fin r"
proof -
  have w: "wf_f64 (Fin (2 ^ 63))" "wf_f64 (Fin (- (2 ^ 63)))"
    using rnd_representable [of 1 63] rnd_representable [of "- 1" 63] 
    by (simp_all add: wf_f64_def f64_limit_def)
  have "of_int \<bar>n\<bar> \<le> (of_int (2 ^ 63) :: real)" using assms unfolding of_int_le_iff .
  then have "\<bar>of_int n\<bar> \<le> (2::real) ^ 63" unfolding of_int_abs by simp
  then have "of_int n \<le> (2::real) ^ 63" "- (2 ^ 63) \<le> (of_int n :: real)" unfolding abs_le_iff by linarith+
  then have "Fin (- (2 ^ 63)) \<le> f64_of_real (of_int n)" "f64_of_real (of_int n) \<le> Fin (2 ^ 63)"
    using f64_of_real_ge [OF w(2)] f64_of_real_le [OF w(1)] by blast+
  then obtain r where r: "f64_of_int n = Fin r" "- (2 ^ 63) \<le> r" "r \<le> 2 ^ 63"
    using f64_between_Fin unfolding f64_of_int_def by blast
  have "\<bar>r / 2 ^ k\<bar> \<le> \<bar>r\<bar>" by (simp add: abs_divide divide_le_eq mult_le_cancel_left1)
  then have "- (2 ^ 63) \<le> r / 2 ^ k" "r / 2 ^ k \<le> 2 ^ 63" using r(2,3) by linarith+
  then have "Fin (- (2 ^ 63)) \<le> f64_of_real (r / 2 ^ k)" "f64_of_real (r / 2 ^ k) \<le> Fin (2 ^ 63)"
    using f64_of_real_ge [OF w(2)] f64_of_real_le [OF w(1)] by blast+
  then obtain q where "f64_of_real (r / 2 ^ k) = Fin q" using f64_between_Fin by blast
  then show ?thesis using r(1) by simp
qed

section \<open>What an exchange accepts\<close>

lemma sameEndpoint_dial [simp]: "sameEndpoint a (dial_addr b) = sameEndpoint a b"
  by (simp add: sameEndpoint_def dial_addr_def Let_def)

lemma check_reply_Inr:
  assumes "check_reply p t1 t4 pkt au = Inr (offset, delay)"
  shows "0 < p_Stratum pkt" "p_Stratum pkt \<le> 15" "p_Leap pkt \<noteq> LeapUnsync"
    "offset = reply_offset t1 t4 pkt"
    "delay = (if reply_delay t1 t4 pkt < Fin 0 then Fin 0 else reply_delay t1 t4 pkt)"
    "\<not> reply_delay t1 t4 pkt < - reply_tolerance p pkt" "\<not> reply_delay t1 t4 pkt \<ge> Fin 16"
    "\<not> reply_distance pkt \<ge> Fin (3 / 2)"
    "\<not> ntp_Sub (p_ReferenceTime pkt) (p_TransmitTime pkt) > Fin 1"
    "p_TransmitTime pkt \<noteq> 0" "p_ReceiveTime pkt \<noteq> 0"
  using assms unfolding check_reply_def Let_def IsKiss_def ntp_IsZero_def
  by (auto split: if_splits simp: word_gt_0 not_less)

lemma take_reply_accepts:
  assumes "take_reply p res t1 rbuf pkt mac macOff = Some (out, None)"
  shows "p_Mode pkt = ModeServer"
    "authentic (xp_key p) rbuf mac macOff = Some True"
    "check_reply p t1 (er_T4 res) pkt (xp_key p \<noteq> None) = Inr (er_Offset out, er_Delay out)"
    "out = res\<lparr>er_Authenticated := (xp_key p \<noteq> None), er_Offset := er_Offset out, er_Delay := er_Delay out\<rparr>"
  using assms unfolding take_reply_def Let_def
  by (auto split: if_splits option.splits bool.splits sum.splits)

lemma take_reply_keeps:
  assumes "take_reply p res t1 rbuf pkt mac macOff = Some (out, err)"
  shows "er_Packet out = er_Packet res" "er_MAC out = er_MAC res"
  using assms unfolding take_reply_def Let_def
  by (auto split: if_splits option.splits bool.splits sum.splits)

definition answered_from ::
    "exchangeParams \<Rightarrow> packet \<Rightarrow> exchangeResult \<Rightarrow> read_event list \<Rightarrow> exchangeResult \<Rightarrow> exchange_error option \<Rightarrow> bool" where
  \<comment> \<open>the outcome of a sequence of reads is that of one of the datagrams read, which answers the request\<close>
  "answered_from p req res evs out err \<longleftrightarrow>
     (\<exists>bs src now kt off t4 kernel.
        Datagram bs src now kt \<in> set evs \<and> sameEndpoint src (xp_addr p) \<and>
        Decode (take ntp_MaxPacketSize bs) = Inr (er_Packet out, er_MAC out, off) \<and>
        p_OriginTime (er_Packet out) = p_TransmitTime req \<and>
        (t4, kernel) = (case kt of Some t \<Rightarrow> if xp_kernelTS p then (t, True) else (now, False) | None \<Rightarrow> (now, False)) \<and>
        take_reply p (res\<lparr>er_Packet := er_Packet out, er_MAC := er_MAC out, er_T4 := t4, er_KernelTS := kernel\<rparr>)
          (er_T1 res) (take ntp_MaxPacketSize bs) (er_Packet out) (er_MAC out) off = Some (out, err))"

definition socket_failure :: "exchange_error option \<Rightarrow> bool" where
  "socket_failure err \<longleftrightarrow> err \<in> Some ` {ErrTimeout, ErrUnreachable, ErrNetworkUnreachable, ErrCancelled, ErrOther}"

lemma answered_from_mono: "answered_from p req res evs out err \<Longrightarrow> answered_from p req res (e # evs) out err"
  unfolding answered_from_def by (meson list.set_intros(2))

lemma exchange_reads_answered:
  assumes "exchange_reads p (dial_addr (xp_addr p)) req res c evs = Some (out, err)" "\<not> socket_failure err"
  shows "answered_from p req res evs out err"
  using assms
proof (induction evs)
  case Nil
  then show ?case by (auto simp: socket_failure_def split: if_splits)
next
  case (Cons e evs)
  show ?case
  proof (cases e)
    case (ReadError x y)
    then show ?thesis using Cons.prems by (auto simp: socket_failure_def split: if_splits socket_error.splits)
  next
    case (Datagram bs src now kt)
    let ?r = "take ntp_MaxPacketSize bs"
    obtain t4 kernel where t: "(case kt of Some t \<Rightarrow> if xp_kernelTS p then (t, True) else (now, False) | None \<Rightarrow> (now, False)) = (t4, kernel)"
      by (cases "case kt of Some t \<Rightarrow> if xp_kernelTS p then (t, True) else (now, False) | None \<Rightarrow> (now, False)")
    show ?thesis
    proof (cases "exchange_reads p (dial_addr (xp_addr p)) req res c evs = Some (out, err)")
      case True
      then show ?thesis by (rule answered_from_mono [OF Cons.IH [OF _ Cons.prems(2)]])
    next
      case False
      obtain pkt mac off where a: "sameEndpoint src (xp_addr p)" "Decode ?r = Inr (pkt, mac, off)"
        "p_OriginTime pkt = p_TransmitTime req"
        "take_reply p (res\<lparr>er_Packet := pkt, er_MAC := mac, er_T4 := t4, er_KernelTS := kernel\<rparr>)
           (er_T1 res) ?r pkt mac off = Some (out, err)"
        using Cons.prems(1) False unfolding Datagram exchange_reads.simps Let_def t
        by (auto split: if_splits sum.splits)
      have o: "er_Packet out = pkt" "er_MAC out = mac" using take_reply_keeps [OF a(4)] by simp_all
      show ?thesis unfolding answered_from_def
        using a t by (intro exI [of _ bs] exI [of _ src] exI [of _ now] exI [of _ kt] exI [of _ off]
          exI [of _ t4] exI [of _ kernel]) (simp add: o Datagram)
    qed
  qed
qed

lemma exchange_answered:
  assumes "exchange p env = Some (out, err)" "\<not> socket_failure err"
  obtains nonce where "xe_nonce env = Some nonce"
    "answered_from p (request_packet p nonce) (zero_result\<lparr>er_Sent := True, er_T1 := xe_t1 env\<rparr>) (xe_reads env) out err"
  using assms exchange_reads_answered unfolding exchange_def Let_def
  by (auto simp: socket_failure_def split: option.splits if_splits socket_error.splits)

lemma exchange_accepts:
  assumes "exchange p env = Some (out, None)"
  obtains nonce where "xe_nonce env = Some nonce"
    "answered_from p (request_packet p nonce) (zero_result\<lparr>er_Sent := True, er_T1 := xe_t1 env\<rparr>) (xe_reads env) out None"
  by (rule exchange_answered [OF assms]) (simp_all add: socket_failure_def that)

lemma take_reply_kiss:
  assumes "take_reply p res t1 rbuf pkt mac macOff = Some (out, Some (Kiss code kpkt au))"
  shows "authentic (xp_key p) rbuf mac macOff = Some True" "au \<longleftrightarrow> xp_key p \<noteq> None" "p_Mode pkt = ModeServer"
    "p_Stratum pkt = 0" "code = KissCode pkt" "kpkt = pkt"
  using assms unfolding take_reply_def check_reply_def Let_def IsKiss_def
  by (auto split: if_splits option.splits bool.splits sum.splits)

lemma take_reply_total:
  assumes "\<And>k. xp_key p = Some k \<Longrightarrow> length (k_Secret k) = KeySize"
  shows "take_reply p res t1 rbuf pkt mac macOff \<noteq> None"
proof -
  have "authentic (xp_key p) rbuf mac macOff \<noteq> None"
    using assms Verify_total unfolding authentic_def by (auto split: option.splits)
  then show ?thesis unfolding take_reply_def Let_def by (auto split: option.splits bool.splits sum.splits)
qed

lemma exchange_total:
  assumes "\<And>k. xp_key p = Some k \<Longrightarrow> length (k_Secret k) = KeySize"
  shows "exchange p env \<noteq> None"
proof -
  have r: "exchange_reads p addr req res c evs \<noteq> None" for addr req res c evs
    using take_reply_total [OF assms]
    by (induction p addr req res c evs rule: exchange_reads.induct) (auto simp: Let_def split: sum.splits prod.splits)
  have b: "\<exists>buf. request_bytes p req = Some buf" for req
    using assms Append_total by (fastforce simp: request_bytes_def split: option.splits)
  show ?thesis
  proof (cases "xe_nonce env")
    case (Some nonce)
    obtain buf where "request_bytes p (request_packet p nonce) = Some buf" using b by blast
    then show ?thesis unfolding exchange_def Let_def Some option.case
      using r by (simp split: option.split socket_error.split)
  qed (simp add: exchange_def)
qed

lemma ntp_Sub_Fin: "\<exists>r. ntp_Sub t u = Fin r"
proof -
  have "\<bar>sint (t - u)\<bar> \<le> 2 ^ 63" using sint_lt [of "t - u"] sint_ge [of "t - u"] by simp
  from f64_of_int_range [OF this, of 32] show ?thesis unfolding ntp_Sub_def by simp
qed

lemma f64_add_Fin_not_NaN: "Fin a + Fin b \<noteq> NaN" "Fin a - Fin b \<noteq> NaN"
  by simp_all

lemma reply_delay_not_NaN: "reply_delay t1 t4 pkt \<noteq> NaN"
  using ntp_Sub_Fin [of "FromTime t4" "FromTime t1"] ntp_Sub_Fin [of "p_TransmitTime pkt" "p_ReceiveTime pkt"]
  unfolding reply_delay_def by auto

lemma reply_distance_not_NaN: "reply_distance pkt \<noteq> NaN"
proof -
  have "short_Seconds s = Fin (of_int (uint s) / 65536)" for s
    unfolding short_Seconds_def by (rule short_exact) (rule uint32_range)+
  then show ?thesis unfolding reply_distance_def by (simp add: f64_of_real_def Let_def)
qed

lemma f64_less_of_not_le: "x \<noteq> NaN \<Longrightarrow> \<not> (Fin a \<le> x) \<Longrightarrow> x < Fin a"
  by (cases x) simp_all

lemma f64_le_of_not_less: "x \<noteq> NaN \<Longrightarrow> \<not> (x < Fin a) \<Longrightarrow> Fin a \<le> x"
  by (cases x) simp_all

lemma authentic_signed:
  assumes "authentic key b mac off = Some True" "Decode b = Inr (pkt, mac, off)" "key = Some k"
  shows "Append k (take off b) = Some b"
proof -
  obtain m where m: "mac = Some m" "Verify k (take off b) mac = Some True"
    using assms(1,3) unfolding authentic_def by (cases mac) (auto split: if_splits)
  show ?thesis using Verify_iff_Append [of b pkt m off k] assms(2) m by simp
qed

lemma exchange_accepts_reply:
  assumes "exchange p env = Some (out, None)"
  shows "check_reply p (er_T1 out) (er_T4 out) (er_Packet out) (xp_key p \<noteq> None) = Inr (er_Offset out, er_Delay out)"
proof -
  obtain rbuf off t4 kernel where
    r: "take_reply p ((zero_result\<lparr>er_Sent := True, er_T1 := xe_t1 env\<rparr>)\<lparr>er_Packet := er_Packet out,
        er_MAC := er_MAC out, er_T4 := t4, er_KernelTS := kernel\<rparr>)
        (er_T1 (zero_result\<lparr>er_Sent := True, er_T1 := xe_t1 env\<rparr>)) rbuf
        (er_Packet out) (er_MAC out) off = Some (out, None)"
    using exchange_accepts [OF assms] unfolding answered_from_def by metis
  have o: "er_T1 out = xe_t1 env" "er_T4 out = t4" by (subst take_reply_accepts(4) [OF r], simp)+
  show ?thesis using take_reply_accepts(3) [OF r] by (simp add: o)
qed

section \<open>Properties\<close>

definition sample_params :: exchangeParams where
  "sample_params = \<lparr>xp_addr = \<lparr>ap_addr = Addr4 0xC0000201, ap_port = 123\<rparr>, xp_key = None, xp_poll = 6,
     xp_precision = - 20, xp_kernelTS = True\<rparr>"

definition sample_reply :: packet where
  "sample_reply = zero_packet\<lparr>p_Version := 4, p_Mode := ModeServer, p_Stratum := 2, p_Precision := - 20,
     p_ReferenceTime := 0x83AA7E8000000000, p_OriginTime := 0x0102030405060708,
     p_ReceiveTime := 0x83AA7E8100000000, p_TransmitTime := 0x83AA7E8100000000\<rparr>"

definition sample_exchange :: exchange_env where
  \<comment> \<open>a server half a second ahead, a quarter of a second away on each side; the first datagram is a stranger's\<close>
  "sample_exchange = \<lparr>xe_nonce = Some [1, 2, 3, 4, 5, 6, 7, 8], xe_socket = True, xe_deadline = True,
     xe_t1 = 250000000, xe_write = None,
     xe_reads = [Datagram (Marshal sample_reply) \<lparr>ap_addr = Addr4 0xC0000263, ap_port = 123\<rparr> 0 None,
                 Datagram (Marshal sample_reply) \<lparr>ap_addr = Addr4 0xC0000201, ap_port = 123\<rparr> 750000001 (Some 750000000)],
     xe_cancelled = False\<rparr>"

lemma sample_times: "FromTime 250000000 = 0x83AA7E8040000000" "FromTime 750000000 = 0x83AA7E80C0000000"
  by (simp_all add: FromTime_def FromUnix_def time_unix_def time_nanosecond_def int64_wrap_id go_quot_def)

lemma sample_checked:
  "check_reply sample_params 250000000 750000000 sample_reply False = Inr (Fin (1 / 2), Fin (1 / 2))"
proof -
  have f: "FromTime 250000000 = 0x83AA7E8040000000" "FromTime 750000000 = 0x83AA7E80C0000000"
    by (rule sample_times)+
  have d: "reply_delay 250000000 750000000 sample_reply = Fin (1 / 2)"
    using ntp_Sub_exact [of "0x83AA7E80C0000000" "0x83AA7E8040000000" "0x80000000"]
      ntp_Sub_exact [of "0x83AA7E8100000000" "0x83AA7E8100000000" 0]
    unfolding reply_delay_def f by (simp add: sample_reply_def f64_eval)
  have o: "reply_offset 250000000 750000000 sample_reply = Fin (1 / 2)"
    using ntp_Sub_exact [of "0x83AA7E8100000000" "0x83AA7E8040000000" "0xC0000000"]
      ntp_Sub_exact [of "0x83AA7E8100000000" "0x83AA7E80C0000000" "0x40000000"]
    unfolding reply_offset_def f by (simp add: sample_reply_def f64_eval)
  have r: "reply_distance sample_reply = Fin 0"
    by (simp add: reply_distance_def sample_reply_def zero_packet_def short_Seconds_def f64_of_int_small f64_eval)
  have t: "reply_tolerance sample_params sample_reply = Fin (1 / 524288)"
    by (simp add: reply_tolerance_def sample_params_def sample_reply_def clampPrecision_def Log2Seconds_def
      ldexp1_small f64_eval)
  have u: "ntp_Sub (p_ReferenceTime sample_reply) (p_TransmitTime sample_reply) = Fin (- 1)"
    using ntp_Sub_exact [of "0x83AA7E8000000000" "0x83AA7E8100000000" "- 0x100000000"]
    by (simp add: sample_reply_def)
  have s: "p_Stratum sample_reply = 2" "p_Leap sample_reply = LeapNone" "\<not> ntp_IsZero (p_TransmitTime sample_reply)"
    "\<not> ntp_IsZero (p_ReceiveTime sample_reply)"
    by (simp_all add: sample_reply_def zero_packet_def ntp_IsZero_def)
  show ?thesis unfolding check_reply_def Let_def IsKiss_def d o r t u s by (simp add: s f64_eval)
qed

definition sample_result :: exchangeResult where
  "sample_result = zero_result\<lparr>er_Sent := True, er_Packet := sample_reply, er_T1 := 250000000, er_T4 := 750000000,
     er_KernelTS := True, er_Offset := Fin (1 / 2), er_Delay := Fin (1 / 2)\<rparr>"

lemma sample_exchanged: "exchange sample_params sample_exchange = Some (sample_result, None)"
proof -
  have d: "Decode (Marshal sample_reply) = Inr (sample_reply, None, 48)"
    using Decode_Marshal_plain [of sample_reply] by (simp add: sample_reply_def)
  have n: "get_uint64 [1, 2, 3, 4, 5, 6, 7, 8] = 0x0102030405060708"
    by (simp add: get_uint64_def be_nat_def)
  have m: "p_Mode sample_reply = ModeServer" "p_OriginTime sample_reply = 0x0102030405060708"
    by (simp_all add: sample_reply_def)
  show ?thesis
    using sample_checked
    by (simp add: exchange_def sample_exchange_def sample_params_def Let_def request_bytes_def request_packet_def
      dial_addr_def sameEndpoint_def d n m take_reply_def authentic_def sample_result_def zero_result_def)
qed

text \<open>C14: An exchange that succeeds has read, from the endpoint it was sent to, a well-framed datagram of
  mode server that returns the request's 64 random bits; with a key, the datagram is exactly what a holder of the
  key signs. The server is at stratum 1 to 15 and synchronized, its root distance is below 1.5 s and
  its reference time no more than a second ahead; the delay is at least 0 and below 16 s, and the offset is computed from
  the four timestamps of this request and this reply.\<close>
theorem exchange_accepts_only:
  assumes "exchange p env = Some (out, None)"
  shows "\<exists>nonce bs src now kt off.
    xe_nonce env = Some nonce \<and> Datagram bs src now kt \<in> set (xe_reads env) \<and> sameEndpoint src (xp_addr p) \<and>
    Decode (take ntp_MaxPacketSize bs) = Inr (er_Packet out, er_MAC out, off) \<and>
    p_OriginTime (er_Packet out) = get_uint64 nonce \<and> p_Mode (er_Packet out) = ModeServer \<and>
    (\<forall>k. xp_key p = Some k \<longrightarrow> Append k (take off (take ntp_MaxPacketSize bs)) = Some (take ntp_MaxPacketSize bs)) \<and>
    er_Authenticated out = (xp_key p \<noteq> None) \<and>
    er_T1 out = xe_t1 env \<and> er_T4 out \<in> {now} \<union> set_option kt \<and>
    0 < p_Stratum (er_Packet out) \<and> p_Stratum (er_Packet out) \<le> 15 \<and> p_Leap (er_Packet out) \<noteq> LeapUnsync \<and>
    reply_distance (er_Packet out) < Fin (3 / 2) \<and>
    ntp_Sub (p_ReferenceTime (er_Packet out)) (p_TransmitTime (er_Packet out)) \<le> Fin 1 \<and>
    Fin 0 \<le> er_Delay out \<and> er_Delay out < Fin 16 \<and>
    er_Offset out = reply_offset (er_T1 out) (er_T4 out) (er_Packet out)"
proof -
  obtain nonce bs src now kt off t4 kernel where n: "xe_nonce env = Some nonce"
    and a: "Datagram bs src now kt \<in> set (xe_reads env)" "sameEndpoint src (xp_addr p)"
      "Decode (take ntp_MaxPacketSize bs) = Inr (er_Packet out, er_MAC out, off)"
      "p_OriginTime (er_Packet out) = p_TransmitTime (request_packet p nonce)"
      "(t4, kernel) = (case kt of Some t \<Rightarrow> if xp_kernelTS p then (t, True) else (now, False) | None \<Rightarrow> (now, False))"
    and r: "take_reply p ((zero_result\<lparr>er_Sent := True, er_T1 := xe_t1 env\<rparr>)\<lparr>er_Packet := er_Packet out,
        er_MAC := er_MAC out, er_T4 := t4, er_KernelTS := kernel\<rparr>)
        (er_T1 (zero_result\<lparr>er_Sent := True, er_T1 := xe_t1 env\<rparr>)) (take ntp_MaxPacketSize bs)
        (er_Packet out) (er_MAC out) off = Some (out, None)"
    using exchange_accepts [OF assms] unfolding answered_from_def by metis
  have o: "er_T1 out = xe_t1 env" "er_T4 out = t4" "er_Authenticated out = (xp_key p \<noteq> None)"
    by (subst take_reply_accepts(4) [OF r], simp)+
  note cr = check_reply_Inr [OF exchange_accepts_reply [OF assms]]
  have t4: "er_T4 out \<in> {now} \<union> set_option kt" using a(5) unfolding o by (auto split: option.splits if_splits)
  have d: "Fin 0 \<le> er_Delay out" "er_Delay out < Fin 16"
    using f64_le_of_not_less [OF reply_delay_not_NaN] f64_less_of_not_le [OF reply_delay_not_NaN cr(7)]
    unfolding cr(5) by simp_all
  have ref: "ntp_Sub (p_ReferenceTime (er_Packet out)) (p_TransmitTime (er_Packet out)) \<le> Fin 1"
    using cr(9) ntp_Sub_Fin [of "p_ReferenceTime (er_Packet out)" "p_TransmitTime (er_Packet out)"] by auto
  have k: "\<forall>k. xp_key p = Some k \<longrightarrow> Append k (take off (take ntp_MaxPacketSize bs)) = Some (take ntp_MaxPacketSize bs)"
    using authentic_signed [OF take_reply_accepts(2) [OF r] a(3)] by blast
  show ?thesis
    using n a(1-3) a(4) take_reply_accepts(1) [OF r] k o(1,3) t4 cr(1-4) d ref
      f64_less_of_not_le [OF reply_distance_not_NaN cr(8)]
    by (intro exI [of _ nonce] exI [of _ bs] exI [of _ src] exI [of _ now] exI [of _ kt] exI [of _ off] conjI)
      (simp_all add: request_packet_def)
qed

theorem exchange_accepts_only_witness:
  "\<exists>nonce bs src now kt off.
    xe_nonce sample_exchange = Some nonce \<and> Datagram bs src now kt \<in> set (xe_reads sample_exchange) \<and>
    sameEndpoint src (xp_addr sample_params) \<and>
    Decode (take ntp_MaxPacketSize bs) = Inr (er_Packet sample_result, er_MAC sample_result, off) \<and>
    p_OriginTime (er_Packet sample_result) = get_uint64 nonce \<and>
    er_Delay sample_result < Fin 16 \<and>
    er_Offset sample_result = reply_offset (er_T1 sample_result) (er_T4 sample_result) (er_Packet sample_result)"
  using exchange_accepts_only [OF sample_exchanged] by blast

text \<open>C15: The offset of an accepted reply is wrong by at most half its delay. Let the server's clock be
  \<open>theta\<close> ahead of the client's, the request take \<open>d1\<close>, the server \<open>s\<close> and the reply \<open>d2\<close>, in units of the
  timestamps, each less than about three days: the arithmetic, also across an era boundary, loses nothing, so the
  offset is \<open>theta\<close> with the error half the asymmetry of the path, and the delay is \<open>d1 + d2\<close>.\<close>
theorem exchange_offset_error:
  assumes "exchange p env = Some (out, None)"
    and "p_ReceiveTime (er_Packet out) = FromTime (er_T1 out) + word_of_int (theta + d1)"
    and "p_TransmitTime (er_Packet out) = p_ReceiveTime (er_Packet out) + word_of_int s"
    and "FromTime (er_T4 out) = p_TransmitTime (er_Packet out) + word_of_int (d2 - theta)"
    and "\<bar>theta\<bar> < 2 ^ 50" and "0 \<le> d1" and "d1 < 2 ^ 50" and "0 \<le> d2" and "d2 < 2 ^ 50" and "\<bar>s\<bar> < 2 ^ 50"
  shows "\<exists>offset delay. er_Offset out = Fin offset \<and> er_Delay out = Fin delay \<and>
    delay = of_int (d1 + d2) / 2 ^ 32 \<and>
    offset - of_int theta / 2 ^ 32 = of_int (d1 - d2) / 2 ^ 33 \<and>
    \<bar>offset - of_int theta / 2 ^ 32\<bar> \<le> delay / 2"
proof -
  let ?pkt = "er_Packet out" and ?t1 = "FromTime (er_T1 out)" and ?t4 = "FromTime (er_T4 out)"
  have o: "er_Offset out = reply_offset (er_T1 out) (er_T4 out) ?pkt"
    and d: "er_Delay out = (if reply_delay (er_T1 out) (er_T4 out) ?pkt < Fin 0 then Fin 0
                            else reply_delay (er_T1 out) (er_T4 out) ?pkt)"
    using check_reply_Inr(4,5) [OF exchange_accepts_reply [OF assms(1)]] by blast+
  have "ntp_Sub ?t4 ?t1 = Fin (of_int (d1 + s + d2) / 2 ^ 32)"
  proof (rule ntp_Sub_exact)
    show "?t4 = ?t1 + word_of_int (d1 + s + d2)" unfolding assms(4,3,2) by simp
  qed (use assms(5-) in simp)
  moreover have "ntp_Sub (p_TransmitTime ?pkt) (p_ReceiveTime ?pkt) = Fin (of_int s / 2 ^ 32)"
    by (rule ntp_Sub_exact [OF assms(3)]) (use assms(10) in simp)
  ultimately have "reply_delay (er_T1 out) (er_T4 out) ?pkt = f64_of_real (of_int (d1 + d2) / 2 ^ 32)"
    unfolding reply_delay_def by (simp add: diff_divide_distrib add_divide_distrib)
  also have "\<dots> = Fin (of_int (d1 + d2) / 2 ^ 32)" by (rule scaled_exact) (use assms(5-) in simp_all)
  finally have dd: "er_Delay out = Fin (of_int (d1 + d2) / 2 ^ 32)" using assms(6,8) unfolding d by simp
  have "ntp_Sub (p_ReceiveTime ?pkt) ?t1 = Fin (of_int (theta + d1) / 2 ^ 32)"
    by (rule ntp_Sub_exact [OF assms(2)]) (use assms(5-) in simp)
  moreover have "ntp_Sub (p_TransmitTime ?pkt) ?t4 = Fin (of_int (theta - d2) / 2 ^ 32)"
  proof (rule ntp_Sub_exact)
    show "p_TransmitTime ?pkt = ?t4 + word_of_int (theta - d2)" unfolding assms(4) by simp
  qed (use assms(5-) in simp)
  ultimately have "er_Offset out = f64_of_real (of_int (2 * theta + d1 - d2) / 2 ^ 32) / Fin 2"
    unfolding o reply_offset_def by (simp add: diff_divide_distrib add_divide_distrib add_diff_eq)
  also have "f64_of_real (of_int (2 * theta + d1 - d2) / 2 ^ 32) = Fin (of_int (2 * theta + d1 - d2) / 2 ^ 32)"
    by (rule scaled_exact) (use assms(5-) in simp_all)
  also have "Fin (of_int (2 * theta + d1 - d2) / 2 ^ 32) / Fin 2 = f64_of_real (of_int (2 * theta + d1 - d2) / 2 ^ 33)"
    by simp
  also have "\<dots> = Fin (of_int (2 * theta + d1 - d2) / 2 ^ 33)" by (rule scaled_exact) (use assms(5-) in simp_all)
  finally have oo: "er_Offset out = Fin (of_int (2 * theta + d1 - d2) / 2 ^ 33)" .
  have e: "of_int (2 * theta + d1 - d2) / 2 ^ 33 - of_int theta / 2 ^ 32 = (of_int (d1 - d2) / 2 ^ 33 :: real)"
    by (simp add: field_simps)
  have "\<bar>of_int (d1 - d2) / 2 ^ 33 :: real\<bar> \<le> of_int (d1 + d2) / 2 ^ 32 / 2"
    using assms(6,8) by (simp add: abs_divide divide_right_mono)
  then have "\<bar>of_int (2 * theta + d1 - d2) / 2 ^ 33 - of_int theta / 2 ^ 32\<bar> \<le> (of_int (d1 + d2) / 2 ^ 32 / 2 :: real)"
    unfolding e .
  with e show ?thesis by (intro exI conjI) (rule oo dd refl | assumption)+
qed

theorem exchange_offset_error_witness:
  "\<exists>offset delay. er_Offset sample_result = Fin offset \<and> er_Delay sample_result = Fin delay \<and>
    delay = of_int (0x40000000 + 0x40000000) / 2 ^ 32 \<and>
    offset - of_int 0x80000000 / 2 ^ 32 = of_int (0x40000000 - 0x40000000) / 2 ^ 33 \<and>
    \<bar>offset - of_int 0x80000000 / 2 ^ 32\<bar> \<le> delay / 2"
proof -
  have f: "FromTime (er_T1 sample_result) = 0x83AA7E8040000000" "FromTime (er_T4 sample_result) = 0x83AA7E80C0000000"
    by (simp_all add: sample_result_def sample_times)
  have r: "p_ReceiveTime (er_Packet sample_result) = 0x83AA7E8100000000"
    "p_TransmitTime (er_Packet sample_result) = 0x83AA7E8100000000"
    by (simp_all add: sample_result_def sample_reply_def)
  show ?thesis
    by (rule exchange_offset_error [OF sample_exchanged, of "0x80000000" "0x40000000" 0 "0x40000000"]) (simp_all add: f r)
qed

end
