(* ===== verification/Clock_Filter.thy ===== *)
theory Clock_Filter
  imports Measurement
begin

text \<open>
  \<^verbatim>\<open>internal/discipline/filter.go\<close>: the clock filter of a source, an eight-stage ring of samples. The
  ring is kept as the code keeps it; \<open>history\<close> reads it as the list of the last samples, newest first,
  which is the abstract state the ring refines.
\<close>

section \<open>The filter\<close>

record stage =
  st_offset :: f64
  st_delay :: f64
  st_disp :: f64
  st_t :: f64

record clock_filter =
  f_stages :: "stage list"
  f_n :: nat
  f_next :: nat
  f_epoch :: f64
  f_update :: f64
  f_floor :: f64

record filter_output =
  fo_Offset :: f64
  fo_Delay :: f64
  fo_Dispersion :: f64
  fo_Jitter :: f64
  fo_At :: f64
  fo_Samples :: nat

type_synonym ranked = "nat \<times> f64"
  \<comment> \<open>a stage's index and its distance\<close>

definition zero_stage :: stage where
  "zero_stage = \<lparr>st_offset = Fin 0, st_delay = Fin 0, st_disp = Fin 0, st_t = Fin 0\<rparr>"

definition zero_output :: filter_output where
  "zero_output = \<lparr>fo_Offset = Fin 0, fo_Delay = Fin 0, fo_Dispersion = Fin 0, fo_Jitter = Fin 0,
     fo_At = Fin 0, fo_Samples = 0\<rparr>"

definition NewFilter :: "f64 \<Rightarrow> clock_filter" where
  "NewFilter precision = \<lparr>f_stages = replicate FilterStages zero_stage, f_n = 0, f_next = 0,
     f_epoch = Fin 0, f_update = Fin 0, f_floor = precision\<rparr>"

definition age_stages :: "clock_filter \<Rightarrow> f64 \<Rightarrow> clock_filter" where
  "age_stages f now =
     (if f_n f > 0 \<and> now > f_update f then
        (let aging = Phi * (now - f_update f)
         in f\<lparr>f_stages := map (\<lambda>s. s\<lparr>st_disp := st_disp s + aging\<rparr>) (f_stages f)\<rparr>)
      else f)"

definition shift_in :: "clock_filter \<Rightarrow> stage \<Rightarrow> clock_filter" where
  "shift_in f s =
     f\<lparr>f_update := st_t s,
       f_stages := (f_stages f)[f_next f := s],
       f_next := (f_next f + 1) mod FilterStages,
       f_n := (if f_n f < FilterStages then f_n f + 1 else f_n f)\<rparr>"

definition clamp_stage :: "stage \<Rightarrow> stage" where
  \<comment> \<open>a dispersion that has reached the maximum stays there\<close>
  "clamp_stage s = (if st_disp s \<ge> MaxDispersion then s\<lparr>st_disp := MaxDispersion\<rparr> else s)"

definition stage_dist :: "f64 \<Rightarrow> stage \<Rightarrow> f64" where
  "stage_dist now s =
     (if st_disp s \<ge> MaxDispersion then MaxDispersion
      else if now - st_t s > AllanIntercept then MaxDistance + st_disp s
      else st_delay s / Fin 2 + st_disp s)"

definition clamp_stages :: "clock_filter \<Rightarrow> clock_filter" where
  "clamp_stages f =
     f\<lparr>f_stages := map clamp_stage (take (f_n f) (f_stages f)) @ drop (f_n f) (f_stages f)\<rparr>"

definition filter_less :: "stage list \<Rightarrow> ranked \<Rightarrow> ranked \<Rightarrow> bool" where
  "filter_less stages a b =
     (if \<not> feq (snd a) (snd b) then snd a < snd b
      else st_t (stages ! fst a) > st_t (stages ! fst b))"

definition rank_stages :: "clock_filter \<Rightarrow> f64 \<Rightarrow> ranked list" where
  \<comment> \<open>ranks the stages and leaves them clamped, which the comparison does not see\<close>
  "rank_stages f now =
     go_sort (filter_less (f_stages (clamp_stages f))) (map (\<lambda>i. (i, stage_dist now (f_stages f ! i))) [0..<f_n f])"

fun count_usable :: "nat \<Rightarrow> ranked list \<Rightarrow> nat" where
  "count_usable m [] = m"
| "count_usable m (r # rs) =
     (if snd r \<ge> MaxDispersion \<or> (m \<ge> 2 \<and> snd r \<ge> MaxDistance) then m else count_usable (m + 1) rs)"

definition filter_sums :: "clock_filter \<Rightarrow> ranked list \<Rightarrow> nat \<Rightarrow> f64 \<times> f64" where
  \<comment> \<open>the loop over the ranking, last to first: dispersion and the sum of squared offsets\<close>
  "filter_sums f order m =
     (let best = f_stages f ! fst (order ! 0);
          d0 = (if f_n f < FilterStages then primingDispersion * (Fin 1 - ldexp1 (int (f_n f) - int FilterStages))
                else Fin 0)
      in foldl (\<lambda>(dispersion, jitter) i.
           let s = f_stages f ! fst (order ! i);
               d = st_offset s - st_offset best
           in (Fin (1 / 2) * (dispersion + st_disp s),
               if i < m \<and> i > 0 then jitter + d * d else jitter))
         (d0, Fin 0) (rev [0..<length order]))"

definition filter_Add :: "clock_filter \<Rightarrow> f64 \<Rightarrow> f64 \<Rightarrow> f64 \<Rightarrow> f64 \<Rightarrow> clock_filter \<times> filter_output \<times> bool" where
  "filter_Add f0 offset delay disp now =
     (let f1 = shift_in (age_stages f0 now) \<lparr>st_offset = offset, st_delay = delay, st_disp = disp, st_t = now\<rparr>;
          f = clamp_stages f1;
          order = rank_stages f1 now;
          m = count_usable 0 order
      in if m = 0 then (f, zero_output, False)
         else (let best = f_stages f ! fst (order ! 0);
                   (dispersion, jitter0) = filter_sums f order m;
                   jitter1 = (if m > 1 then fsqrt (jitter0 / f64_of_int (int m - 1)) else jitter0);
                   out = \<lparr>fo_Offset = st_offset best, fo_Delay = st_delay best, fo_Dispersion = dispersion,
                          fo_Jitter = fmax jitter1 (f_floor f), fo_At = st_t best, fo_Samples = m\<rparr>
               in if st_t best \<le> f_epoch f then (f, out, False)
                  else (f\<lparr>f_epoch := st_t best\<rparr>, out, True)))"

definition filter_Reset :: "clock_filter \<Rightarrow> clock_filter" where
  "filter_Reset f = NewFilter (f_floor f)"

definition filter_Len :: "clock_filter \<Rightarrow> nat" where
  "filter_Len f = f_n f"

section \<open>The invariant\<close>

definition sane_stage :: "stage \<Rightarrow> bool" where
  \<comment> \<open>a stage the ranking can compare\<close>
  "sane_stage s \<longleftrightarrow> (\<exists>o' d t. st_offset s = Fin o' \<and> st_delay s = Fin d \<and> 0 \<le> d \<and> st_t s = Fin t) \<and>
     Fin 0 \<le> st_disp s"

definition wf_ring :: "clock_filter \<Rightarrow> bool" where
  "wf_ring f \<longleftrightarrow> length (f_stages f) = FilterStages \<and> f_n f \<le> FilterStages \<and> f_next f < FilterStages \<and>
     (f_n f < FilterStages \<longrightarrow> f_next f = f_n f)"

definition wf_filter :: "clock_filter \<Rightarrow> bool" where
  "wf_filter f \<longleftrightarrow> wf_ring f \<and>
     (\<forall>i < f_n f. sane_stage (f_stages f ! i) \<and> st_disp (f_stages f ! i) \<le> MaxDispersion) \<and>
     (\<exists>u. f_update f = Fin u)"

definition history :: "clock_filter \<Rightarrow> stage list" where
  \<comment> \<open>the samples in the ring, newest first\<close>
  "history f = map (\<lambda>k. f_stages f ! ((f_next f + (FilterStages - 1) - k) mod FilterStages)) [0..<f_n f]"

lemma ring_index:
  assumes "wf_ring f" "k < f_n f"
  shows "(f_next f + (FilterStages - 1) - k) mod FilterStages < f_n f"
proof (cases "f_n f < FilterStages")
  case True
  then have e: "f_next f + (8 - 1) - k = (f_next f - 1 - k) + 8" and "f_next f - 1 - k < f_n f"
    using assms by (auto simp: wf_ring_def)
  then show ?thesis using True unfolding e mod_add_self2 by simp
next
  case False
  then show ?thesis using assms by (simp add: wf_ring_def)
qed

lemma ring_index_surj:
  assumes "wf_ring f" "i < f_n f"
  shows "\<exists>k < f_n f. i = (f_next f + (FilterStages - 1) - k) mod FilterStages"
proof (cases "f_n f < FilterStages")
  case True
  then have "f_next f = f_n f" using assms by (simp add: wf_ring_def)
  then show ?thesis using assms True by (intro exI [of _ "f_n f - 1 - i"]) auto
next
  case False
  then have n: "f_n f = 8" "f_next f < 8" using assms by (auto simp: wf_ring_def)
  show ?thesis
  proof (cases "i < f_next f")
    case True
    then show ?thesis using n assms by (intro exI [of _ "f_next f - 1 - i"]) auto
  next
    case False
    then show ?thesis using n assms by (intro exI [of _ "f_next f + 7 - i"]) auto
  qed
qed

lemma set_history: "wf_ring f \<Longrightarrow> set (history f) = (\<lambda>i. f_stages f ! i) ` {..<f_n f}"
  using ring_index ring_index_surj by (fastforce simp: history_def image_iff)

lemma ring_succ: "x < 8 \<Longrightarrow> k < 8 \<Longrightarrow> ((x + 1) mod 8 + 7 - k) mod 8 = (x + 8 - k) mod (8::nat)"
proof (cases "x = 7")
  case True
  assume "k < 8"
  then have "15 - k = (7 - k) + 8" by simp
  then have "(15 - k) mod 8 = (7 - k) mod 8" by (simp only: mod_add_self2)
  then show ?thesis using True by simp
qed (simp add: add.commute)

lemma ring_pred_neq: "x < 8 \<Longrightarrow> 0 < k \<Longrightarrow> k < 8 \<Longrightarrow> (x + 8 - k) mod 8 \<noteq> (x::nat)"
proof (cases "k \<le> x")
  case True
  assume "x < 8" "0 < k"
  from True have "x + 8 - k = (x - k) + 8" by simp
  then have "(x + 8 - k) mod 8 = x - k" using \<open>x < 8\<close> by (simp only: mod_add_self2) simp
  with True \<open>0 < k\<close> show ?thesis by simp
qed simp

lemma history_shift_in:
  assumes "wf_ring f"
  shows "history (shift_in f s) = take FilterStages (s # history f)"
proof (rule nth_equalityI)
  show "length (history (shift_in f s)) = length (take FilterStages (s # history f))"
    using assms by (auto simp: history_def shift_in_def wf_ring_def)
next
  fix k assume "k < length (history (shift_in f s))"
  then have k: "k < f_n (shift_in f s)" "k < 8" "k \<le> f_n f" using assms
    by (auto simp: history_def shift_in_def wf_ring_def split: if_splits)
  have len: "length (f_stages f) = 8" and nx: "f_next f < 8" using assms by (auto simp: wf_ring_def)
  have idx: "((f_next f + 1) mod 8 + 7 - k) mod 8 = (f_next f + 8 - k) mod 8" using nx k(2) by (rule ring_succ)
  show "history (shift_in f s) ! k = take FilterStages (s # history f) ! k"
  proof (cases k)
    case 0
    then show ?thesis using k len nx idx by (simp add: history_def shift_in_def)
  next
    case (Suc j)
    have ne: "(f_next f + 8 - k) mod 8 \<noteq> f_next f" using Suc k(2) nx by (intro ring_pred_neq) auto
    have "history (shift_in f s) ! k = (f_stages f)[f_next f := s] ! ((f_next f + 8 - k) mod 8)"
      using k idx by (simp add: history_def shift_in_def)
    also have "\<dots> = f_stages f ! ((f_next f + 7 - j) mod 8)"
      using ne Suc by (simp add: add.commute)
    finally show ?thesis using Suc k by (simp add: history_def)
  qed
qed

definition age_by :: "f64 \<Rightarrow> stage \<Rightarrow> stage" where
  "age_by d s = s\<lparr>st_disp := st_disp s + d\<rparr>"

definition aging :: "clock_filter \<Rightarrow> f64 \<Rightarrow> stage \<Rightarrow> stage" where
  \<comment> \<open>what the passage of time does to every sample\<close>
  "aging f now = (if f_n f > 0 \<and> now > f_update f then age_by (Phi * (now - f_update f)) else id)"

lemma age_stages_map: "age_stages f now = f\<lparr>f_stages := map (aging f now) (f_stages f)\<rparr>"
  by (simp add: age_stages_def aging_def age_by_def Let_def)

lemma wf_ring_map: "wf_ring (f\<lparr>f_stages := map g (f_stages f)\<rparr>) = wf_ring f"
  by (simp add: wf_ring_def)

lemma history_map: "wf_ring f \<Longrightarrow> history (f\<lparr>f_stages := map g (f_stages f)\<rparr>) = map g (history f)"
  using ring_index [of f] by (auto simp: history_def wf_ring_def)

lemma wf_ring_clamp [simp]: "wf_ring (clamp_stages f) = wf_ring f"
  by (auto simp: wf_ring_def clamp_stages_def)

lemma clamp_stages_nth: "wf_ring f \<Longrightarrow> i < f_n f \<Longrightarrow> f_stages (clamp_stages f) ! i = clamp_stage (f_stages f ! i)"
  by (simp add: clamp_stages_def wf_ring_def nth_append)

lemma clamp_stages_sel [simp]:
  "f_n (clamp_stages f) = f_n f" "f_next (clamp_stages f) = f_next f" "f_epoch (clamp_stages f) = f_epoch f"
  "f_update (clamp_stages f) = f_update f" "f_floor (clamp_stages f) = f_floor f"
  by (simp_all add: clamp_stages_def)

lemma history_clamp: "wf_ring f \<Longrightarrow> history (clamp_stages f) = map clamp_stage (history f)"
  using ring_index [of f] by (simp add: history_def clamp_stages_nth)

lemma wf_ring_shift_in: "wf_ring f \<Longrightarrow> wf_ring (shift_in f s)"
  by (auto simp: wf_ring_def shift_in_def)

lemma stage_dist_clamp [simp]: "stage_dist now (clamp_stage s) = stage_dist now s"
  by (simp add: stage_dist_def clamp_stage_def)

lemma clamp_stage_sel [simp]:
  "st_offset (clamp_stage s) = st_offset s" "st_delay (clamp_stage s) = st_delay s" "st_t (clamp_stage s) = st_t s"
  by (simp_all add: clamp_stage_def)

text \<open>The filter before ranking: aged, and the new sample in.\<close>

abbreviation loaded :: "clock_filter \<Rightarrow> f64 \<Rightarrow> f64 \<Rightarrow> f64 \<Rightarrow> f64 \<Rightarrow> clock_filter" where
  "loaded f offset delay disp now \<equiv>
     shift_in (age_stages f now) \<lparr>st_offset = offset, st_delay = delay, st_disp = disp, st_t = now\<rparr>"

lemma filter_Add_ring:
  "\<exists>e. fst (filter_Add f offset delay disp now) = (clamp_stages (loaded f offset delay disp now))\<lparr>f_epoch := e\<rparr>"
proof -
  have id: "g\<lparr>f_epoch := f_epoch g\<rparr> = g" for g :: clock_filter by simp
  show ?thesis unfolding filter_Add_def Let_def
    by (auto simp: split_beta id [symmetric] split: if_splits intro: exI [of _ "f_epoch (clamp_stages (loaded f offset delay disp now))"])
qed

lemma history_epoch [simp]: "history (f\<lparr>f_epoch := e\<rparr>) = history f"
  by (simp add: history_def)

lemma wf_ring_epoch [simp]: "wf_ring (f\<lparr>f_epoch := e\<rparr>) = wf_ring f"
  by (simp add: wf_ring_def)

lemma history_filter_Add:
  assumes "wf_ring f"
  shows "history (fst (filter_Add f offset delay disp now)) =
    map clamp_stage (take FilterStages
      (\<lparr>st_offset = offset, st_delay = delay, st_disp = disp, st_t = now\<rparr> # map (aging f now) (history f)))"
proof -
  obtain e where "fst (filter_Add f offset delay disp now) = (clamp_stages (loaded f offset delay disp now))\<lparr>f_epoch := e\<rparr>"
    using filter_Add_ring by blast
  moreover have "wf_ring (age_stages f now)" "wf_ring (loaded f offset delay disp now)"
    using assms by (simp_all add: age_stages_map wf_ring_map wf_ring_shift_in)
  ultimately show ?thesis
    using assms by (simp add: history_clamp history_shift_in) (simp add: age_stages_map history_map)
qed

section \<open>The ranking\<close>

definition rankable :: "stage list \<Rightarrow> ranked \<Rightarrow> bool" where
  "rankable stages r \<longleftrightarrow> snd r \<noteq> NaN \<and> st_t (stages ! fst r) \<noteq> NaN"

lemma filter_less_iff:
  "rankable stages a \<Longrightarrow> rankable stages b \<Longrightarrow>
   filter_less stages a b \<longleftrightarrow> snd a < snd b \<or> (snd a = snd b \<and> st_t (stages ! fst b) < st_t (stages ! fst a))"
  by (auto simp: filter_less_def rankable_def feq_def)

interpretation filter_rank: comparison "filter_less stages" "rankable stages" for stages
proof
  fix x y z
  assume d: "rankable stages x" "rankable stages y"
  show "filter_less stages x y \<Longrightarrow> \<not> filter_less stages y x"
    using d by (auto simp: filter_less_iff dest: f64_less_asym)
  assume z: "rankable stages z" and n: "\<not> filter_less stages x y" "\<not> filter_less stages y z"
  then have "snd y \<le> snd x" "snd z \<le> snd y" using d by (auto simp: filter_less_iff f64_not_less [symmetric] rankable_def)
  moreover have "snd x = snd z \<Longrightarrow> snd x = snd y"
    using calculation by (auto intro: f64_antisym)
  ultimately show "\<not> filter_less stages x z"
    using d z n by (auto simp: filter_less_iff f64_not_less rankable_def dest: f64_le_less_trans f64_le_trans)
qed

lemma sane_dist_not_NaN: "sane_stage s \<Longrightarrow> stage_dist (Fin now) s \<noteq> NaN"
  by (cases "st_disp s") (auto simp: sane_stage_def stage_dist_def)

lemma count_usable_bounds: "m \<le> count_usable m rs \<and> count_usable m rs \<le> m + length rs"
proof (induction rs arbitrary: m)
  case (Cons r rs)
  from Cons [of "m + 1"] show ?case by simp
qed simp

text \<open>The head of the ranking is the least distance, and the freshest among the equal ones.\<close>

lemma rank_stages_head:
  assumes wf: "wf_ring f" and sane: "\<And>i. i < f_n f \<Longrightarrow> sane_stage (f_stages f ! i)"
    and r: "rank_stages f (Fin now) = r # rs"
  shows "fst r < f_n f" and "snd r = stage_dist (Fin now) (f_stages f ! fst r)"
    and "i < f_n f \<Longrightarrow> snd r \<le> stage_dist (Fin now) (f_stages f ! i) \<and>
      (stage_dist (Fin now) (f_stages f ! i) = snd r \<longrightarrow> st_t (f_stages f ! i) \<le> st_t (f_stages f ! fst r))"
proof -
  let ?S = "f_stages (clamp_stages f)"
  let ?xs = "map (\<lambda>i. (i, stage_dist (Fin now) (f_stages f ! i))) [0..<f_n f]"
  have srt: "go_sort (filter_less ?S) ?xs = r # rs" using r by (simp add: rank_stages_def)
  have "r \<in> set ?xs" using set_go_sort [of "filter_less ?S" ?xs] srt by auto
  then show r1: "fst r < f_n f" and r2: "snd r = stage_dist (Fin now) (f_stages f ! fst r)" by auto
  have ok: "rankable ?S (i, stage_dist (Fin now) (f_stages f ! i))" if "i < f_n f" for i
    using sane [OF that] sane_dist_not_NaN [of "f_stages f ! i" now] that wf
    by (auto simp: rankable_def clamp_stages_nth sane_stage_def)
  assume i: "i < f_n f"
  have "\<not> filter_less ?S (i, stage_dist (Fin now) (f_stages f ! i)) r"
    using filter_rank.go_sort_least [OF _ srt] i ok by (auto simp: list_all_iff)
  moreover have "rankable ?S r" using ok [OF r1] r2 by (metis prod.collapse)
  ultimately show "snd r \<le> stage_dist (Fin now) (f_stages f ! i) \<and>
      (stage_dist (Fin now) (f_stages f ! i) = snd r \<longrightarrow> st_t (f_stages f ! i) \<le> st_t (f_stages f ! fst r))"
    using ok [OF i] wf i r1
    by (auto simp: filter_less_iff rankable_def clamp_stages_nth f64_not_less)
qed

section \<open>Dispersion and jitter\<close>

lemma half_sum_bounds:
  assumes "Fin 0 \<le> a" "a \<le> MaxDispersion" "Fin 0 \<le> b" "b \<le> MaxDispersion"
  shows "Fin 0 \<le> Fin (1 / 2) * (a + b) \<and> Fin (1 / 2) * (a + b) \<le> MaxDispersion"
proof -
  obtain x y where xy: "a = Fin x" "0 \<le> x" "x \<le> 16" "b = Fin y" "0 \<le> y" "y \<le> 16"
    using f64_between_Fin assms by metis
  have "Fin 0 \<le> f64_of_real (x + y) \<and> f64_of_real (x + y) \<le> Fin 32"
    using xy wf_f64_int [of 32] by (intro f64_of_real_between) auto
  then obtain z where z: "f64_of_real (x + y) = Fin z" "0 \<le> z" "z \<le> 32" using f64_between_Fin by metis
  then show ?thesis using xy wf_f64_int [of 16] f64_of_real_between [of 0 16 "1 / 2 * z"] by simp
qed

lemma priming_bounds:
  assumes "n < FilterStages"
  shows "Fin 0 \<le> primingDispersion * (Fin 1 - ldexp1 (int n - int FilterStages)) \<and>
    primingDispersion * (Fin 1 - ldexp1 (int n - int FilterStages)) \<le> MaxDispersion"
proof -
  let ?e = "int n - 8"
  have p: "0 < (2::real) powi ?e" "2 powi ?e \<le> (1::real)"
    using assms power_int_increasing [of ?e 0 "2::real"] by auto
  have "ldexp1 ?e = Fin (2 powi ?e)" using assms by (intro ldexp1_small) auto
  moreover have "Fin 0 \<le> f64_of_real (1 - 2 powi ?e) \<and> f64_of_real (1 - 2 powi ?e) \<le> Fin 16"
  proof (rule f64_of_real_between)
    show "0 \<le> 1 - (2::real) powi ?e" "1 - 2 powi ?e \<le> (16::real)" using p by linarith+
  qed (use wf_f64_int [of 16] in simp_all)
  then obtain z where "f64_of_real (1 - 2 powi ?e) = Fin z" "0 \<le> z" "z \<le> 16" using f64_between_Fin by metis
  ultimately show ?thesis using wf_f64_int [of 16] f64_of_real_between [of 0 16 z] by simp
qed

lemma filter_sums_bounds:
  assumes "\<And>i. i < length order \<Longrightarrow> sane_stage (f_stages f ! fst (order ! i)) \<and>
      st_disp (f_stages f ! fst (order ! i)) \<le> MaxDispersion" and "order \<noteq> []"
  shows "case filter_sums f order m of (d, j) \<Rightarrow> Fin 0 \<le> d \<and> d \<le> MaxDispersion \<and> Fin 0 \<le> j"
proof -
  define best where "best = f_stages f ! fst (order ! 0)"
  define step where "step = (\<lambda>(dispersion, jitter) i.
           let s = f_stages f ! fst (order ! i); d = st_offset s - st_offset best
           in (Fin (1 / 2) * (dispersion + st_disp s), if i < m \<and> i > 0 then jitter + d * d else jitter))"
  have sums: "filter_sums f order m = foldl step (if f_n f < FilterStages
      then primingDispersion * (Fin 1 - ldexp1 (int (f_n f) - int FilterStages)) else Fin 0, Fin 0) (rev [0..<length order])"
    by (simp add: filter_sums_def step_def best_def Let_def)
  define ok where "ok = (\<lambda>(d, j). Fin 0 \<le> d \<and> d \<le> MaxDispersion \<and> Fin 0 \<le> (j::f64))"
  have keep: "ok (step x i)" if "ok x" "i < length order" for x i
  proof -
    obtain d j where x: "x = (d, j)" by force
    have s: "sane_stage (f_stages f ! fst (order ! i))" "sane_stage best"
      "st_disp (f_stages f ! fst (order ! i)) \<le> MaxDispersion" using assms that best_def by auto
    then have "Fin 0 \<le> (st_offset (f_stages f ! fst (order ! i)) - st_offset best) * (st_offset (f_stages f ! fst (order ! i)) - st_offset best)"
      by (intro f64_square_nonneg) (auto simp: sane_stage_def)
    then show ?thesis using that s half_sum_bounds [of d "st_disp (f_stages f ! fst (order ! i))"]
      by (auto simp: x ok_def step_def Let_def sane_stage_def intro: f64_add_nonneg)
  qed
  have "ok (foldl step x is)" if "ok x" "\<forall>i \<in> set is. i < length order" for x "is"
    using that
  proof (induction "is" arbitrary: x)
    case (Cons i "is")
    then show ?case using keep [of x i] by simp
  qed simp
  moreover have "ok (if f_n f < FilterStages then primingDispersion * (Fin 1 - ldexp1 (int (f_n f) - int FilterStages)) else Fin 0, Fin 0)"
    using priming_bounds [of "f_n f"] by (simp add: ok_def)
  ultimately have "ok (filter_sums f order m)" unfolding sums by simp
  then show ?thesis by (simp add: ok_def)
qed

section \<open>Adding a sample\<close>

lemma sane_aging: "sane_stage s \<Longrightarrow> f_update f = Fin u \<Longrightarrow> sane_stage (aging f (Fin now) s)"
proof -
  assume s: "sane_stage s" and u: "f_update f = Fin u"
  have "Fin 0 \<le> Phi * f64_of_real (now - u)" if "u < now"
  proof -
    obtain p where p: "Phi = Fin p" "0 < p" using Phi_Fin by blast
    have "Fin 0 \<le> f64_of_real (now - u)" using that by (intro f64_of_real_ge) auto
    then show ?thesis unfolding p(1) by (rule f64_scale_nonneg [OF p(2)])
  qed
  then show ?thesis using s u by (auto simp: sane_stage_def aging_def age_by_def intro: f64_add_nonneg)
qed

lemma sane_clamp: "sane_stage s \<Longrightarrow> sane_stage (clamp_stage s) \<and> st_disp (clamp_stage s) \<le> MaxDispersion"
  by (cases "st_disp s") (auto simp: sane_stage_def clamp_stage_def)

lemma loaded_sane:
  assumes "wf_filter f" "0 \<le> d" "Fin 0 \<le> disp"
  shows "wf_ring (loaded f (Fin o') (Fin d) disp (Fin now))"
    and "i < f_n (loaded f (Fin o') (Fin d) disp (Fin now)) \<Longrightarrow>
      sane_stage (f_stages (loaded f (Fin o') (Fin d) disp (Fin now)) ! i)"
proof -
  let ?g = "loaded f (Fin o') (Fin d) disp (Fin now)"
  obtain u where wf: "wf_ring f" and u: "f_update f = Fin u"
    and sane: "\<And>i. i < f_n f \<Longrightarrow> sane_stage (f_stages f ! i)" using assms(1) by (auto simp: wf_filter_def)
  have age: "wf_ring (age_stages f (Fin now))" using wf by (simp add: age_stages_map wf_ring_map)
  then show g: "wf_ring ?g" by (rule wf_ring_shift_in)
  assume "i < f_n ?g"
  then have "f_stages ?g ! i \<in> set (history ?g)" using set_history [OF g] by auto
  then have "f_stages ?g ! i \<in> insert \<lparr>st_offset = Fin o', st_delay = Fin d, st_disp = disp, st_t = Fin now\<rparr>
      (aging f (Fin now) ` set (history f))"
    using set_take_subset [of 7 "map (aging f (Fin now)) (history f)"]
    unfolding history_shift_in [OF age] by (auto simp: age_stages_map history_map [OF wf])
  then show "sane_stage (f_stages ?g ! i)"
    using assms(2,3) sane u set_history [OF wf] by (auto simp: sane_aging) (simp add: sane_stage_def)
qed

text \<open>The result of an addition in terms of the ring it leaves: the winner is the head of the ranking.\<close>

lemma filter_Add_cases:
  fixes f :: clock_filter and offset delay disp now :: f64
  defines "g \<equiv> loaded f offset delay disp now"
  assumes "filter_Add f offset delay disp now = (f', out, updated)"
  obtains (none) "count_usable 0 (rank_stages g now) = 0" "f' = clamp_stages g" "out = zero_output" "\<not> updated"
  | (best) r rs m d j where "rank_stages g now = r # rs" "m = count_usable 0 (r # rs)" "0 < m"
      "filter_sums (clamp_stages g) (r # rs) m = (d, j)"
      "out = \<lparr>fo_Offset = st_offset (f_stages (clamp_stages g) ! fst r), fo_Delay = st_delay (f_stages (clamp_stages g) ! fst r),
          fo_Dispersion = d, fo_Jitter = fmax (if m > 1 then fsqrt (j / f64_of_int (int m - 1)) else j) (f_floor (clamp_stages g)),
          fo_At = st_t (f_stages (clamp_stages g) ! fst r), fo_Samples = m\<rparr>"
      "updated \<longleftrightarrow> \<not> fo_At out \<le> f_epoch g"
      "f' = (clamp_stages g)\<lparr>f_epoch := (if updated then fo_At out else f_epoch g)\<rparr>"
proof (cases "count_usable 0 (rank_stages g now) = 0")
  case True
  then show thesis using assms(2) none unfolding filter_Add_def g_def [symmetric] by (simp add: Let_def)
next
  case False
  then obtain r rs where r: "rank_stages g now = r # rs" by (cases "rank_stages g now") auto
  obtain d j where dj: "filter_sums (clamp_stages g) (r # rs) (count_usable 0 (r # rs)) = (d, j)" by force
  have keep: "(clamp_stages g)\<lparr>f_epoch := f_epoch g\<rparr> = clamp_stages g" by (simp add: clamp_stages_def)
  let ?b = "f_stages (clamp_stages g) ! fst r" and ?m = "count_usable 0 (r # rs)"
  let ?out = "\<lparr>fo_Offset = st_offset ?b, fo_Delay = st_delay ?b, fo_Dispersion = d,
      fo_Jitter = fmax (if ?m > 1 then fsqrt (j / f64_of_int (int ?m - 1)) else j) (f_floor (clamp_stages g)),
      fo_At = st_t ?b, fo_Samples = ?m\<rparr>"
  have m: "0 < ?m" using False r by simp
  have "filter_Add f offset delay disp now =
      (if st_t ?b \<le> f_epoch g then (clamp_stages g, ?out, False)
       else ((clamp_stages g)\<lparr>f_epoch := st_t ?b\<rparr>, ?out, True))"
    unfolding filter_Add_def g_def [symmetric] Let_def r dj using m
    by (simp del: count_usable.simps)
  with assms(2) have eq: "(f', out, updated) = (if st_t ?b \<le> f_epoch g then (clamp_stages g, ?out, False)
       else ((clamp_stages g)\<lparr>f_epoch := st_t ?b\<rparr>, ?out, True))" by simp
  show thesis
    by (cases "st_t ?b \<le> f_epoch g"; rule best [OF r refl m dj]; use eq keep in \<open>simp del: count_usable.simps\<close>)
qed

lemma wf_NewFilter: "wf_filter (NewFilter p)"
  by (simp add: wf_filter_def wf_ring_def NewFilter_def)

lemma wf_filter_Add:
  assumes "wf_filter f" "0 \<le> d" "Fin 0 \<le> disp"
  shows "wf_filter (fst (filter_Add f (Fin o') (Fin d) disp (Fin now)))"
proof -
  let ?g = "loaded f (Fin o') (Fin d) disp (Fin now)"
  note g = loaded_sane [OF assms, where o' = o' and now = now]
  obtain e where "fst (filter_Add f (Fin o') (Fin d) disp (Fin now)) = (clamp_stages ?g)\<lparr>f_epoch := e\<rparr>"
    using filter_Add_ring by blast
  moreover have "f_update ?g = Fin now" by (simp add: shift_in_def)
  ultimately show ?thesis using g sane_clamp by (auto simp: wf_filter_def clamp_stages_nth)
qed

lemma replicate_8: "replicate 8 x = x # replicate 7 x"
  by (simp add: numeral_eq_Suc)

lemma filter_Add_sample:
  "filter_Add (NewFilter (Fin 0)) (Fin 1) (Fin 2) (Fin (1 / 4)) (Fin 4) =
     (let s = \<lparr>st_offset = Fin 1, st_delay = Fin 2, st_disp = Fin (1 / 4), st_t = Fin 4\<rparr>
      in (\<lparr>f_stages = s # replicate 7 zero_stage, f_n = 1, f_next = 1, f_epoch = Fin 4, f_update = Fin 4, f_floor = Fin 0\<rparr>,
          \<lparr>fo_Offset = Fin 1, fo_Delay = Fin 2, fo_Dispersion = Fin (159 / 256), fo_Jitter = Fin 0, fo_At = Fin 4, fo_Samples = 1\<rparr>,
          True))"
  by (simp add: filter_Add_def Let_def NewFilter_def age_stages_def shift_in_def clamp_stages_def clamp_stage_def
      rank_stages_def stage_dist_def filter_sums_def go_sort_def ldexp1_small f64_eval replicate_8)

section \<open>Properties\<close>

text \<open>C31: The ring of eight stages is the list of the last eight samples. Adding a sample puts it in front
  of the older ones, aged by the time that passed since the previous addition, and drops the ninth; no
  sample is lost earlier, duplicated or reordered by the index arithmetic, and the ring stays well formed.
  A reset filter holds no sample.\<close>
theorem filter_ring_refines_history:
  assumes "wf_filter f" and "0 \<le> d" and "Fin 0 \<le> disp"
  shows "let f' = fst (filter_Add f (Fin o') (Fin d) disp (Fin now)) in
    wf_filter f' \<and>
    history f' = map clamp_stage (take FilterStages
      (\<lparr>st_offset = Fin o', st_delay = Fin d, st_disp = disp, st_t = Fin now\<rparr> # map (aging f (Fin now)) (history f))) \<and>
    filter_Len f' = min FilterStages (Suc (filter_Len f)) \<and>
    history (filter_Reset f') = [] \<and> wf_filter (filter_Reset f')"
proof -
  have "wf_ring f" using assms(1) by (simp add: wf_filter_def)
  note h = history_filter_Add [OF this, of "Fin o'" "Fin d" disp "Fin now"]
  have len: "length (history g) = filter_Len g" for g by (simp add: history_def filter_Len_def)
  have "filter_Len (fst (filter_Add f (Fin o') (Fin d) disp (Fin now))) = min 8 (Suc (filter_Len f))"
    using arg_cong [OF h, of length] by (simp only: len length_map length_take length_Cons min.commute)
  moreover have "history (filter_Reset g) = []" for g by (simp add: filter_Reset_def history_def NewFilter_def)
  moreover have "wf_filter (filter_Reset g)" for g unfolding filter_Reset_def by (rule wf_NewFilter)
  ultimately show ?thesis unfolding Let_def using h wf_filter_Add [OF assms] by blast
qed

theorem filter_ring_refines_history_witness:
  "history (fst (filter_Add (NewFilter (Fin 0)) (Fin 1) (Fin 2) (Fin 3) (Fin 4))) =
     [\<lparr>st_offset = Fin 1, st_delay = Fin 2, st_disp = Fin 3, st_t = Fin 4\<rparr>] \<and> wf_filter (NewFilter (Fin 0))"
proof -
  have w: "wf_filter (NewFilter (Fin 0))" by (rule wf_NewFilter)
  have "history (NewFilter (Fin 0)) = []" by (simp add: history_def NewFilter_def)
  then show ?thesis using filter_ring_refines_history [OF w, of 2 "Fin 3" 1 4] w by (simp add: Let_def clamp_stage_def)
qed

text \<open>C36: The filter's estimate is the best of the samples it holds and is reported once. Its offset, delay
  and time are those of one sample; no other sample in the register has a smaller distance, and none with
  the same distance is fresher. The estimate is marked new exactly when the sample is younger than every
  one reported before, and then the epoch moves forward to it; otherwise the epoch stands.\<close>
theorem filter_Add_picks_best:
  assumes "wf_filter f" and "0 \<le> d" and "Fin 0 \<le> disp"
    and "filter_Add f (Fin o') (Fin d) disp (Fin now) = (f', out, updated)" and "fo_Samples out \<noteq> 0"
  shows "\<exists>s \<in> set (history f'). fo_Offset out = st_offset s \<and> fo_Delay out = st_delay s \<and> fo_At out = st_t s \<and>
     (\<forall>s' \<in> set (history f'). stage_dist (Fin now) s \<le> stage_dist (Fin now) s' \<and>
        (stage_dist (Fin now) s' = stage_dist (Fin now) s \<longrightarrow> st_t s' \<le> st_t s)) \<and>
     (updated \<longleftrightarrow> \<not> fo_At out \<le> f_epoch f) \<and> f_epoch f' = (if updated then fo_At out else f_epoch f)"
  using assms(4)
proof (cases rule: filter_Add_cases)
  case none
  then show ?thesis using assms(5) by (simp add: zero_output_def)
next
  case (best r rs m dd j)
  let ?g = "loaded f (Fin o') (Fin d) disp (Fin now)"
  note g = loaded_sane [OF assms(1-3), where o' = o' and now = now]
  note hd = rank_stages_head [OF g(1) g(2) best(1)]
  have ep: "f_epoch ?g = f_epoch f" by (simp add: shift_in_def age_stages_map)
  have h: "set (history f') = (\<lambda>i. clamp_stage (f_stages ?g ! i)) ` {..<f_n ?g}"
    using g(1) best(7) set_history [of "clamp_stages ?g"] by (auto simp: clamp_stages_nth)
  let ?w = "clamp_stage (f_stages ?g ! fst r)"
  have out: "fo_Offset out = st_offset ?w" "fo_Delay out = st_delay ?w" "fo_At out = st_t ?w"
    using best(5) hd(1) g(1) by (simp_all add: clamp_stages_nth)
  have least: "stage_dist (Fin now) ?w \<le> stage_dist (Fin now) s' \<and>
      (stage_dist (Fin now) s' = stage_dist (Fin now) ?w \<longrightarrow> st_t s' \<le> st_t ?w)" if "s' \<in> set (history f')" for s'
    using that hd unfolding h by auto
  have "updated \<longleftrightarrow> \<not> fo_At out \<le> f_epoch f" "f_epoch f' = (if updated then fo_At out else f_epoch f)"
    using best(6) ep by (simp, subst best(7), simp)
  with out least h hd(1) show ?thesis by (intro bexI [of _ ?w]) (simp, blast)+
qed

theorem filter_Add_picks_best_witness:
  "\<exists>f' out. filter_Add (NewFilter (Fin 0)) (Fin 1) (Fin 2) (Fin (1 / 4)) (Fin 4) = (f', out, True) \<and>
     fo_Offset out = Fin 1 \<and> f_epoch f' = Fin 4 \<and>
     (\<exists>s \<in> set (history f'). fo_At out = st_t s \<and>
        (\<forall>s' \<in> set (history f'). stage_dist (Fin 4) s \<le> stage_dist (Fin 4) s'))"
proof -
  obtain f' out u where e: "filter_Add (NewFilter (Fin 0)) (Fin 1) (Fin 2) (Fin (1 / 4)) (Fin 4) = (f', out, u)"
    by (metis prod_cases3)
  then have o: "fo_Samples out = 1" "fo_Offset out = Fin 1" "fo_At out = Fin 4" "u" "f_epoch f' = Fin 4"
    unfolding filter_Add_sample by auto
  have "wf_filter (NewFilter (Fin 0))" by (rule wf_NewFilter)
  from filter_Add_picks_best [OF this _ _ e] o e show ?thesis by auto
qed

text \<open>Every estimate is bounded by what the register holds: it rests on at least one and at most all of
  the samples, its dispersion lies between zero and the maximum of 16 seconds (the stages not yet filled
  included), and its jitter is at least the precision of the clock.\<close>
theorem filter_Add_bounds:
  assumes "wf_filter f" and "0 \<le> d" and "Fin 0 \<le> disp" and "f_floor f \<noteq> NaN"
    and "filter_Add f (Fin o') (Fin d) disp (Fin now) = (f', out, updated)"
  shows "f_floor f' = f_floor f \<and> fo_Samples out \<le> filter_Len f' \<and> Fin 0 \<le> fo_Dispersion out \<and>
    fo_Dispersion out \<le> MaxDispersion \<and> (updated \<longrightarrow> 0 < fo_Samples out) \<and>
    (0 < fo_Samples out \<longrightarrow> f_floor f \<le> fo_Jitter out)"
  using assms(5)
proof (cases rule: filter_Add_cases)
  case none
  then show ?thesis by (simp add: zero_output_def shift_in_def age_stages_map)
next
  case (best r rs m dd j)
  let ?g = "loaded f (Fin o') (Fin d) disp (Fin now)"
  note g = loaded_sane [OF assms(1-3), where o' = o' and now = now]
  have fl: "f_floor ?g = f_floor f" by (simp add: shift_in_def age_stages_map)
  have ord: "fst (rank_stages ?g (Fin now) ! i) < f_n ?g" if "i < length (rank_stages ?g (Fin now))" for i
    using nth_mem [OF that] by (auto simp: rank_stages_def)
  have "case filter_sums (clamp_stages ?g) (r # rs) m of (d, j) \<Rightarrow> Fin 0 \<le> d \<and> d \<le> MaxDispersion \<and> Fin 0 \<le> j"
    using ord g sane_clamp by (intro filter_sums_bounds) (auto simp: best(1) clamp_stages_nth)
  then have b: "Fin 0 \<le> dd" "dd \<le> MaxDispersion" "Fin 0 \<le> j" using best(4) by auto
  let ?j = "if m > 1 then fsqrt (j / f64_of_int (int m - 1)) else j"
  have len: "length (r # rs) = f_n ?g" using arg_cong [OF best(1), of length] by (simp add: rank_stages_def)
  then have m: "m \<le> f_n ?g" "f_n ?g \<le> 8" using best(2) count_usable_bounds [of 0 "r # rs"] g(1) by (auto simp: wf_ring_def)
  then have "f64_of_int (int m - 1) = Fin (real m - 1)" using f64_of_int_small [of "int m - 1"] by simp
  then have "Fin 0 \<le> ?j" using b(3) by (auto intro!: fsqrt_nonneg f64_div_nonneg)
  then have "f_floor f \<le> fmax ?j (f_floor f)" using assms(4) fmax_ge [of ?j "f_floor f"] by (auto dest: f64_le_not_NaN)
  moreover have "f_n f' = f_n ?g" "f_floor f' = f_floor f" using best(7) fl by simp_all
  ultimately show ?thesis using best(3,5) b(1,2) m fl by (simp add: filter_Len_def)
qed

theorem filter_Add_bounds_witness:
  "Fin 0 \<le> fo_Dispersion (fst (snd (filter_Add (NewFilter (Fin 0)) (Fin 1) (Fin 2) (Fin (1 / 4)) (Fin 4)))) \<and>
   Fin 0 \<le> fo_Jitter (fst (snd (filter_Add (NewFilter (Fin 0)) (Fin 1) (Fin 2) (Fin (1 / 4)) (Fin 4))))"
proof -
  obtain f' out u where e: "filter_Add (NewFilter (Fin 0)) (Fin 1) (Fin 2) (Fin (1 / 4)) (Fin 4) = (f', out, u)"
    by (metis prod_cases3)
  then have "fo_Samples out = 1" unfolding filter_Add_sample by auto
  moreover have "f_floor (NewFilter (Fin 0)) = Fin 0" by (simp add: NewFilter_def)
  ultimately show ?thesis using filter_Add_bounds [OF wf_NewFilter _ _ _ e] e by simp
qed

end
