(* ===== verification/NTP_Client.thy ===== *)
theory NTP_Client
  imports NTP_Exchange Clock_Filter
begin

text \<open>
  \<^verbatim>\<open>internal/source/source.go\<close> and the poller of \<^verbatim>\<open>internal/source/ntp.go\<close>: the state of an NTP client source, the choice
  of its address, the handling of replies, kisses and silence, and one round of \<^verbatim>\<open>Run\<close>. The engine's
  epoch, the monotonic clock, the answers of the resolver and the outcome of each exchange are arguments;
  a run is a sequence of such operations with the log of the replies that were used.
\<close>

section \<open>Epochs and state\<close>

abbreviation (input) FirstEpoch :: uint64 where "FirstEpoch \<equiv> 2"

definition StableEpoch :: "uint64 \<Rightarrow> bool" where
  "StableEpoch g \<longleftrightarrow> g \<noteq> 0 \<and> g mod 2 = 0"

abbreviation (input) resolveAfterTimeouts :: nat where "resolveAfterTimeouts \<equiv> 8"
abbreviation (input) burstCount :: nat where "burstCount \<equiv> 4"
abbreviation (input) unreachableBackoff :: nat where "unreachableBackoff \<equiv> 10"
abbreviation (input) defaultTimeout :: duration where "defaultTimeout \<equiv> 2000000000"

datatype last_error = NoError | LookupError | ExchangeError exchange_error
  \<comment> \<open>what the text of \<^verbatim>\<open>LastError\<close> tells\<close>

record source_info =
  \<comment> \<open>an NTP source has no \<^verbatim>\<open>Refclock\<close>\<close>
  si_Name :: string
  si_Address :: string
  si_Resolved :: addr_port
  si_Reach :: uint8
  si_Poll :: int8
  si_Denied :: bool
  si_Offset :: f64
  si_Delay :: f64
  si_Dispersion :: f64
  si_Jitter :: f64
  si_Stratum :: uint8
  si_RefID :: refid
  si_Leap :: leap
  si_LastRx :: gtime
  si_LastError :: last_error
  si_Sent :: uint64
  si_Received :: uint64
  si_Timeouts :: uint64
  si_Bogus :: uint64
  si_BadAuth :: uint64
  si_Kiss :: uint64
  si_NoKernelTS :: uint64
  si_Stale :: uint64

record ntp_config =
  nc_Name :: string
  nc_Address :: string
  nc_Host :: string
  nc_literal :: "ipaddr option"
    \<comment> \<open>the host as \<^verbatim>\<open>netip.ParseAddr\<close> reads it\<close>
  nc_Port :: uint16
  nc_Key :: "auth_key option"
  nc_IBurst :: bool
  nc_PollMin :: int8
  nc_PollMax :: int8
  nc_Timeout :: duration
  nc_NoKernelTimestamps :: bool
  nc_Generation :: bool
    \<comment> \<open>whether the engine's epoch is supplied\<close>

record stageMeta =
  sm_at :: f64
  sm_stratum :: uint8
  sm_refID :: refid
  sm_rootDelay :: f64
  sm_rootDisp :: f64
  sm_precision :: int8
  sm_leap :: leap
  sm_refTime :: gtime

record ntp_source =
  \<comment> \<open>without the logger and its throttles, and \<^verbatim>\<open>exchangeBusy\<close>, which is set during \<open>pollOnce\<close> only\<close>
  n_cfg :: ntp_config
  n_precision :: int8
    \<comment> \<open>of the clock\<close>
  n_filter :: clock_filter
  n_resetRequested :: bool
  n_info :: source_info
  n_addr :: addr_port
  n_addrs :: "addr_port list"
  n_addrIndex :: nat
  n_haveAddr :: bool
  n_resolveFailing :: bool
  n_reach :: uint8
  n_poll :: int8
  n_consecutiveTimeouts :: nat
  n_consecutiveMisses :: nat
  n_consecutiveErrs :: uint64
  n_denied :: bool
  n_kodMinPoll :: int8
  n_effPollMax :: int8
  n_kissedRate :: bool
  n_meta :: "stageMeta list"
  n_metaNext :: nat
  n_lastStratum :: uint8
  n_haveStratum :: bool
  n_liveLeap :: leap
  n_liveLeapAt :: f64
  n_badAuthSeen :: uint64
  n_bogusSeen :: uint64
  n_staleSeen :: uint64

datatype source_error = HostEmpty | PortZero | PollRange int8 int8 | BadKeySize | NilClock

definition with_defaults :: "ntp_config \<Rightarrow> ntp_config" where
  "with_defaults cfg =
     cfg\<lparr>nc_Name := (if nc_Name cfg = [] then nc_Address cfg else nc_Name cfg),
         nc_PollMin := (if nc_PollMin cfg = 0 then 6 else nc_PollMin cfg),
         nc_PollMax := (if nc_PollMax cfg = 0 then 10 else nc_PollMax cfg),
         nc_Timeout := (if nc_Timeout cfg \<le> 0 then defaultTimeout else nc_Timeout cfg)\<rparr>"

definition zero_addr_port :: addr_port where
  "zero_addr_port = \<lparr>ap_addr = AddrNone, ap_port = 0\<rparr>"

definition new_info :: "ntp_config \<Rightarrow> source_info" where
  "new_info cfg = \<lparr>si_Name = nc_Name cfg, si_Address = nc_Address cfg, si_Resolved = zero_addr_port, si_Reach = 0,
     si_Poll = nc_PollMin cfg, si_Denied = False, si_Offset = Fin 0, si_Delay = Fin 0, si_Dispersion = Fin 0,
     si_Jitter = Fin 0, si_Stratum = 0, si_RefID = zero_refid, si_Leap = LeapNone, si_LastRx = zero_time,
     si_LastError = NoError, si_Sent = 0, si_Received = 0, si_Timeouts = 0, si_Bogus = 0, si_BadAuth = 0,
     si_Kiss = 0, si_NoKernelTS = 0, si_Stale = 0\<rparr>"

definition new_source :: "ntp_config \<Rightarrow> int8 \<Rightarrow> ntp_source" where
  "new_source cfg precision = \<lparr>n_cfg = cfg, n_precision = precision, n_filter = NewFilter (Log2Seconds precision),
     n_resetRequested = False, n_info = new_info cfg, n_addr = zero_addr_port, n_addrs = [], n_addrIndex = 0,
     n_haveAddr = False, n_resolveFailing = False, n_reach = 0, n_poll = nc_PollMin cfg, n_consecutiveTimeouts = 0,
     n_consecutiveMisses = 0, n_consecutiveErrs = 0, n_denied = False, n_kodMinPoll = 0,
     n_effPollMax = nc_PollMax cfg, n_kissedRate = False, n_meta = [], n_metaNext = 0, n_lastStratum = 0,
     n_haveStratum = False, n_liveLeap = LeapNone, n_liveLeapAt = Fin 0, n_badAuthSeen = 0, n_bogusSeen = 0,
     n_staleSeen = 0\<rparr>"

definition NewNTP :: "ntp_config \<Rightarrow> int8 option \<Rightarrow> source_error + ntp_source" where
  \<comment> \<open>the clock is given by its precision\<close>
  "NewNTP cfg clk =
     (let c = with_defaults cfg
      in if nc_Host c = [] then Inl HostEmpty
         else if nc_Port c = 0 then Inl PortZero
         else if sint (nc_PollMin c) < MinPoll \<or> sint (nc_PollMax c) > MaxPoll
              \<or> sint (nc_PollMin c) > sint (nc_PollMax c)
           then Inl (PollRange (nc_PollMin c) (nc_PollMax c))
         else if (case nc_Key c of Some k \<Rightarrow> length (k_Secret k) \<noteq> 16 | None \<Rightarrow> False) then Inl BadKeySize
         else case clk of None \<Rightarrow> Inl NilClock | Some precision \<Rightarrow> Inr (new_source c precision))"

definition generation :: "ntp_source \<Rightarrow> uint64 \<Rightarrow> uint64" where
  "generation n epoch = (if nc_Generation (n_cfg n) then epoch else 0)"

definition source_Reset :: "ntp_source \<Rightarrow> ntp_source" where
  "source_Reset n = n\<lparr>n_resetRequested := True\<rparr>"

definition updateInfo :: "(source_info \<Rightarrow> source_info) \<Rightarrow> ntp_source \<Rightarrow> ntp_source" where
  "updateInfo f n = n\<lparr>n_info := f (n_info n)\<rparr>"

section \<open>Addresses\<close>

definition resetEndpointState :: "ntp_source \<Rightarrow> ntp_source" where
  "resetEndpointState n =
     n\<lparr>n_kodMinPoll := 0, n_effPollMax := nc_PollMax (n_cfg n), n_poll := nc_PollMin (n_cfg n),
       n_kissedRate := False, n_meta := [], n_metaNext := 0, n_haveStratum := False,
       n_filter := filter_Reset (n_filter n)\<rparr>"

definition useAddr :: "addr_port \<Rightarrow> ntp_source \<Rightarrow> ntp_source" where
  "useAddr addr n =
     (if n_haveAddr n \<and> addr = n_addr n then n
      else updateInfo (\<lambda>i. i\<lparr>si_Resolved := addr\<rparr>)
             (resetEndpointState (n\<lparr>n_addr := addr, n_haveAddr := True\<rparr>)))"

fun index_of :: "'a \<Rightarrow> 'a list \<Rightarrow> nat option" where
  "index_of x [] = None"
| "index_of x (y # ys) = (if y = x then Some 0 else map_option Suc (index_of x ys))"

definition setAddrs :: "addr_port list \<Rightarrow> ntp_source \<Rightarrow> ntp_source" where
  "setAddrs addrs n0 =
     (let n = n0\<lparr>n_addrs := addrs\<rparr>
      in if \<not> n_haveAddr n then useAddr (addrs ! 0) n
         else case index_of (n_addr n) addrs of
             Some i \<Rightarrow> n\<lparr>n_addrIndex := i\<rparr>
           | None \<Rightarrow> useAddr (addrs ! 0) n)"

definition rotateAddr :: "ntp_source \<Rightarrow> ntp_source" where
  "rotateAddr n =
     (if length (n_addrs n) < 2 then n
      else (let i = (n_addrIndex n + 1) mod length (n_addrs n)
            in useAddr (n_addrs n ! i) (n\<lparr>n_addrIndex := i\<rparr>)))"

definition ensureResolved :: "ipaddr list option \<Rightarrow> bool \<Rightarrow> ntp_source \<Rightarrow> bool \<times> ntp_source" where
  \<comment> \<open>what the resolver answers, and whether the context is done when it fails\<close>
  "ensureResolved answers cancelled n =
     (if n_haveAddr n \<and> n_consecutiveTimeouts n < resolveAfterTimeouts then (True, n)
      else (let endpointFailed = (n_haveAddr n \<and> n_consecutiveTimeouts n \<ge> resolveAfterTimeouts)
            in case resolve (nc_literal (n_cfg n)) answers (nc_Port (n_cfg n)) of
                 None \<Rightarrow>
                   if cancelled then (False, n)
                   else (let n = updateInfo (\<lambda>i. i\<lparr>si_LastError := LookupError\<rparr>) (n\<lparr>n_resolveFailing := True\<rparr>);
                             n = (if endpointFailed then rotateAddr n else n)
                         in (n_haveAddr n, n))
               | Some addrs \<Rightarrow>
                   (let n = setAddrs addrs (n\<lparr>n_resolveFailing := False\<rparr>);
                        n = (if endpointFailed then rotateAddr n else n);
                        n = n\<lparr>n_consecutiveTimeouts := 0\<rparr>
                    in (True, updateInfo (\<lambda>i. i\<lparr>si_Resolved := n_addr n\<rparr>) n))))"

section \<open>One poll\<close>

record sample =
  sa_out :: exchangeResult
  sa_f :: filter_output
  sa_meta :: stageMeta

definition noteMeta :: "stageMeta \<Rightarrow> ntp_source \<Rightarrow> ntp_source" where
  "noteMeta m n =
     (if length (n_meta n) < FilterStages then n\<lparr>n_meta := n_meta n @ [m]\<rparr>
      else n\<lparr>n_meta := (n_meta n)[n_metaNext n := m],
             n_metaNext := (n_metaNext n + 1) mod FilterStages\<rparr>)"

definition metaAt :: "f64 \<Rightarrow> ntp_source \<Rightarrow> stageMeta option" where
  "metaAt t n = find (\<lambda>m. feq (sm_at m) t) (n_meta n)"

definition publish :: "ntp_source \<Rightarrow> ntp_source" where
  "publish n = updateInfo (\<lambda>i. i\<lparr>si_Reach := n_reach n, si_Poll := n_poll n\<rparr>) n"

definition miss :: "ntp_source \<Rightarrow> ntp_source" where
  "miss n0 =
     (let n = n0\<lparr>n_reach := push_bit 1 (n_reach n0), n_consecutiveMisses := n_consecutiveMisses n0 + 1\<rparr>;
          n = (if n_reach n = 0 \<and> n_consecutiveMisses n \<ge> unreachableBackoff \<and> sint (n_poll n) < sint (n_effPollMax n)
               then n\<lparr>n_poll := n_poll n + 1\<rparr> else n)
      in publish n)"

definition reached :: "ntp_source \<Rightarrow> ntp_source" where
  \<comment> \<open>the assignments with which \<open>discardStale\<close> and \<open>hit\<close> begin\<close>
  "reached n = n\<lparr>n_reach := push_bit 1 (n_reach n) OR 1, n_consecutiveTimeouts := 0,
     n_consecutiveMisses := 0, n_consecutiveErrs := 0\<rparr>"

definition discardStale :: "ntp_source \<Rightarrow> ntp_source" where
  "discardStale n0 =
     (let n = reached n0;
          n = n\<lparr>n_staleSeen := n_staleSeen n + 1\<rparr>
      in publish (updateInfo (\<lambda>i. i\<lparr>si_Stale := si_Stale i + 1\<rparr>) n))"

definition rate_demand :: "ntp_source \<Rightarrow> packet \<Rightarrow> int8" where
  \<comment> \<open>the poll exponent a RATE kiss asks for, at most the cap on what a server may demand\<close>
  "rate_demand n pkt =
     (let want = n_poll n + 1;
          want = (if sint (p_Poll pkt) > sint want then p_Poll pkt else want);
          remoteCap = (if sint (nc_PollMax (n_cfg n)) > sint maxRemoteBackoffPoll then nc_PollMax (n_cfg n)
                       else maxRemoteBackoffPoll)
      in if sint want > sint remoteCap then remoteCap else want)"

definition slow_down :: "ntp_source \<Rightarrow> packet \<Rightarrow> ntp_source" where
  "slow_down n0 pkt =
     (let want = rate_demand n0 pkt;
          n = (if sint want > sint (n_effPollMax n0) then n0\<lparr>n_effPollMax := want\<rparr> else n0);
          want = clampPoll want (nc_PollMin (n_cfg n)) (n_effPollMax n);
          n = (if sint want > sint (n_kodMinPoll n) then n\<lparr>n_kodMinPoll := want\<rparr> else n)
      in n\<lparr>n_poll := want, n_kissedRate := True\<rparr>)"

definition handleKiss :: "string \<Rightarrow> packet \<Rightarrow> bool \<Rightarrow> ntp_source \<Rightarrow> ntp_source" where
  "handleKiss code pkt authenticated n0 =
     (let n = updateInfo (\<lambda>i. i\<lparr>si_Kiss := si_Kiss i + 1,
                si_LastError := ExchangeError (Kiss code pkt authenticated)\<rparr>) n0
      in if code = ''RATE'' then miss (slow_down n pkt)
         else if (code = ''DENY'' \<or> code = ''RSTR'') \<and> authenticated then
           updateInfo (\<lambda>i. i\<lparr>si_Denied := True, si_Reach := 0\<rparr>)
             ((miss (n\<lparr>n_denied := True\<rparr>))\<lparr>n_reach := 0\<rparr>)
         else miss n)"

definition pollFloor :: "ntp_source \<Rightarrow> int8" where
  "pollFloor n = (if sint (n_kodMinPoll n) > sint (nc_PollMin (n_cfg n)) then n_kodMinPoll n
                  else nc_PollMin (n_cfg n))"

definition meta_of :: "f64 \<Rightarrow> exchangeResult \<Rightarrow> stageMeta" where
  "meta_of t res =
     (let pkt = er_Packet res
      in \<lparr>sm_at = t, sm_stratum = p_Stratum pkt, sm_refID = p_ReferenceID pkt,
          sm_rootDelay = short_Seconds (p_RootDelay pkt), sm_rootDisp = short_Seconds (p_RootDispersion pkt),
          sm_precision = p_Precision pkt, sm_leap = p_Leap pkt,
          sm_refTime = ntp_Time (p_ReferenceTime pkt) (er_T1 res)\<rparr>)"

definition sample_disp :: "ntp_source \<Rightarrow> exchangeResult \<Rightarrow> f64" where
  "sample_disp n res =
     Log2Seconds (n_precision n) + Log2Seconds (clampPrecision (p_Precision (er_Packet res)))
     + Phi * duration_seconds (time_sub (er_T4 res) (er_T1 res))"

definition prepare :: "exchangeResult \<Rightarrow> ntp_source \<Rightarrow> ntp_source" where
  \<comment> \<open>\<open>hit\<close> up to the reading of the monotonic clock\<close>
  "prepare res n0 =
     (let n = reached n0;
          n = (if n_reach n0 = 0 then n\<lparr>n_poll := pollFloor n\<rparr> else n);
          n = (if n_resetRequested n then n\<lparr>n_resetRequested := False, n_filter := filter_Reset (n_filter n)\<rparr> else n);
          stratum = p_Stratum (er_Packet res);
          n = (if n_haveStratum n \<and> stratum \<noteq> n_lastStratum n
               then n\<lparr>n_filter := filter_Reset (n_filter n), n_meta := [], n_metaNext := 0\<rparr> else n)
      in n\<lparr>n_lastStratum := stratum, n_haveStratum := True\<rparr>)"

definition hit_info :: "exchangeResult \<Rightarrow> filter_output \<Rightarrow> bool \<Rightarrow> source_info \<Rightarrow> source_info" where
  "hit_info res f updated i =
     (let pkt = er_Packet res;
          i = i\<lparr>si_Received := si_Received i + 1, si_LastRx := er_T4 res, si_LastError := NoError,
                si_Stratum := p_Stratum pkt, si_RefID := p_ReferenceID pkt, si_Leap := p_Leap pkt\<rparr>;
          i = (if \<not> er_KernelTS res then i\<lparr>si_NoKernelTS := si_NoKernelTS i + 1\<rparr> else i)
      in if updated then i\<lparr>si_Offset := fo_Offset f, si_Delay := fo_Delay f, si_Dispersion := fo_Dispersion f,
                           si_Jitter := fo_Jitter f\<rparr> else i)"

definition hit :: "exchangeResult \<Rightarrow> f64 \<Rightarrow> ntp_source \<Rightarrow> sample option \<times> ntp_source" where
  \<comment> \<open>\<open>t\<close> is the reading of the monotonic clock\<close>
  "hit res t n0 =
     (let n = prepare res n0;
          n = n\<lparr>n_liveLeap := p_Leap (er_Packet res), n_liveLeapAt := t\<rparr>;
          n = noteMeta (meta_of t res) n;
          (flt, f, updated) = filter_Add (n_filter n) (er_Offset res) (er_Delay res) (sample_disp n res) t;
          n = updateInfo (hit_info res f updated) (n\<lparr>n_filter := flt\<rparr>)
      in if \<not> updated then (None, publish n)
         else (let n = publish (n\<lparr>n_poll := adaptPoll (n_poll n) (fo_Offset f) (fo_Jitter f) (pollFloor n) (n_effPollMax n)\<rparr>);
                   meta = (case metaAt (fo_At f) n of Some m \<Rightarrow> m | None \<Rightarrow> (meta_of t res)\<lparr>sm_at := fo_At f\<rparr>)
               in (Some \<lparr>sa_out = res, sa_f = f, sa_meta = meta\<rparr>, n)))"

definition emitted :: "sample option \<Rightarrow> uint64 \<Rightarrow> bool \<Rightarrow> f64 \<Rightarrow> ntp_source \<Rightarrow> measurement" where
  \<comment> \<open>the measurement \<open>emit\<close> sends, with the monotonic clock at \<open>now\<close>\<close>
  "emitted s gen acquired now n =
     (let m = zero_measurement\<lparr>me_Source := nc_Name (n_cfg n), me_Now := now, me_Reach := n_reach n,
                me_Poll := n_poll n, me_Generation := gen, me_Acquired := acquired, me_LeapSample := acquired,
                me_LeapValue := n_liveLeap n, me_LeapObserved := n_liveLeapAt n\<rparr>
      in case s of
           None \<Rightarrow> m
         | Some s \<Rightarrow>
             m\<lparr>me_Valid := True, me_At := fo_At (sa_f s), me_Offset := fo_Offset (sa_f s),
               me_Delay := fo_Delay (sa_f s), me_Dispersion := fo_Dispersion (sa_f s), me_Jitter := fo_Jitter (sa_f s),
               me_Leap := sm_leap (sa_meta s), me_Stratum := sm_stratum (sa_meta s), me_RefID := sm_refID (sa_meta s),
               me_RootDelay := sm_rootDelay (sa_meta s), me_RootDisp := sm_rootDisp (sa_meta s),
               me_Precision := sm_precision (sa_meta s), me_RefTime := sm_refTime (sa_meta s),
               me_SourceRefID := RefIDFromAddr (ap_addr (n_addr n))\<rparr>)"

definition emit :: "sample option \<Rightarrow> uint64 \<Rightarrow> bool \<Rightarrow> f64 \<Rightarrow> bool \<Rightarrow> ntp_source \<Rightarrow> measurement option" where
  \<comment> \<open>\<open>None\<close> when the context is done first\<close>
  "emit s gen acquired now delivered n = (if delivered then Some (emitted s gen acquired now n) else None)"

record poll_env =
  pe_gen :: uint64
    \<comment> \<open>the epoch before the request\<close>
  pe_exchange :: exchange_env
  pe_reset :: bool
    \<comment> \<open>whether \<^verbatim>\<open>Reset\<close> is called meanwhile\<close>
  pe_cancelled :: bool
  pe_gen_after :: uint64
  pe_mono :: f64
  pe_gen_emit :: uint64
  pe_mono_emit :: f64
  pe_delivered :: bool

definition poll_params :: "ntp_source \<Rightarrow> exchangeParams" where
  "poll_params n = \<lparr>xp_addr = n_addr n, xp_key = nc_Key (n_cfg n), xp_poll = n_poll n, xp_precision = n_precision n,
     xp_kernelTS = (\<not> nc_NoKernelTimestamps (n_cfg n))\<rparr>"

definition usable_epoch :: "uint64 \<Rightarrow> uint64 \<Rightarrow> bool" where
  \<comment> \<open>the two cases that discard a reply do not apply\<close>
  "usable_epoch gen now \<longleftrightarrow> \<not> (now \<noteq> gen) \<and> \<not> (now \<noteq> 0 \<and> \<not> StableEpoch now)"

definition endpoint_failed :: "exchange_error \<Rightarrow> ntp_source \<Rightarrow> ntp_source" where
  "endpoint_failed e n =
     miss (updateInfo (\<lambda>i. i\<lparr>si_Timeouts := si_Timeouts i + 1, si_LastError := ExchangeError e\<rparr>)
       (n\<lparr>n_consecutiveTimeouts := n_consecutiveTimeouts n + 1\<rparr>))"

definition poll_failed :: "exchange_error \<Rightarrow> ntp_source \<Rightarrow> ntp_source" where
  \<comment> \<open>the error cases of \<open>pollOnce\<close>; the counters that throttle the log are kept\<close>
  "poll_failed e n =
     (case e of
        ErrTimeout \<Rightarrow> endpoint_failed e n
      | ErrUnreachable \<Rightarrow> endpoint_failed e n
      | ErrNetworkUnreachable \<Rightarrow> endpoint_failed e n
      | ErrBadAuth \<Rightarrow>
          miss (updateInfo (\<lambda>i. i\<lparr>si_BadAuth := si_BadAuth i + 1, si_LastError := ExchangeError e\<rparr>)
            (n\<lparr>n_badAuthSeen := n_badAuthSeen n + 1\<rparr>))
      | Kiss code pkt authenticated \<Rightarrow> handleKiss code pkt authenticated n
      | Bogus reason \<Rightarrow>
          miss (updateInfo (\<lambda>i. i\<lparr>si_Bogus := si_Bogus i + 1, si_LastError := ExchangeError e\<rparr>)
            (n\<lparr>n_bogusSeen := n_bogusSeen n + 1\<rparr>))
      | _ \<Rightarrow>
          miss (updateInfo (\<lambda>i. i\<lparr>si_LastError := ExchangeError e\<rparr>)
            (n\<lparr>n_consecutiveErrs := n_consecutiveErrs n + 1\<rparr>)))"

definition pollOnce :: "poll_env \<Rightarrow> ntp_source \<Rightarrow> (measurement option \<times> ntp_source) option" where
  \<comment> \<open>the measurement sent, \<open>None\<close> where the code returns false\<close>
  "pollOnce env n0 =
     (case exchange (poll_params n0) (pe_exchange env) of
        None \<Rightarrow> None
      | Some (res, err) \<Rightarrow>
          (let gen = generation n0 (pe_gen env);
               n = n0\<lparr>n_resetRequested := (n_resetRequested n0 \<or> pe_reset env)\<rparr>;
               n = (if er_Sent res then updateInfo (\<lambda>i. i\<lparr>si_Sent := si_Sent i + 1\<rparr>) n else n);
               unmeasured = (\<lambda>acquired n. Some (emit None (generation n (pe_gen_emit env)) acquired
                 (pe_mono_emit env) (pe_delivered env) n, n))
           in case err of
                None \<Rightarrow>
                  if \<not> usable_epoch gen (generation n (pe_gen_after env)) then unmeasured False (discardStale n)
                  else (case hit res (pe_mono env) n of
                          (None, n) \<Rightarrow> unmeasured True n
                        | (Some s, n) \<Rightarrow> Some (emit (Some s) gen True (pe_mono_emit env) (pe_delivered env) n, n))
              | Some e \<Rightarrow>
                  if e = ErrCancelled \<or> pe_cancelled env then Some (None, n)
                  else unmeasured False (poll_failed e n)))"

section \<open>Rounds\<close>

datatype after_round = Returned | Stopped | Sleeping duration
  \<comment> \<open>\<open>Run\<close> returns, waits for the context after a denial, or sleeps\<close>

record round_env =
  re_answers :: "ipaddr list option"
  re_lookup_cancelled :: bool
  re_miss_gen :: uint64
  re_miss_mono :: f64
  re_miss_delivered :: bool
  re_polls :: "nat \<Rightarrow> poll_env"
  re_burst_sleep :: "nat \<Rightarrow> bool"
  re_random :: f64

fun burst :: "round_env \<Rightarrow> nat \<Rightarrow> nat \<Rightarrow> ntp_source \<Rightarrow> (bool \<times> measurement list \<times> ntp_source) option" where
  \<comment> \<open>the packets \<open>i\<close> to \<open>burstCount\<close>, \<open>k\<close> of them left\<close>
  "burst env i 0 n = Some (True, [], n)"
| "burst env i (Suc k) n =
     (if n_denied n \<or> n_kissedRate n then Some (True, [], n)
      else if i > 0 \<and> \<not> re_burst_sleep env i then Some (False, [], n)
      else case pollOnce (re_polls env i) n of
          None \<Rightarrow> None
        | Some (None, n) \<Rightarrow> Some (False, [], n)
        | Some (Some m, n) \<Rightarrow>
            map_option (\<lambda>(ok, ms, n). (ok, m # ms, n)) (burst env (i + 1) k n))"

definition round_polls :: "round_env \<Rightarrow> ntp_source \<Rightarrow> (bool \<times> measurement list \<times> ntp_source) option" where
  \<comment> \<open>the switch of \<open>Run\<close>: false where it returns\<close>
  "round_polls env n0 =
     (let (resolved, n) = ensureResolved (re_answers env) (re_lookup_cancelled env) n0
      in if \<not> resolved then
           (if re_lookup_cancelled env then Some (False, [], n)
            else (let n = miss n
                  in case emit None (generation n (re_miss_gen env)) False (re_miss_mono env) (re_miss_delivered env) n of
                       None \<Rightarrow> Some (False, [], n)
                     | Some m \<Rightarrow> Some (True, [m], n)))
         else if nc_IBurst (n_cfg n) \<and> n_reach n = 0 then burst env 0 burstCount (n\<lparr>n_kissedRate := False\<rparr>)
         else (case pollOnce (re_polls env 0) n of
                 None \<Rightarrow> None
               | Some (None, n) \<Rightarrow> Some (False, [], n)
               | Some (Some m, n) \<Rightarrow> Some (True, [m], n)))"

definition run_round :: "round_env \<Rightarrow> ntp_source \<Rightarrow> (after_round \<times> measurement list \<times> ntp_source) option" where
  \<comment> \<open>one turn of the loop of \<open>Run\<close>\<close>
  "run_round env n0 =
     (if n_denied n0 then Some (Stopped, [], n0)
      else case round_polls env n0 of
          None \<Rightarrow> None
        | Some (False, ms, n) \<Rightarrow> Some (Returned, ms, n)
        | Some (True, ms, n) \<Rightarrow>
            if n_denied n then Some (Stopped, ms, n)
            else map_option (\<lambda>d. (Sleeping d, ms, n)) (pollInterval (re_random env) (n_poll n) (n_kodMinPoll n)))"

section \<open>Poll bounds\<close>

definition client_config_ok :: "ntp_config \<Rightarrow> bool" where
  "client_config_ok cfg \<longleftrightarrow> MinPoll \<le> sint (nc_PollMin cfg) \<and> sint (nc_PollMin cfg) \<le> sint (nc_PollMax cfg) \<and>
     sint (nc_PollMax cfg) \<le> MaxPoll \<and> (\<forall>k. nc_Key cfg = Some k \<longrightarrow> length (k_Secret k) = KeySize)"

definition backoff_cap :: "ntp_config \<Rightarrow> int" where
  "backoff_cap cfg = max 13 (sint (nc_PollMax cfg))"

definition poll_ok :: "ntp_source \<Rightarrow> bool" where
  "poll_ok n \<longleftrightarrow> client_config_ok (n_cfg n) \<and>
     sint (nc_PollMin (n_cfg n)) \<le> sint (n_poll n) \<and> sint (n_poll n) \<le> sint (n_effPollMax n) \<and>
     0 \<le> sint (n_kodMinPoll n) \<and> sint (n_kodMinPoll n) \<le> sint (n_poll n) \<and>
     sint (nc_PollMax (n_cfg n)) \<le> sint (n_effPollMax n) \<and> sint (n_effPollMax n) \<le> backoff_cap (n_cfg n)"

lemma sint8_step:
  fixes w :: int8
  shows "sint w < 127 \<Longrightarrow> sint (w + 1) = sint w + 1" "- 128 < sint w \<Longrightarrow> sint (w - 1) = sint w - 1"
proof -
  have r: "- 128 \<le> sint w" "sint w \<le> 127" using sint_ge [of w] sint_lt [of w] by simp_all
  have "w + 1 = word_of_int (sint w + 1)" "w - 1 = word_of_int (sint w - 1)" by simp_all
  then have "sint (w + 1) = signed_take_bit 7 (sint w + 1)" "sint (w - 1) = signed_take_bit 7 (sint w - 1)"
    by (simp_all only: sint_sbintrunc') simp_all
  then show "sint w < 127 \<Longrightarrow> sint (w + 1) = sint w + 1" "- 128 < sint w \<Longrightarrow> sint (w - 1) = sint w - 1"
    using r by (simp_all add: signed_take_bit_int_eq_self)
qed

lemma clampPoll_range: "sint lo \<le> sint hi \<Longrightarrow> sint lo \<le> sint (clampPoll p lo hi) \<and> sint (clampPoll p lo hi) \<le> sint hi"
  by (auto simp: clampPoll_def)

lemma adaptPoll_range:
  "sint lo \<le> sint hi \<Longrightarrow> sint lo \<le> sint (adaptPoll p offset j lo hi) \<and> sint (adaptPoll p offset j lo hi) \<le> sint hi"
  unfolding adaptPoll_def Let_def by (rule clampPoll_range)

lemma poll_ok_small:
  assumes "poll_ok n"
  shows "sint (n_poll n) \<le> 17" "2 \<le> sint (n_poll n)"
  using assms by (auto simp: poll_ok_def client_config_ok_def backoff_cap_def)

text \<open>What a poll without a usable reply leaves alone, and what it does to the poll exponents.\<close>

definition assoc :: "ntp_source \<Rightarrow> clock_filter \<times> stageMeta list \<times> nat \<times> addr_port \<times> addr_port list \<times> nat \<times> bool" where
  "assoc n = (n_filter n, n_meta n, n_metaNext n, n_addr n, n_addrs n, n_addrIndex n, n_haveAddr n)"

lemmas silent_defs = assoc_def miss_def publish_def updateInfo_def Let_def discardStale_def reached_def
  slow_down_def endpoint_failed_def

lemma assoc_miss [simp]: "assoc (miss n) = assoc n" "n_cfg (miss n) = n_cfg n"
  by (simp_all add: silent_defs)

lemma assoc_updateInfo [simp]: "assoc (updateInfo f n) = assoc n" "n_cfg (updateInfo f n) = n_cfg n"
  by (simp_all add: silent_defs)

lemma assoc_discardStale [simp]: "assoc (discardStale n) = assoc n" "n_cfg (discardStale n) = n_cfg n"
  by (simp_all add: silent_defs)

lemma assoc_slow_down [simp]: "assoc (slow_down n pkt) = assoc n" "n_cfg (slow_down n pkt) = n_cfg n"
  by (simp_all add: slow_down_def Let_def assoc_def)

lemma assoc_flags [simp]: "assoc (n\<lparr>n_reach := r\<rparr>) = assoc n" "assoc (n\<lparr>n_denied := d\<rparr>) = assoc n"
    "assoc (n\<lparr>n_consecutiveTimeouts := a\<rparr>) = assoc n" "assoc (n\<lparr>n_badAuthSeen := b\<rparr>) = assoc n"
    "assoc (n\<lparr>n_bogusSeen := b\<rparr>) = assoc n" "assoc (n\<lparr>n_consecutiveErrs := b\<rparr>) = assoc n"
    "assoc (n\<lparr>n_resetRequested := c\<rparr>) = assoc n" "assoc (n\<lparr>n_kissedRate := c\<rparr>) = assoc n"
  by (simp_all add: assoc_def)

lemma assoc_handleKiss [simp]: "assoc (handleKiss code pkt au n) = assoc n" "n_cfg (handleKiss code pkt au n) = n_cfg n"
  by (simp_all add: handleKiss_def Let_def)

lemma assoc_poll_failed [simp]: "assoc (poll_failed e n) = assoc n" "n_cfg (poll_failed e n) = n_cfg n"
  by (cases e; simp add: poll_failed_def endpoint_failed_def)+

lemma miss_sel [simp]:
  "n_kodMinPoll (miss n) = n_kodMinPoll n" "n_effPollMax (miss n) = n_effPollMax n" "n_denied (miss n) = n_denied n"
  by (simp_all add: silent_defs)

lemma poll_ok_updateInfo [simp]: "poll_ok (updateInfo f n) = poll_ok n"
  by (simp add: poll_ok_def updateInfo_def)

lemma poll_ok_publish [simp]: "poll_ok (publish n) = poll_ok n"
  by (simp add: publish_def)

lemma poll_ok_miss:
  assumes "poll_ok n"
  shows "poll_ok (miss n)"
  using assms sint8_step(1) [of "n_poll n"] poll_ok_small [OF assms]
  by (auto simp: miss_def Let_def) (simp_all add: poll_ok_def)

lemma rate_demand_range:
  assumes "poll_ok n"
  shows "sint (n_poll n) \<le> sint (rate_demand n pkt)" "sint (rate_demand n pkt) \<le> backoff_cap (n_cfg n)"
  using assms sint8_step(1) [of "n_poll n"] poll_ok_small [OF assms]
  by (auto simp: rate_demand_def Let_def poll_ok_def client_config_ok_def backoff_cap_def)

lemma slow_down_range:
  assumes "poll_ok n"
  shows "n_poll (slow_down n pkt) = rate_demand n pkt" "n_kodMinPoll (slow_down n pkt) = rate_demand n pkt"
    "sint (n_effPollMax (slow_down n pkt)) = max (sint (n_effPollMax n)) (sint (rate_demand n pkt))"
    "n_cfg (slow_down n pkt) = n_cfg n" "n_denied (slow_down n pkt) = n_denied n"
proof -
  let ?n = "if sint (rate_demand n pkt) > sint (n_effPollMax n) then n\<lparr>n_effPollMax := rate_demand n pkt\<rparr> else n"
  note r = rate_demand_range [OF assms, of pkt]
  have c: "clampPoll (rate_demand n pkt) (nc_PollMin (n_cfg ?n)) (n_effPollMax ?n) = rate_demand n pkt"
    using r(1) assms by (simp add: clampPoll_def poll_ok_def)
  have k: "sint (n_kodMinPoll n) \<le> sint (rate_demand n pkt)" using r(1) assms by (simp add: poll_ok_def)
  have e: "sint (rate_demand n pkt) = sint (n_kodMinPoll n) \<Longrightarrow> n_kodMinPoll n = rate_demand n pkt" by (rule sym) (rule signed_word_eqI)
  show "n_poll (slow_down n pkt) = rate_demand n pkt" "n_kodMinPoll (slow_down n pkt) = rate_demand n pkt"
    "sint (n_effPollMax (slow_down n pkt)) = max (sint (n_effPollMax n)) (sint (rate_demand n pkt))"
    "n_cfg (slow_down n pkt) = n_cfg n" "n_denied (slow_down n pkt) = n_denied n"
    unfolding slow_down_def Let_def c using k e by (auto simp: not_less)
qed

lemma poll_ok_slow_down:
  assumes "poll_ok n"
  shows "poll_ok (slow_down n pkt)" "sint (n_kodMinPoll n) \<le> sint (n_kodMinPoll (slow_down n pkt))"
  using assms rate_demand_range [OF assms, of pkt]
  unfolding poll_ok_def slow_down_range [OF assms] by auto

lemma handleKiss_polls:
  assumes "poll_ok n"
  shows "poll_ok (handleKiss code pkt au n)" "sint (n_kodMinPoll n) \<le> sint (n_kodMinPoll (handleKiss code pkt au n))"
proof -
  define m where "m = updateInfo (\<lambda>i. i\<lparr>si_Kiss := si_Kiss i + 1, si_LastError := ExchangeError (Kiss code pkt au)\<rparr>) n"
  have m: "poll_ok m" using assms by (simp add: m_def)
  have f: "n_kodMinPoll m = n_kodMinPoll n" "n_denied m = n_denied n" by (simp_all add: m_def updateInfo_def)
  have d: "poll_ok (m\<lparr>n_denied := True\<rparr>)" using m by (simp add: poll_ok_def)
  have "poll_ok ((miss (m\<lparr>n_denied := True\<rparr>))\<lparr>n_reach := 0\<rparr>)" using poll_ok_miss [OF d] by (simp add: poll_ok_def)
  then show "poll_ok (handleKiss code pkt au n)"
    using poll_ok_miss [OF m] poll_ok_miss [OF poll_ok_slow_down(1) [OF m]]
    unfolding handleKiss_def Let_def m_def [symmetric] by simp
  show "sint (n_kodMinPoll n) \<le> sint (n_kodMinPoll (handleKiss code pkt au n))"
    using poll_ok_slow_down(2) [OF m, of pkt] unfolding handleKiss_def Let_def m_def [symmetric]
    by (simp add: f updateInfo_def)
qed

text \<open>What a kiss asks for, and that nothing else moves the lower bound or stops the polling.\<close>

lemma rate_demand_value:
  assumes "poll_ok n"
  shows "sint (rate_demand n pkt) = min (backoff_cap (n_cfg n)) (max (sint (n_poll n) + 1) (sint (p_Poll pkt)))"
  using sint8_step(1) [of "n_poll n"] poll_ok_small [OF assms]
  by (auto simp: rate_demand_def Let_def backoff_cap_def)

lemma miss_kissedRate [simp]: "n_kissedRate (miss n) = n_kissedRate n"
  by (simp add: silent_defs)

lemma handleKiss_demand:
  assumes "poll_ok n"
  shows "sint (n_kodMinPoll (handleKiss ''RATE'' pkt au n)) =
      min (backoff_cap (n_cfg n)) (max (sint (n_poll n) + 1) (sint (p_Poll pkt)))"
    "n_kissedRate (handleKiss ''RATE'' pkt au n)"
    "code \<noteq> ''RATE'' \<Longrightarrow> n_kodMinPoll (handleKiss code pkt au n) = n_kodMinPoll n"
    "n_denied (handleKiss code pkt au n) \<longleftrightarrow> n_denied n \<or> code \<in> {''DENY'', ''RSTR''} \<and> au"
proof -
  define m where "m code = updateInfo (\<lambda>i. i\<lparr>si_Kiss := si_Kiss i + 1,
    si_LastError := ExchangeError (Kiss code pkt au)\<rparr>) n" for code
  have m: "poll_ok (m code)" for code using assms by (simp add: m_def)
  have f: "n_kodMinPoll (m code) = n_kodMinPoll n" "n_denied (m code) = n_denied n" "n_cfg (m code) = n_cfg n"
    "n_poll (m code) = n_poll n" for code by (simp_all add: m_def updateInfo_def)
  note u = handleKiss_def Let_def m_def [symmetric]
  show "sint (n_kodMinPoll (handleKiss ''RATE'' pkt au n)) =
      min (backoff_cap (n_cfg n)) (max (sint (n_poll n) + 1) (sint (p_Poll pkt)))"
    unfolding u using rate_demand_value [OF m, of "''RATE''" pkt] by (simp add: slow_down_range(2) [OF m] f)
  show "n_kissedRate (handleKiss ''RATE'' pkt au n)" unfolding u by (simp add: slow_down_def Let_def)
  show "code \<noteq> ''RATE'' \<Longrightarrow> n_kodMinPoll (handleKiss code pkt au n) = n_kodMinPoll n"
    unfolding u by (simp add: f) (simp add: updateInfo_def f)
  show "n_denied (handleKiss code pkt au n) \<longleftrightarrow> n_denied n \<or> code \<in> {''DENY'', ''RSTR''} \<and> au"
    unfolding u by (auto simp: slow_down_range(5) [OF m] f updateInfo_def)
qed

lemma poll_failed_keeps:
  assumes "poll_ok n" "\<And>pkt au. e \<noteq> Kiss ''RATE'' pkt au"
  shows "n_kodMinPoll (poll_failed e n) = n_kodMinPoll n"
  using assms(2) handleKiss_demand(3) [OF assms(1)]
  by (cases e; force simp: poll_failed_def endpoint_failed_def updateInfo_def)

lemma poll_failed_polls:
  assumes "poll_ok n"
  shows "poll_ok (poll_failed e n) \<and> sint (n_kodMinPoll n) \<le> sint (n_kodMinPoll (poll_failed e n)) \<and>
    (n_denied (poll_failed e n) \<and> \<not> n_denied n \<longrightarrow> (\<exists>code pkt. e = Kiss code pkt True \<and> code \<in> {''DENY'', ''RSTR''}))"
proof (cases "\<exists>code pkt au. e = Kiss code pkt au")
  case True
  then obtain code pkt au where e: "e = Kiss code pkt au" by blast
  have "poll_failed e n = handleKiss code pkt au n" by (simp add: poll_failed_def e)
  then show ?thesis using handleKiss_polls [OF assms, of code pkt au] handleKiss_demand(4) [OF assms, of code pkt au] e by auto
next
  case False
  have c: "poll_ok (n\<lparr>n_consecutiveTimeouts := a\<rparr>)" "poll_ok (n\<lparr>n_badAuthSeen := b\<rparr>)"
    "poll_ok (n\<lparr>n_bogusSeen := b\<rparr>)" "poll_ok (n\<lparr>n_consecutiveErrs := b\<rparr>)" for a b
    using assms by (simp_all add: poll_ok_def)
  from False show ?thesis
    by (cases e; simp add: poll_failed_def endpoint_failed_def poll_ok_miss c; simp add: updateInfo_def)
qed

lemma poll_ok_floor:
  assumes "poll_ok n"
  shows "sint (nc_PollMin (n_cfg n)) \<le> sint (pollFloor n)" "sint (n_kodMinPoll n) \<le> sint (pollFloor n)"
    "sint (pollFloor n) \<le> sint (n_poll n)" "sint (pollFloor n) \<le> sint (n_effPollMax n)"
  using assms by (auto simp: pollFloor_def poll_ok_def)

lemma poll_ok_new_poll:
  assumes "poll_ok n" "sint (pollFloor n) \<le> sint w" "sint w \<le> sint (n_effPollMax n)"
  shows "poll_ok (n\<lparr>n_poll := w\<rparr>)"
  using assms poll_ok_floor [OF assms(1)] by (auto simp: poll_ok_def)

lemma discardStale_polls:
  assumes "poll_ok n"
  shows "poll_ok (discardStale n)" "n_kodMinPoll (discardStale n) = n_kodMinPoll n" "n_denied (discardStale n) = n_denied n"
  using assms by (simp_all add: discardStale_def Let_def reached_def)
    (simp_all add: poll_ok_def publish_def updateInfo_def)

lemma prepare_sel:
  "n_cfg (prepare res n) = n_cfg n" "n_kodMinPoll (prepare res n) = n_kodMinPoll n"
  "n_effPollMax (prepare res n) = n_effPollMax n" "n_denied (prepare res n) = n_denied n"
  "n_poll (prepare res n) = (if n_reach n = 0 then pollFloor n else n_poll n)"
  "n_addr (prepare res n) = n_addr n" "n_addrs (prepare res n) = n_addrs n"
  "n_addrIndex (prepare res n) = n_addrIndex n" "n_haveAddr (prepare res n) = n_haveAddr n"
  "n_precision (prepare res n) = n_precision n"
  by (simp_all add: prepare_def Let_def reached_def pollFloor_def)

lemma prepare_filter:
  "(n_filter (prepare res n), n_meta (prepare res n), n_metaNext (prepare res n)) \<in>
     {(n_filter n, n_meta n, n_metaNext n), (filter_Reset (n_filter n), n_meta n, n_metaNext n),
      (filter_Reset (n_filter n), [], 0), (filter_Reset (filter_Reset (n_filter n)), [], 0)}"
  by (simp add: prepare_def Let_def reached_def)

lemma poll_ok_prepare: "poll_ok n \<Longrightarrow> poll_ok (prepare res n)"
  using poll_ok_floor [of n] by (auto simp: poll_ok_def prepare_sel)

lemma noteMeta_sel [simp]:
  "n_cfg (noteMeta m n) = n_cfg n" "n_kodMinPoll (noteMeta m n) = n_kodMinPoll n"
  "n_effPollMax (noteMeta m n) = n_effPollMax n" "n_denied (noteMeta m n) = n_denied n"
  "n_poll (noteMeta m n) = n_poll n" "n_filter (noteMeta m n) = n_filter n"
  "n_addr (noteMeta m n) = n_addr n" "n_addrs (noteMeta m n) = n_addrs n"
  "n_addrIndex (noteMeta m n) = n_addrIndex n" "n_haveAddr (noteMeta m n) = n_haveAddr n"
  "n_precision (noteMeta m n) = n_precision n"
  by (simp_all add: noteMeta_def)

definition filed :: "exchangeResult \<Rightarrow> f64 \<Rightarrow> ntp_source \<Rightarrow> ntp_source" where
  \<comment> \<open>a source whose reply is filed but not filtered\<close>
  "filed res t n = noteMeta (meta_of t res) ((prepare res n)\<lparr>n_liveLeap := p_Leap (er_Packet res), n_liveLeapAt := t\<rparr>)"

lemma poll_ok_filed: "poll_ok n \<Longrightarrow> poll_ok (filed res t n)"
  using poll_ok_prepare [of n res] by (simp add: poll_ok_def filed_def)

lemma filed_sel:
  "n_cfg (filed res t n) = n_cfg n" "n_kodMinPoll (filed res t n) = n_kodMinPoll n" "n_denied (filed res t n) = n_denied n"
  "n_addr (filed res t n) = n_addr n" "n_addrs (filed res t n) = n_addrs n"
  "n_addrIndex (filed res t n) = n_addrIndex n" "n_haveAddr (filed res t n) = n_haveAddr n"
  "n_filter (filed res t n) = n_filter (prepare res n)"
  by (simp_all add: filed_def prepare_sel)

text \<open>What \<open>hit\<close> leaves, and the sample it returns.\<close>

lemma hit_cases:
  assumes "hit res t n = (s, n')"
  obtains flt f updated where
    "filter_Add (n_filter (filed res t n)) (er_Offset res) (er_Delay res) (sample_disp (filed res t n) res) t = (flt, f, updated)"
    "n_filter n' = flt" "n_meta n' = n_meta (filed res t n)" "n_metaNext n' = n_metaNext (filed res t n)"
    "n_addr n' = n_addr n" "n_addrs n' = n_addrs n" "n_addrIndex n' = n_addrIndex n" "n_haveAddr n' = n_haveAddr n"
    "n_cfg n' = n_cfg n" "n_kodMinPoll n' = n_kodMinPoll n" "n_denied n' = n_denied n"
    "n_effPollMax n' = n_effPollMax (filed res t n)"
    "n_poll n' = (if updated then adaptPoll (n_poll (filed res t n)) (fo_Offset f) (fo_Jitter f)
       (pollFloor (filed res t n)) (n_effPollMax (filed res t n)) else n_poll (filed res t n))"
    "s = (if updated then Some \<lparr>sa_out = res, sa_f = f, sa_meta =
       (case metaAt (fo_At f) n' of Some m \<Rightarrow> m | None \<Rightarrow> (meta_of t res)\<lparr>sm_at := fo_At f\<rparr>)\<rparr> else None)"
proof -
  note outcome = that
  obtain flt f updated where
    f: "filter_Add (n_filter (filed res t n)) (er_Offset res) (er_Delay res) (sample_disp (filed res t n) res) t = (flt, f, updated)"
    by (cases "filter_Add (n_filter (filed res t n)) (er_Offset res) (er_Delay res) (sample_disp (filed res t n) res) t")
  let ?m = "updateInfo (hit_info res f updated) ((filed res t n)\<lparr>n_filter := flt\<rparr>)"
  have h: "hit res t n = (if \<not> updated then (None, publish ?m)
      else (let k = publish (?m\<lparr>n_poll := adaptPoll (n_poll ?m) (fo_Offset f) (fo_Jitter f) (pollFloor ?m) (n_effPollMax ?m)\<rparr>);
                meta = (case metaAt (fo_At f) k of Some m \<Rightarrow> m | None \<Rightarrow> (meta_of t res)\<lparr>sm_at := fo_At f\<rparr>)
            in (Some \<lparr>sa_out = res, sa_f = f, sa_meta = meta\<rparr>, k)))"
    unfolding hit_def Let_def filed_def [symmetric] f by simp
  have fl: "pollFloor ?m = pollFloor (filed res t n)" by (simp add: pollFloor_def updateInfo_def)
  show thesis
  proof (cases updated)
    case True
    show thesis
      by (rule outcome [OF f]; use assms True in \<open>simp add: h Let_def\<close>; auto simp: publish_def updateInfo_def fl filed_sel pollFloor_def)
  next
    case False
    show thesis
      by (rule outcome [OF f]; use assms False in \<open>simp add: h Let_def\<close>; auto simp: publish_def updateInfo_def filed_sel)
  qed
qed

lemma hit_polls:
  assumes "poll_ok n" "hit res t n = (s, n')"
  shows "poll_ok n'" "n_kodMinPoll n' = n_kodMinPoll n" "n_denied n' = n_denied n"
proof -
  let ?m = "filed res t n"
  note m = poll_ok_filed [OF assms(1), of res t]
  obtain f :: filter_output and updated where
    e: "n_cfg n' = n_cfg n" "n_kodMinPoll n' = n_kodMinPoll n" "n_denied n' = n_denied n" "n_effPollMax n' = n_effPollMax ?m"
      "n_poll n' = (if updated then adaptPoll (n_poll ?m) (fo_Offset f) (fo_Jitter f) (pollFloor ?m) (n_effPollMax ?m) else n_poll ?m)"
    by (rule hit_cases [OF assms(2)]) (rule that)
  show "n_kodMinPoll n' = n_kodMinPoll n" "n_denied n' = n_denied n" by (rule e(2,3))+
  have "sint (pollFloor ?m) \<le> sint (n_poll n')" "sint (n_poll n') \<le> sint (n_effPollMax ?m)"
    using poll_ok_floor(3,4) [OF m] adaptPoll_range [OF poll_ok_floor(4) [OF m], of "n_poll ?m" "fo_Offset f" "fo_Jitter f"] m
    by (simp_all add: e(5) poll_ok_def)
  from poll_ok_new_poll [OF m this] show "poll_ok n'" by (simp add: poll_ok_def e filed_sel)
qed

section \<open>The replies behind a measurement\<close>

text \<open>A log holds the replies that were used, newest first: the address they came from, the reading of the monotonic
  clock they were filed under, and the result of the exchange.\<close>

type_synonym reply_log = "(addr_port \<times> f64 \<times> exchangeResult) list"

definition entry_time :: "addr_port \<times> f64 \<times> exchangeResult \<Rightarrow> f64" where
  "entry_time e = fst (snd e)"

definition entry_meta :: "addr_port \<times> f64 \<times> exchangeResult \<Rightarrow> stageMeta" where
  "entry_meta e = meta_of (entry_time e) (snd (snd e))"

definition entry_key :: "addr_port \<times> f64 \<times> exchangeResult \<Rightarrow> f64 \<times> f64 \<times> f64" where
  "entry_key e = (er_Offset (snd (snd e)), er_Delay (snd (snd e)), entry_time e)"

definition stage_key :: "stage \<Rightarrow> f64 \<times> f64 \<times> f64" where
  "stage_key s = (st_offset s, st_delay s, st_t s)"

definition meta_history :: "stageMeta list \<Rightarrow> nat \<Rightarrow> stageMeta list" where
  \<comment> \<open>the ring of metadata, newest first\<close>
  "meta_history ms i = rev (drop i ms @ take i ms)"

definition meta_ring :: "stageMeta list \<Rightarrow> nat \<Rightarrow> bool" where
  "meta_ring ms i \<longleftrightarrow> length ms \<le> FilterStages \<and> i < FilterStages \<and> (length ms < FilterStages \<longrightarrow> i = 0)"

definition paired :: "reply_log \<Rightarrow> ntp_source \<Rightarrow> bool" where
  \<comment> \<open>the stages of the filter and their metadata are the newest entries of the log, from the address in use\<close>
  "paired lg n \<longleftrightarrow> wf_ring (n_filter n) \<and> meta_ring (n_meta n) (n_metaNext n) \<and>
     f_n (n_filter n) \<le> length (n_meta n) \<and> length (n_meta n) \<le> length lg \<and>
     map stage_key (history (n_filter n)) = map entry_key (take (f_n (n_filter n)) lg) \<and>
     meta_history (n_meta n) (n_metaNext n) = map entry_meta (take (length (n_meta n)) lg) \<and>
     (\<forall>e \<in> set (take (length (n_meta n)) lg). fst e = n_addr n)"

lemma set_meta_history [simp]: "set (meta_history ms i) = set ms"
  by (metis Un_commute append_take_drop_id meta_history_def set_append set_rev)

lemma stage_key_simps [simp]: "stage_key (aging f now s) = stage_key s" "stage_key (clamp_stage s) = stage_key s"
  "stage_key \<lparr>st_offset = offset, st_delay = delay, st_disp = disp, st_t = t\<rparr> = (offset, delay, t)"
  by (simp_all add: stage_key_def aging_def age_by_def)

lemma length_history [simp]: "length (history f) = f_n f"
  by (simp add: history_def)

lemma history_keys_Add:
  assumes "wf_ring f"
  shows "map stage_key (history (fst (filter_Add f offset delay disp now))) =
    take FilterStages ((offset, delay, now) # map stage_key (history f))"
  unfolding history_filter_Add [OF assms]
  by (simp add: take_map comp_def)

lemma wf_ring_Add: "wf_ring f \<Longrightarrow> wf_ring (fst (filter_Add f offset delay disp now))"
  using filter_Add_ring [of f offset delay disp now]
  by (auto simp: age_stages_map wf_ring_map wf_ring_shift_in)

lemma meta_history_push:
  assumes "meta_ring (n_meta n) (n_metaNext n)"
  shows "meta_ring (n_meta (noteMeta m n)) (n_metaNext (noteMeta m n)) \<and>
    meta_history (n_meta (noteMeta m n)) (n_metaNext (noteMeta m n)) =
      take FilterStages (m # meta_history (n_meta n) (n_metaNext n))"
proof (cases "length (n_meta n) < FilterStages")
  case True
  then show ?thesis using assms by (simp add: noteMeta_def meta_ring_def meta_history_def)
next
  case False
  let ?i = "n_metaNext n" and ?xs = "n_meta n"
  have l: "length ?xs = 8" "?i < 8" using False assms by (auto simp: meta_ring_def)
  have x: "drop ?i ?xs = ?xs ! ?i # drop (Suc ?i) ?xs" using l by (simp add: Cons_nth_drop_Suc)
  have u: "?xs[?i := m] = take ?i ?xs @ m # drop (Suc ?i) ?xs" using l by (simp add: upd_conv_take_nth_drop)
  have h: "take 8 (m # meta_history ?xs ?i) = m # rev (drop (Suc ?i) ?xs @ take ?i ?xs)"
    using l unfolding meta_history_def x by simp
  have "meta_history (?xs[?i := m]) ((?i + 1) mod 8) = m # rev (drop (Suc ?i) ?xs @ take ?i ?xs)"
  proof (cases "?i = 7")
    case True
    then show ?thesis using l unfolding u by (simp add: meta_history_def)
  next
    case False
    then have i: "(?i + 1) mod 8 = Suc ?i" using l by simp
    have t: "min (length ?xs) ?i = ?i" using l by simp
    show ?thesis unfolding u i meta_history_def by (simp add: t)
  qed
  then show ?thesis using False l h by (simp add: noteMeta_def meta_ring_def)
qed

lemma length_noteMeta:
  assumes "meta_ring (n_meta n) (n_metaNext n)"
  shows "length (n_meta (noteMeta m n)) = min FilterStages (Suc (length (n_meta n)))"
  using assms by (auto simp: noteMeta_def meta_ring_def)

lemma filter_Add_best:
  assumes "wf_ring f" "filter_Add f offset delay disp now = (f', out, True)"
  shows "\<exists>s \<in> set (history f'). stage_key s = (fo_Offset out, fo_Delay out, fo_At out)"
proof -
  let ?g = "loaded f offset delay disp now"
  have w: "wf_ring (clamp_stages ?g)" using assms(1) by (simp add: age_stages_map wf_ring_map wf_ring_shift_in)
  show ?thesis
  proof (rule filter_Add_cases [OF assms(2)])
    fix r rs m d j
    assume r: "rank_stages ?g now = r # rs"
      and out: "out = \<lparr>fo_Offset = st_offset (f_stages (clamp_stages ?g) ! fst r), fo_Delay = st_delay (f_stages (clamp_stages ?g) ! fst r),
          fo_Dispersion = d, fo_Jitter = fmax (if m > 1 then fsqrt (j / f64_of_int (int m - 1)) else j) (f_floor (clamp_stages ?g)),
          fo_At = st_t (f_stages (clamp_stages ?g) ! fst r), fo_Samples = m\<rparr>"
      and f': "f' = (clamp_stages ?g)\<lparr>f_epoch := (if True then fo_At out else f_epoch ?g)\<rparr>"
    have "r \<in> set (rank_stages ?g now)" using r by simp
    then have "fst r < f_n (clamp_stages ?g)" by (auto simp: rank_stages_def)
    then have "f_stages (clamp_stages ?g) ! fst r \<in> set (history (clamp_stages ?g))" unfolding set_history [OF w] by blast
    then show ?thesis unfolding f' by (intro bexI) (simp_all add: stage_key_def out)
  qed simp
qed

lemma paired_cong: "assoc n' = assoc n \<Longrightarrow> paired lg n' = paired lg n"
  by (simp add: paired_def assoc_def)

lemma paired_reset:
  assumes "paired lg n" "(n_filter n', n_meta n', n_metaNext n') \<in>
     {(n_filter n, n_meta n, n_metaNext n), (filter_Reset (n_filter n), n_meta n, n_metaNext n),
      (filter_Reset (n_filter n), [], 0), (filter_Reset (filter_Reset (n_filter n)), [], 0)}" "n_addr n' = n_addr n"
  shows "paired lg n'"
proof -
  have r: "wf_ring (filter_Reset f)" "f_n (filter_Reset f) = 0" "history (filter_Reset f) = []" for f
    by (simp_all add: filter_Reset_def NewFilter_def wf_ring_def history_def)
  have e: "meta_ring [] 0" "meta_history [] 0 = []" by (simp_all add: meta_ring_def meta_history_def)
  consider "n_filter n' = n_filter n" "n_meta n' = n_meta n" "n_metaNext n' = n_metaNext n"
    | f where "n_filter n' = filter_Reset f" "n_meta n' = n_meta n" "n_metaNext n' = n_metaNext n"
    | f where "n_filter n' = filter_Reset f" "n_meta n' = []" "n_metaNext n' = 0"
    using assms(2) by auto
  then show ?thesis
    by cases (use assms(1,3) in \<open>simp_all add: paired_def r e\<close>)
qed

lemma paired_useAddr: "paired lg n \<Longrightarrow> paired lg (useAddr a n)"
  unfolding useAddr_def resetEndpointState_def updateInfo_def
  by (simp add: paired_def meta_ring_def meta_history_def filter_Reset_def NewFilter_def wf_ring_def history_def)

lemma paired_hit:
  assumes "paired lg n" "hit res t n = (s, n')"
  shows "paired ((n_addr n, t, res) # lg) n'"
proof -
  let ?p = "prepare res n"
  have p: "paired lg ?p" by (rule paired_reset [OF assms(1) prepare_filter prepare_sel(6)])
  define q where "q = ?p\<lparr>n_liveLeap := p_Leap (er_Packet res), n_liveLeapAt := t\<rparr>"
  have q: "n_meta q = n_meta ?p" "n_metaNext q = n_metaNext ?p" by (simp_all add: q_def)
  have m: "n_meta (filed res t n) = n_meta (noteMeta (meta_of t res) q)"
    "n_metaNext (filed res t n) = n_metaNext (noteMeta (meta_of t res) q)" by (simp_all add: filed_def q_def)
  have ring: "meta_ring (n_meta q) (n_metaNext q)" using p unfolding q by (simp add: paired_def)
  note push = meta_history_push [OF ring, of "meta_of t res"] and len = length_noteMeta [OF ring, of "meta_of t res"]
  obtain flt f updated where
    fa: "filter_Add (n_filter (filed res t n)) (er_Offset res) (er_Delay res) (sample_disp (filed res t n) res) t = (flt, f, updated)"
    and n': "n_filter n' = flt" "n_meta n' = n_meta (filed res t n)" "n_metaNext n' = n_metaNext (filed res t n)" "n_addr n' = n_addr n"
    by (rule hit_cases [OF assms(2)])
  have w: "wf_ring (n_filter ?p)" using p by (simp add: paired_def)
  have flt: "flt = fst (filter_Add (n_filter ?p) (er_Offset res) (er_Delay res) (sample_disp (filed res t n) res) t)"
    using fa by (simp add: filed_sel)
  have keys: "map stage_key (history flt) = take 8 ((er_Offset res, er_Delay res, t) # map stage_key (history (n_filter ?p)))"
    unfolding flt by (rule history_keys_Add [OF w])
  then have "length (map stage_key (history flt)) = length (take 8 ((er_Offset res, er_Delay res, t) # map stage_key (history (n_filter ?p))))"
    by (rule arg_cong)
  then have fn: "f_n flt = min 8 (Suc (f_n (n_filter ?p)))" by simp
  let ?e = "(n_addr n, t, res)"
  have e: "entry_key ?e = (er_Offset res, er_Delay res, t)" "entry_meta ?e = meta_of t res"
    by (simp_all add: entry_key_def entry_meta_def entry_time_def)
  have tk: "take 8 (x # take k xs) = take (min 8 (Suc k)) (x # xs)" for k and x :: 'z and xs
    by (simp add: take_Cons' min_def)
  have l: "length (n_meta n') = min 8 (Suc (length (n_meta ?p)))" using len by (simp add: n' m q)
  have "map stage_key (history flt) = map entry_key (take (f_n flt) (?e # lg))"
    using p unfolding keys fn paired_def
    by (simp only: tk [symmetric] take_map [symmetric] list.map e)
  moreover have "meta_history (n_meta n') (n_metaNext n') = map entry_meta (take (length (n_meta n')) (?e # lg))"
    using p push unfolding n' m l [unfolded n' m] paired_def q
    by (simp only: tk [symmetric] take_map [symmetric] list.map e)
  moreover have "\<forall>e \<in> set (take (length (n_meta n')) (?e # lg)). fst e = n_addr n'"
  proof
    fix x assume "x \<in> set (take (length (n_meta n')) (?e # lg))"
    then have "x \<in> set (take (Suc (length (n_meta ?p))) (?e # lg))"
      unfolding l by (meson min.cobounded2 set_take_subset_set_take subsetD)
    then have "x = ?e \<or> x \<in> set (take (length (n_meta ?p)) lg)" by simp
    then show "fst x = n_addr n'" using p n'(4) prepare_sel(6) [of res n] unfolding paired_def by auto
  qed
  moreover have "wf_ring flt" unfolding flt by (rule wf_ring_Add [OF w])
  moreover have "meta_ring (n_meta n') (n_metaNext n')" using push unfolding n' m by blast
  moreover have "f_n flt \<le> length (n_meta n')" "length (n_meta n') \<le> length (?e # lg)"
    using p unfolding l fn paired_def by auto
  ultimately show ?thesis unfolding paired_def n'(1) by blast
qed

end
