(* ===== verification/Client_Correct.thy ===== *)
theory Client_Correct
  imports NTP_Client
begin

text \<open>
  Runs of an NTP client source: \<open>client_run\<close> composes the operations of \<open>NTP_Client\<close> in any order, with the log
  of the replies that were used. What holds in every run is proved once per operation through the locale
  \<open>source_invariant\<close>, which is interpreted on the bounds of the poll exponents, on the addresses and on the pairing of samples
  with what the server said of itself.
\<close>

section \<open>Addresses\<close>

definition addr_ok :: "ntp_source \<Rightarrow> bool" where
  "addr_ok n \<longleftrightarrow> (\<not> n_haveAddr n \<longrightarrow> n_addrs n = [] \<and> n_addrIndex n = 0) \<and>
     (2 \<le> length (n_addrs n) \<longrightarrow> n_addrIndex n < length (n_addrs n) \<and> n_addrs n ! n_addrIndex n = n_addr n)"

lemma useAddr_sel [simp]:
  "n_addr (useAddr a n) = a" "n_haveAddr (useAddr a n)" "n_addrs (useAddr a n) = n_addrs n"
  "n_addrIndex (useAddr a n) = n_addrIndex n" "n_cfg (useAddr a n) = n_cfg n"
  by (simp_all add: useAddr_def resetEndpointState_def updateInfo_def)

lemma index_of_Some: "index_of x xs = Some i \<Longrightarrow> i < length xs \<and> xs ! i = x"
  by (induction xs arbitrary: i) (auto split: if_splits)

lemma index_of_None: "index_of x xs = None \<longleftrightarrow> x \<notin> set xs"
  by (induction xs) auto

lemma setAddrs_sel [simp]:
  "n_addrs (setAddrs as n) = as" "n_haveAddr (setAddrs as n)" "n_cfg (setAddrs as n) = n_cfg n"
  by (simp_all add: setAddrs_def Let_def split: option.split)

lemma rotateAddr_sel [simp]:
  "n_addrs (rotateAddr n) = n_addrs n" "n_cfg (rotateAddr n) = n_cfg n" "n_haveAddr n \<Longrightarrow> n_haveAddr (rotateAddr n)"
  by (simp_all add: rotateAddr_def Let_def)

lemma addr_ok_rotate: "n_haveAddr n \<Longrightarrow> addr_ok (rotateAddr n)"
  by (auto simp: rotateAddr_def addr_ok_def Let_def intro!: mod_less_divisor)

lemma addr_ok_cong: "assoc n' = assoc n \<Longrightarrow> addr_ok n' = addr_ok n"
  by (simp add: assoc_def addr_ok_def)

lemma resolve_not_Nil: "resolve literal answers port = Some as \<Longrightarrow> as \<noteq> []"
  by (auto simp: resolve_def split: option.splits if_splits)

text \<open>The steps of \<open>ensureResolved\<close>, for an invariant that the bookkeeping around them does not see.\<close>

lemma assoc_resolving [simp]: "assoc (n\<lparr>n_resolveFailing := b\<rparr>) = assoc n"
  by (simp add: assoc_def)

lemma ensureResolved_cases:
  assumes "ensureResolved answers cancelled n = (ok, n')"
  obtains (same) "n' = n" "cancelled \<or> n_haveAddr n \<and> n_consecutiveTimeouts n < 8"
  | (failed) n1 where "assoc n1 = assoc n" "n_cfg n1 = n_cfg n" "n_poll n1 = n_poll n" "n_kodMinPoll n1 = n_kodMinPoll n"
      "n_effPollMax n1 = n_effPollMax n" "n_denied n1 = n_denied n"
      "ok = n_haveAddr n'" "n' = (if n_haveAddr n then rotateAddr n1 else n1)"
      "n_haveAddr n \<Longrightarrow> 8 \<le> n_consecutiveTimeouts n"
  | (resolved) n1 as where "assoc n1 = assoc n" "n_cfg n1 = n_cfg n" "n_poll n1 = n_poll n" "n_kodMinPoll n1 = n_kodMinPoll n"
      "n_effPollMax n1 = n_effPollMax n" "n_denied n1 = n_denied n" "as \<noteq> []" "ok"
      "n' = updateInfo (\<lambda>i. i\<lparr>si_Resolved := n_addr (if n_haveAddr n then rotateAddr (setAddrs as n1) else setAddrs as n1)\<rparr>)
        ((if n_haveAddr n then rotateAddr (setAddrs as n1) else setAddrs as n1)\<lparr>n_consecutiveTimeouts := 0\<rparr>)"
      "n_haveAddr n \<Longrightarrow> 8 \<le> n_consecutiveTimeouts n"
proof -
  note outcome = that
  show thesis
  proof (cases "n_haveAddr n \<and> n_consecutiveTimeouts n < 8")
    case True
    then show thesis using assms by (intro outcome(1)) (simp_all add: ensureResolved_def)
  next
    case False
    then have e: "(n_haveAddr n \<and> 8 \<le> n_consecutiveTimeouts n) = n_haveAddr n" by auto
    show thesis
    proof (cases "resolve (nc_literal (n_cfg n)) answers (nc_Port (n_cfg n))")
      case None
      show thesis
      proof (cases cancelled)
        case True
        then show thesis using assms False None by (intro outcome(1)) (simp_all add: ensureResolved_def e)
      next
        case c: False
        let ?n1 = "updateInfo (\<lambda>i. i\<lparr>si_LastError := LookupError\<rparr>) (n\<lparr>n_resolveFailing := True\<rparr>)"
        have "(ok, n') = (n_haveAddr (if n_haveAddr n then rotateAddr ?n1 else ?n1), if n_haveAddr n then rotateAddr ?n1 else ?n1)"
          using assms False c None unfolding ensureResolved_def if_not_P [OF False] Let_def e by auto
        then show thesis using False by (intro outcome(2) [of ?n1]) (auto simp: updateInfo_def assoc_def)
      qed
    next
      case (Some as)
      let ?n1 = "n\<lparr>n_resolveFailing := False\<rparr>"
      let ?m = "if n_haveAddr n then rotateAddr (setAddrs as ?n1) else setAddrs as ?n1"
      have "(ok, n') = (True, updateInfo (\<lambda>i. i\<lparr>si_Resolved := n_addr ?m\<rparr>) (?m\<lparr>n_consecutiveTimeouts := 0\<rparr>))"
        using assms False Some unfolding ensureResolved_def if_not_P [OF False] Let_def e by simp
      then show thesis using False resolve_not_Nil [OF Some]
        by (intro outcome(3) [of ?n1 as]) auto
    qed
  qed
qed

lemma addr_ok_ensureResolved:
  assumes "addr_ok n" "ensureResolved answers cancelled n = (ok, n')"
  shows "addr_ok n'"
  using assms(2)
proof (cases rule: ensureResolved_cases)
  case (failed n1)
  have "n_haveAddr n1 = n_haveAddr n" using failed(1) by (simp add: assoc_def)
  then show ?thesis
    using addr_ok_rotate [of n1] addr_ok_cong [OF failed(1)] assms(1) unfolding failed(8) by simp
next
  case (resolved n1 as)
  let ?m = "if n_haveAddr n then rotateAddr (setAddrs as n1) else setAddrs as n1"
  have "addr_ok ?m"
  proof (cases "n_haveAddr n")
    case True
    then show ?thesis using addr_ok_rotate [of "setAddrs as n1"] by simp
  next
    case False
    then have "\<not> n_haveAddr n1" "n_addrIndex n1 = 0" using assms(1) resolved(1) by (auto simp: addr_ok_def assoc_def)
    then show ?thesis using False resolved(7) by (auto simp: addr_ok_def setAddrs_def Let_def)
  qed
  then show ?thesis unfolding resolved(9) by (rule addr_ok_cong [THEN iffD2, rotated]) simp
qed (use assms in simp)

lemma poll_ok_useAddr: "poll_ok n \<Longrightarrow> poll_ok (useAddr a n)"
  by (auto simp: poll_ok_def useAddr_def resetEndpointState_def updateInfo_def client_config_ok_def backoff_cap_def)

lemma poll_ok_setAddrs: "poll_ok n \<Longrightarrow> poll_ok (setAddrs as n)"
  using poll_ok_useAddr [of "n\<lparr>n_addrs := as\<rparr>" "as ! 0"]
  by (auto simp: setAddrs_def Let_def split: option.split) (simp_all add: poll_ok_def)

lemma poll_ok_rotateAddr: "poll_ok n \<Longrightarrow> poll_ok (rotateAddr n)"
  using poll_ok_useAddr [of "n\<lparr>n_addrIndex := i\<rparr>" for i]
  by (auto simp: rotateAddr_def Let_def) (simp add: poll_ok_def)

lemma paired_setAddrs: "paired lg n \<Longrightarrow> paired lg (setAddrs as n)"
  using paired_useAddr [of lg "n\<lparr>n_addrs := as\<rparr>" "as ! 0"]
  by (auto simp: setAddrs_def Let_def split: option.split) (simp_all add: paired_def)

lemma paired_rotateAddr: "paired lg n \<Longrightarrow> paired lg (rotateAddr n)"
  using paired_useAddr [of lg "n\<lparr>n_addrIndex := i\<rparr>" for i]
  by (auto simp: rotateAddr_def Let_def) (simp add: paired_def)

lemma poll_ok_ensureResolved:
  assumes "poll_ok n" "ensureResolved answers cancelled n = (ok, n')"
  shows "poll_ok n'"
  using assms(2)
proof (cases rule: ensureResolved_cases)
  case (failed n1)
  have "poll_ok n1" using assms(1) by (simp add: poll_ok_def failed)
  then show ?thesis using poll_ok_rotateAddr [of n1] by (simp add: failed(8))
next
  case (resolved n1 as)
  have 1: "poll_ok n1" using assms(1) by (simp add: poll_ok_def resolved)
  have c: "poll_ok (m\<lparr>n_consecutiveTimeouts := x\<rparr>) = poll_ok m" for m x by (simp add: poll_ok_def)
  show ?thesis using poll_ok_setAddrs [OF 1, of as] poll_ok_rotateAddr [OF poll_ok_setAddrs [OF 1, of as]]
    unfolding resolved(9) poll_ok_updateInfo c by simp
qed (use assms in simp)

lemma paired_ensureResolved:
  assumes "paired lg n" "ensureResolved answers cancelled n = (ok, n')"
  shows "paired lg n'"
  using assms(2)
proof (cases rule: ensureResolved_cases)
  case (failed n1)
  have "paired lg n1" using assms(1) paired_cong [OF failed(1)] by blast
  then show ?thesis using paired_rotateAddr [of lg n1] by (simp add: failed(8))
next
  case (resolved n1 as)
  have 1: "paired lg n1" using assms(1) paired_cong [OF resolved(1)] by blast
  let ?m = "if n_haveAddr n then rotateAddr (setAddrs as n1) else setAddrs as n1"
  have "paired lg ?m" using paired_setAddrs [OF 1, of as] paired_rotateAddr [OF paired_setAddrs [OF 1, of as]] by simp
  then show ?thesis unfolding resolved(9) by (rule paired_cong [THEN iffD2, rotated]) simp
qed (use assms in simp)

section \<open>Polls\<close>

definition started :: "poll_env \<Rightarrow> exchangeResult \<Rightarrow> ntp_source \<Rightarrow> ntp_source" where
  \<comment> \<open>the source when the outcome of its exchange is examined\<close>
  "started env res n =
     (let n = n\<lparr>n_resetRequested := (n_resetRequested n \<or> pe_reset env)\<rparr>
      in if er_Sent res then updateInfo (\<lambda>i. i\<lparr>si_Sent := si_Sent i + 1\<rparr>) n else n)"

definition used :: "poll_env \<Rightarrow> ntp_source \<Rightarrow> reply_log" where
  \<comment> \<open>the reply a poll files, if any\<close>
  "used env n =
     (case exchange (poll_params n) (pe_exchange env) of
        Some (res, None) \<Rightarrow>
          if usable_epoch (generation n (pe_gen env)) (generation n (pe_gen_after env))
          then [(n_addr n, pe_mono env, res)] else []
      | _ \<Rightarrow> [])"

lemma started_sel [simp]:
  "assoc (started env res n) = assoc n" "n_cfg (started env res n) = n_cfg n" "poll_ok (started env res n) = poll_ok n"
  "n_kodMinPoll (started env res n) = n_kodMinPoll n" "n_denied (started env res n) = n_denied n"
  "generation (started env res n) = generation n" "n_addr (started env res n) = n_addr n" "n_poll (started env res n) = n_poll n"
proof -
  have p: "poll_ok (n\<lparr>n_resetRequested := b\<rparr>) = poll_ok n" for b by (simp add: poll_ok_def)
  show "assoc (started env res n) = assoc n" "n_cfg (started env res n) = n_cfg n" "poll_ok (started env res n) = poll_ok n"
    "n_kodMinPoll (started env res n) = n_kodMinPoll n" "n_denied (started env res n) = n_denied n"
    "generation (started env res n) = generation n" "n_addr (started env res n) = n_addr n" "n_poll (started env res n) = n_poll n"
    by (simp_all add: started_def Let_def p) (simp_all add: updateInfo_def generation_def fun_eq_iff)
qed

lemma pollOnce_cases:
  assumes "pollOnce env n = Some (m, n')"
  obtains (failed) res e where "exchange (poll_params n) (pe_exchange env) = Some (res, Some e)" "used env n = []"
      "n' = started env res n \<or> n' = poll_failed e (started env res n)" "\<And>x. m = Some x \<Longrightarrow> \<not> me_Valid x"
  | (stale) res where "used env n = []" "n' = discardStale (started env res n)" "\<And>x. m = Some x \<Longrightarrow> \<not> me_Valid x"
  | (hit) res s where "exchange (poll_params n) (pe_exchange env) = Some (res, None)"
      "usable_epoch (generation n (pe_gen env)) (generation n (pe_gen_after env))"
      "used env n = [(n_addr n, pe_mono env, res)]" "hit res (pe_mono env) (started env res n) = (s, n')"
      "\<And>x. m = Some x \<Longrightarrow> me_Valid x \<Longrightarrow> \<exists>sa. s = Some sa \<and>
         x = emitted (Some sa) (generation n (pe_gen env)) True (pe_mono_emit env) n'"
proof -
  note outcome = that
  have inv: "\<not> me_Valid x" if "emit None g a t d k = Some x" for g a t d k x
    using that by (auto simp: emit_def emitted_def zero_measurement_def Let_def split: if_splits)
  obtain res err where x: "exchange (poll_params n) (pe_exchange env) = Some (res, err)"
    using assms by (auto simp: pollOnce_def split: option.splits)
  show thesis
  proof (cases err)
    case (Some e)
    show thesis
      by (rule outcome(1) [of res e]; use assms inv in
        \<open>auto simp: pollOnce_def Let_def x Some used_def started_def [unfolded Let_def, symmetric] split: if_splits\<close>)
  next
    case None
    show thesis
    proof (cases "usable_epoch (generation n (pe_gen env)) (generation n (pe_gen_after env))")
      case False
      show thesis
        by (rule outcome(2) [of res]; use assms inv False in
          \<open>auto simp: pollOnce_def Let_def x None used_def started_def [unfolded Let_def, symmetric] split: if_splits\<close>)
    next
      case True
      obtain s k where h: "hit res (pe_mono env) (started env res n) = (s, k)" by force
      have "pollOnce env n = (case s of
          None \<Rightarrow> Some (emit None (generation k (pe_gen_emit env)) True (pe_mono_emit env) (pe_delivered env) k, k)
        | Some sa \<Rightarrow> Some (emit (Some sa) (generation n (pe_gen env)) True (pe_mono_emit env) (pe_delivered env) k, k))"
        using True unfolding pollOnce_def Let_def x None option.case prod.case started_def [unfolded Let_def, symmetric]
        by (simp add: h split: option.split)
      then have "k = n'" and m: "m = Some y \<Longrightarrow> me_Valid y \<Longrightarrow> \<exists>sa. s = Some sa \<and>
          y = emitted (Some sa) (generation n (pe_gen env)) True (pe_mono_emit env) n'" for y
        using assms inv by (auto simp: emit_def split: option.splits if_splits)
      then show thesis using h True x None by (intro outcome(3) [of res s]) (auto simp: used_def)
    qed
  qed
qed

lemma pollOnce_returns:
  assumes "exchange (poll_params n) (pe_exchange env) \<noteq> None"
  shows "\<exists>m n'. pollOnce env n = Some (m, n')"
proof -
  obtain res err where x: "exchange (poll_params n) (pe_exchange env) = Some (res, err)" using assms by force
  have "pollOnce env n \<noteq> None"
    unfolding pollOnce_def Let_def x option.case prod.case by (simp split: option.split prod.split)
  then show ?thesis by force
qed

lemma poll_ok_pollOnce:
  assumes "poll_ok n" "pollOnce env n = Some (m, n')"
  shows "poll_ok n'" "sint (n_kodMinPoll n) \<le> sint (n_kodMinPoll n')"
    "n_denied n' \<Longrightarrow> \<not> n_denied n \<Longrightarrow>
      \<exists>res code pkt. exchange (poll_params n) (pe_exchange env) = Some (res, Some (Kiss code pkt True)) \<and>
        code \<in> {''DENY'', ''RSTR''}"
proof -
  have s: "poll_ok (started env res n)" for res using assms(1) by simp
  have "poll_ok n' \<and> sint (n_kodMinPoll n) \<le> sint (n_kodMinPoll n') \<and> (n_denied n' \<and> \<not> n_denied n \<longrightarrow>
      (\<exists>res code pkt. exchange (poll_params n) (pe_exchange env) = Some (res, Some (Kiss code pkt True)) \<and> code \<in> {''DENY'', ''RSTR''}))"
    using assms(2)
  proof (cases rule: pollOnce_cases)
    case (failed res e)
    from failed(3) show ?thesis
    proof
      assume "n' = started env res n"
      then show ?thesis using s by simp
    next
      assume e: "n' = poll_failed e (started env res n)"
      show ?thesis using poll_failed_polls [OF s, of e res] failed(1) unfolding e by auto
    qed
  next
    case (stale res)
    show ?thesis using discardStale_polls [OF s, of res] unfolding stale(2) by simp
  next
    case (hit res sa)
    show ?thesis using hit_polls [OF s hit(4)] by simp
  qed
  then show "poll_ok n'" "sint (n_kodMinPoll n) \<le> sint (n_kodMinPoll n')"
    "n_denied n' \<Longrightarrow> \<not> n_denied n \<Longrightarrow>
      \<exists>res code pkt. exchange (poll_params n) (pe_exchange env) = Some (res, Some (Kiss code pkt True)) \<and>
        code \<in> {''DENY'', ''RSTR''}"
    by blast+
qed

lemma pollOnce_kiss:
  assumes "pollOnce env n = Some (m, n')" "exchange (poll_params n) (pe_exchange env) = Some (res, Some (Kiss code pkt au))"
    "\<not> pe_cancelled env"
  shows "n' = handleKiss code pkt au (started env res n)"
  using assms by (simp add: pollOnce_def Let_def poll_failed_def started_def)

lemma pollOnce_keeps_bound:
  assumes "poll_ok n" "pollOnce env n = Some (m, n')"
    "\<And>res pkt au. exchange (poll_params n) (pe_exchange env) \<noteq> Some (res, Some (Kiss ''RATE'' pkt au))"
  shows "n_kodMinPoll n' = n_kodMinPoll n"
  using assms(2)
proof (cases rule: pollOnce_cases)
  case (failed res e)
  have "n_kodMinPoll (poll_failed e (started env res n)) = n_kodMinPoll n"
    using poll_failed_keeps [of "started env res n" e] assms(1,3) failed(1) by simp
  then show ?thesis using failed(3) by auto
next
  case (stale res)
  show ?thesis using discardStale_polls(2) [of "started env res n"] assms(1) unfolding stale(2) by simp
next
  case (hit res s)
  from hit(4) show ?thesis by (rule hit_cases) simp
qed

lemma paired_pollOnce:
  assumes "paired lg n" "pollOnce env n = Some (m, n')"
  shows "paired (used env n @ lg) n'"
  using assms(2)
proof (cases rule: pollOnce_cases)
  case (failed res e)
  have "assoc n' = assoc n" using failed(3) by (elim disjE) simp_all
  then show ?thesis using assms(1) paired_cong unfolding failed(2) append_Nil by blast
next
  case (stale res)
  have "assoc n' = assoc n" unfolding stale(2) by simp
  then show ?thesis using assms(1) paired_cong unfolding stale(1) append_Nil by blast
next
  case (hit res s)
  have "paired lg (started env res n)" using assms(1) paired_cong [of "started env res n" n] by simp
  from paired_hit [OF this hit(4)] show ?thesis unfolding hit(3) by simp
qed

lemma addr_ok_pollOnce:
  assumes "addr_ok n" "pollOnce env n = Some (m, n')"
  shows "addr_ok n'"
  using assms(2)
proof (cases rule: pollOnce_cases)
  case (failed res e)
  have "assoc n' = assoc n" using failed(3) by (elim disjE) simp_all
  then show ?thesis using assms(1) addr_ok_cong by blast
next
  case (stale res)
  have "assoc n' = assoc n" unfolding stale(2) by simp
  then show ?thesis using assms(1) addr_ok_cong by blast
next
  case (hit res s)
  have a: "assoc (started env res n) = assoc n" by simp
  have "n_addr n' = n_addr (started env res n)" "n_addrs n' = n_addrs (started env res n)"
    "n_addrIndex n' = n_addrIndex (started env res n)" "n_haveAddr n' = n_haveAddr (started env res n)"
    by (rule hit_cases [OF hit(4)]; assumption)+
  then show ?thesis using assms(1) a unfolding addr_ok_def assoc_def by simp
qed

section \<open>Runs\<close>

inductive client_run :: "reply_log \<Rightarrow> ntp_source \<Rightarrow> bool" where
  start: "NewNTP cfg clk = Inr n \<Longrightarrow> client_run [] n"
| resolve: "client_run lg n \<Longrightarrow> ensureResolved answers cancelled n = (ok, n') \<Longrightarrow> client_run lg n'"
| miss: "client_run lg n \<Longrightarrow> client_run lg (miss n)"
| burst: "client_run lg n \<Longrightarrow> client_run lg (n\<lparr>n_kissedRate := False\<rparr>)"
| reset: "client_run lg n \<Longrightarrow> client_run lg (source_Reset n)"
| poll: "client_run lg n \<Longrightarrow> pollOnce env n = Some (m, n') \<Longrightarrow> client_run (used env n @ lg) n'"

text \<open>Every round of \<open>Run\<close> is such a sequence.\<close>

lemma burst_runs:
  assumes "client_run lg n" "NTP_Client.burst env i k n = Some (ok, ms, n')"
  shows "\<exists>new. client_run (new @ lg) n'"
  using assms
proof (induction env i k n arbitrary: lg ok ms rule: NTP_Client.burst.induct)
  case (1 env i n)
  then show ?case by (auto intro: exI [of _ "[]"])
next
  case (2 env i k n)
  show ?case
  proof (cases "n_denied n \<or> n_kissedRate n \<or> (i > 0 \<and> \<not> re_burst_sleep env i)")
    case True
    then show ?thesis using 2 by (auto intro: exI [of _ "[]"] split: if_splits)
  next
    case False
    then obtain m n1 where p: "pollOnce (re_polls env i) n = Some (m, n1)"
      using 2(3) by (auto split: option.splits)
    note r = client_run.poll [OF 2(2) p]
    show ?thesis
    proof (cases m)
      case None
      then show ?thesis using 2(3) False p r by auto
    next
      case (Some x)
      obtain ok' ms' where b: "NTP_Client.burst env (i + 1) k n1 = Some (ok', ms', n')"
        using 2(3) False p Some by auto
      have "\<exists>new. client_run (new @ used (re_polls env i) n @ lg) n'"
        using 2(1) [OF _ _ p _ Some r b] False by auto
      then show ?thesis by (metis append.assoc)
    qed
  qed
qed

lemma run_round_runs:
  assumes "client_run lg n" "run_round env n = Some (a, ms, n')"
  shows "\<exists>new. client_run (new @ lg) n'"
proof (cases "n_denied n")
  case True
  then show ?thesis using assms by (auto simp: run_round_def intro: exI [of _ "[]"])
next
  case False
  note d = False
  have "round_polls env n \<noteq> None" using assms(2) d by (intro notI) (simp add: run_round_def)
  then obtain ok ms1 n2 where q: "round_polls env n = Some (ok, ms1, n2)" by (metis option.exhaust prod_cases3)
  have p: "round_polls env n = Some (ok, ms, n')"
    using assms(2) d unfolding run_round_def q by (cases ok) (simp_all add: q split: if_splits, force+)
  obtain res n1 where e: "ensureResolved (re_answers env) (re_lookup_cancelled env) n = (res, n1)" by force
  note r1 = client_run.resolve [OF assms(1) e]
  show ?thesis
  proof (cases res)
    case False
    then have "n' = n1 \<or> n' = miss n1" using p
      by (auto simp: round_polls_def e Let_def split: if_splits option.splits)
    then show ?thesis using r1 client_run.miss [OF r1] by (auto intro: exI [of _ "[]"])
  next
    case res: True
    show ?thesis
    proof (cases "nc_IBurst (n_cfg n1) \<and> n_reach n1 = 0")
      case True
      then have "NTP_Client.burst env 0 burstCount (n1\<lparr>n_kissedRate := False\<rparr>) = Some (ok, ms, n')"
        using p res unfolding round_polls_def e by (simp del: NTP_Client.burst.simps)
      from burst_runs [OF client_run.burst [OF r1] this] show ?thesis .
    next
      case False
      then obtain m where "pollOnce (re_polls env 0) n1 = Some (m, n')"
        using p res by (auto simp: round_polls_def e split: option.splits)
      from client_run.poll [OF r1 this] show ?thesis by blast
    qed
  qed
qed

text \<open>A property of source and log that every operation keeps holds in every run.\<close>

locale source_invariant =
  fixes inv :: "reply_log \<Rightarrow> ntp_source \<Rightarrow> bool"
  assumes inv_start: "NewNTP cfg clk = Inr n \<Longrightarrow> inv [] n"
    and inv_resolve: "inv lg n \<Longrightarrow> ensureResolved answers cancelled n = (ok, n') \<Longrightarrow> inv lg n'"
    and inv_miss: "inv lg n \<Longrightarrow> inv lg (miss n)"
    and inv_burst: "inv lg n \<Longrightarrow> inv lg (n\<lparr>n_kissedRate := False\<rparr>)"
    and inv_reset: "inv lg n \<Longrightarrow> inv lg (source_Reset n)"
    and inv_poll: "inv lg n \<Longrightarrow> pollOnce env n = Some (m, n') \<Longrightarrow> inv (used env n @ lg) n'"
begin

lemma always: "client_run lg n \<Longrightarrow> inv lg n"
  by (induction rule: client_run.induct) (auto intro: inv_start inv_resolve inv_miss inv_burst inv_reset inv_poll)

lemma after_round: "client_run lg n \<Longrightarrow> run_round env n = Some (a, ms, n') \<Longrightarrow> \<exists>new. inv (new @ lg) n'"
  using run_round_runs always by blast

end

lemma NewNTP_source:
  assumes "NewNTP cfg clk = Inr n"
  shows "\<exists>precision. n = new_source (with_defaults cfg) precision" "client_config_ok (with_defaults cfg)"
  using assms unfolding NewNTP_def Let_def
  by (auto simp: client_config_ok_def split: if_splits option.splits)

interpretation poll_bounds: source_invariant "\<lambda>lg. poll_ok"
proof
  fix cfg clk n
  assume "NewNTP cfg clk = Inr n"
  from NewNTP_source [OF this] show "poll_ok n"
    by (auto simp: poll_ok_def new_source_def client_config_ok_def backoff_cap_def)
next
  fix n
  assume a: "poll_ok n"
  show "poll_ok (miss n)" by (rule poll_ok_miss [OF a])
  show "poll_ok (n\<lparr>n_kissedRate := False\<rparr>)" "poll_ok (source_Reset n)" using a by (simp_all add: poll_ok_def source_Reset_def)
qed (rule poll_ok_ensureResolved poll_ok_pollOnce; assumption)+

interpretation addresses: source_invariant "\<lambda>lg. addr_ok"
proof
  fix cfg clk n
  assume "NewNTP cfg clk = Inr n"
  from NewNTP_source(1) [OF this] show "addr_ok n" by (auto simp: addr_ok_def new_source_def)
next
  fix n
  assume a: "addr_ok n"
  show "addr_ok (miss n)" using a addr_ok_cong [OF assoc_miss(1)] by blast
  show "addr_ok (n\<lparr>n_kissedRate := False\<rparr>)" "addr_ok (source_Reset n)" using a by (simp_all add: addr_ok_def source_Reset_def)
qed (rule addr_ok_ensureResolved addr_ok_pollOnce; assumption)+

interpretation pairing: source_invariant paired
proof
  fix cfg clk n
  assume "NewNTP cfg clk = Inr n"
  from NewNTP_source(1) [OF this] show "paired [] n"
    by (auto simp: paired_def new_source_def NewFilter_def wf_ring_def history_def meta_ring_def meta_history_def)
next
  fix lg n
  assume a: "paired lg n"
  show "paired lg (miss n)" using a paired_cong [OF assoc_miss(1)] by blast
  show "paired lg (n\<lparr>n_kissedRate := False\<rparr>)" "paired lg (source_Reset n)" using a by (simp_all add: paired_def source_Reset_def)
qed (rule paired_ensureResolved paired_pollOnce; assumption)+

text \<open>Every entry of the log is a successful exchange with its address, under the configured key.\<close>

definition genuine :: "reply_log \<Rightarrow> ntp_source \<Rightarrow> bool" where
  "genuine lg n \<longleftrightarrow> (\<forall>(a, t, r) \<in> set lg. \<exists>p env. xp_addr p = a \<and> xp_key p = nc_Key (n_cfg n) \<and> exchange p env = Some (r, None))"

lemma ensureResolved_cfg: "ensureResolved answers cancelled n = (ok, n') \<Longrightarrow> n_cfg n' = n_cfg n"
  by (erule ensureResolved_cases) simp_all

lemma pollOnce_cfg:
  assumes "pollOnce env n = Some (m, n')"
  shows "n_cfg n' = n_cfg n"
  using assms
proof (cases rule: pollOnce_cases)
  case (failed res e)
  from failed(3) show ?thesis by (elim disjE) simp_all
next
  case (hit res s)
  have "n_cfg n' = n_cfg (started env res n)" by (rule hit_cases [OF hit(4)])
  then show ?thesis by simp
qed simp

interpretation genuineness: source_invariant genuine
proof
  fix lg n env m n'
  assume g: "genuine lg n" and p: "pollOnce env n = Some (m, n')"
  have "genuine (used env n) n" unfolding genuine_def used_def
    by (auto simp: poll_params_def split: option.splits if_splits intro!: exI [of _ "poll_params n"])
  with g show "genuine (used env n @ lg) n'" unfolding genuine_def pollOnce_cfg [OF p] by auto
qed (simp_all add: genuine_def source_Reset_def ensureResolved_cfg)

section \<open>The interval between polls\<close>

lemma wf_scaled: "\<bar>m\<bar> < 2 ^ 53 \<Longrightarrow> k \<le> 1074 \<Longrightarrow> wf_f64 (Fin (of_int m / 2 ^ k))"
  using scaled_exact [of m k] by (metis wf_f64_of_real)

lemma f64_of_real_within:
  assumes "wf_f64 (Fin a)" "wf_f64 (Fin b)" "a \<le> x" "x \<le> b"
  shows "\<exists>y. f64_of_real x = Fin y \<and> a \<le> y \<and> y \<le> b"
  using f64_of_real_ge [OF assms(1,3)] f64_of_real_le [OF assms(2,4)] f64_between_Fin by blast

lemma pollJitter_small: "\<exists>j. pollJitter = Fin j \<and> 0 \<le> j \<and> j \<le> 1 / 16"
proof -
  have "wf_f64 (Fin (1 / 16))" using wf_scaled [of 1 4] by simp
  then show ?thesis unfolding pollJitter_def
    using f64_of_real_within [of 0 "1 / 16" "5 / 100"] by simp
qed

lemma jitter_range:
  assumes "0 \<le> x" "x < 1"
  shows "\<exists>y. Fin 1 + (Fin x * Fin 2 - Fin 1) * pollJitter = Fin y \<and> 15 / 16 \<le> y \<and> y \<le> 17 / 16"
proof -
  obtain j where j: "pollJitter = Fin j" "0 \<le> j" "j \<le> 1 / 16" using pollJitter_small by blast
  have w: "wf_f64 (Fin 2)" "wf_f64 (Fin 1)" "wf_f64 (Fin (- 1))" "wf_f64 (Fin (1 / 16))" "wf_f64 (Fin (- (1 / 16)))"
    "wf_f64 (Fin (15 / 16))" "wf_f64 (Fin (17 / 16))"
    using wf_scaled [of 2 0] wf_scaled [of 1 0] wf_scaled [of "- 1" 0] wf_scaled [of 1 4] wf_scaled [of "- 1" 4]
      wf_scaled [of 15 4] wf_scaled [of 17 4] by simp_all
  obtain a where a: "Fin x * Fin 2 = Fin a" "0 \<le> a" "a \<le> 2"
    using f64_of_real_within [of 0 2 "x * 2"] w assms by auto
  obtain b where b: "Fin a - Fin 1 = Fin b" "- 1 \<le> b" "b \<le> 1"
    using f64_of_real_within [of "- 1" 1 "a - 1"] w a by auto
  have "\<bar>b * j\<bar> \<le> 1 * (1 / 16)" unfolding abs_mult by (rule mult_mono) (use b j in auto)
  then have "- (1 / 16) \<le> b * j" "b * j \<le> 1 / 16" by linarith+
  then obtain c where c: "Fin b * Fin j = Fin c" "- (1 / 16) \<le> c" "c \<le> 1 / 16"
    using f64_of_real_within [of "- (1 / 16)" "1 / 16" "b * j"] w by auto
  have "15 / 16 \<le> 1 + c" "1 + c \<le> 17 / 16" using c by linarith+
  then obtain y where "Fin 1 + Fin c = Fin y" "15 / 16 \<le> y" "y \<le> 17 / 16"
    using f64_of_real_within [of "15 / 16" "17 / 16" "1 + c"] w by auto
  then show ?thesis unfolding a(1) j(1) b(1) c(1) by blast
qed

lemma Log2Seconds_poll:
  assumes "0 \<le> sint w" "sint w \<le> 17"
  shows "Log2Seconds w = Fin (2 ^ nat (sint w))" "(2::real) ^ nat (sint w) \<le> 131072" "(1::real) \<le> 2 ^ nat (sint w)"
proof -
  show "Log2Seconds w = Fin (2 ^ nat (sint w))"
    using assms by (simp add: Log2Seconds_def ldexp1_small power_int_def)
  have "(2::real) ^ nat (sint w) \<le> 2 ^ 17" by (rule power_increasing) (use assms in simp_all)
  then show "(2::real) ^ nat (sint w) \<le> 131072" by simp
qed simp

lemma trunc_within:
  assumes "of_int m \<le> x" "x \<le> of_int k" "0 \<le> m"
  shows "\<exists>d. f64_trunc (Fin x) = Some d \<and> m \<le> d \<and> d \<le> k"
proof -
  have "(0::real) \<le> of_int m" using assms(3) by simp
  then have "0 \<le> x" using assms(1) by linarith
  moreover have "m \<le> \<lfloor>x\<rfloor>" using assms(1) by (simp add: le_floor_iff)
  moreover have "\<lfloor>x\<rfloor> \<le> k" using assms(2) by linarith
  ultimately show ?thesis by (simp add: f64_trunc_def)
qed

lemma pollInterval_range:
  assumes "0 \<le> x" "x < 1" "2 \<le> sint w" "sint w \<le> 17" "0 \<le> sint k" "sint k \<le> sint w"
  shows "\<exists>d. pollInterval (Fin x) w k = Some d \<and> 2 ^ nat (sint w) * 937500000 \<le> d \<and> d \<le> 2 ^ nat (sint w) * 1062500000 \<and>
    (0 < sint k \<longrightarrow> 2 ^ nat (sint k) * 1000000000 \<le> d)"
proof -
  let ?P = "2 ^ nat (sint w) :: int" and ?K = "2 ^ nat (sint k) :: int"
  note lw = Log2Seconds_poll [of w] and lk = Log2Seconds_poll [of k]
  have p: "real_of_int ?P = 2 ^ nat (sint w)" "real_of_int ?K = 2 ^ nat (sint k)" by simp_all
  have P: "1 \<le> ?P" "?P \<le> 131072" "1 \<le> ?K" "?K \<le> ?P" "?K \<le> 131072"
  proof -
    have "?P \<le> 2 ^ 17" by (rule power_increasing) (use assms in simp_all)
    then show "?P \<le> 131072" by simp
    show k: "?K \<le> ?P" by (rule power_increasing) (use assms in simp_all)
    from order_trans [OF k] \<open>?P \<le> 131072\<close> show "?K \<le> 131072" .
  qed simp_all
  obtain y where y: "Fin 1 + (Fin x * Fin 2 - Fin 1) * pollJitter = Fin y" "15 / 16 \<le> y" "y \<le> 17 / 16"
    using jitter_range [OF assms(1,2)] by blast
  have w: "wf_f64 (Fin (of_int (?P * 15) / 2 ^ 4))" "wf_f64 (Fin (of_int (?P * 17) / 2 ^ 4))"
    "wf_f64 (Fin (of_int (?P * 937500000)))" "wf_f64 (Fin (of_int (?P * 1062500000)))"
    "wf_f64 (Fin (of_int (?K * 1000000000)))"
    by (rule wf_scaled wf_f64_int; use P in simp)+
  have "of_int ?P * (15 / 16) \<le> of_int ?P * y" "of_int ?P * y \<le> of_int ?P * (17 / 16)"
    by (rule mult_left_mono; use y P in simp)+
  then obtain z where z: "Fin (of_int ?P) * Fin y = Fin z" "of_int ?P * (15 / 16) \<le> z" "z \<le> of_int ?P * (17 / 16)"
    using f64_of_real_within [OF w(1,2), of "of_int ?P * y"] by auto
  have "of_int (?P * 937500000) \<le> z * 1000000000" "z * 1000000000 \<le> of_int (?P * 1062500000)"
    using z(2,3) by simp_all
  then obtain v where v: "Fin z * Fin 1000000000 = Fin v" "of_int (?P * 937500000) \<le> v" "v \<le> of_int (?P * 1062500000)"
    using f64_of_real_within [OF w(3,4), of "z * 1000000000"] by auto
  obtain d where d: "f64_trunc (Fin v) = Some d" "?P * 937500000 \<le> d" "d \<le> ?P * 1062500000"
    using trunc_within [OF v(2,3)] P by auto
  have t: "Log2Seconds w * (Fin 1 + (Fin x * Fin 2 - Fin 1) * pollJitter) * Fin 1000000000 = Fin v"
    unfolding y(1) using lw(1) assms z(1) v(1) by simp
  have "Fin (of_int ?K) * Fin 1000000000 = Fin (of_int (?K * 1000000000))"
    using f64_of_real_within [OF w(5,5), of "of_int ?K * 1000000000"] by auto
  then have f: "Log2Seconds k * Fin 1000000000 = Fin (of_int (?K * 1000000000))" using lk(1) assms by simp
  have ft: "f64_trunc (Fin (of_int (?K * 1000000000))) = Some (?K * 1000000000)"
    using trunc_within [OF order_refl order_refl, of "?K * 1000000000"] P by auto
  have le: "?K * 1000000000 \<le> ?P * 1062500000" using P by linarith
  show ?thesis
  proof (cases "0 < sint k")
    case True
    have "pollInterval (Fin x) w k = Some (if d < ?K * 1000000000 then ?K * 1000000000 else d)"
      unfolding pollInterval_def Let_def t d(1) f ft using True by simp
    then show ?thesis using d le by auto
  next
    case False
    have "pollInterval (Fin x) w k = Some d" unfolding pollInterval_def Let_def t d(1) using False by simp
    then show ?thesis using d False by auto
  qed
qed

section \<open>Properties\<close>

definition signed_denial :: "exchangeParams \<Rightarrow> exchange_env \<Rightarrow> bool" where
  \<comment> \<open>a reply to this request with stratum 0 and the code DENY or RSTR, signed with the key, is among the datagrams read\<close>
  "signed_denial p env \<longleftrightarrow> (\<exists>k nonce bs src now kt pkt mac off.
     xp_key p = Some k \<and> xe_nonce env = Some nonce \<and> Datagram bs src now kt \<in> set (xe_reads env) \<and>
     sameEndpoint src (xp_addr p) \<and> Decode (take ntp_MaxPacketSize bs) = Inr (pkt, mac, off) \<and>
     p_OriginTime pkt = get_uint64 nonce \<and> p_Mode pkt = ModeServer \<and> p_Stratum pkt = 0 \<and>
     KissCode pkt \<in> {''DENY'', ''RSTR''} \<and>
     Append k (take off (take ntp_MaxPacketSize bs)) = Some (take ntp_MaxPacketSize bs))"

lemma exchange_signed_denial:
  assumes "exchange p env = Some (out, Some (Kiss code pkt True))" "code \<in> {''DENY'', ''RSTR''}"
  shows "signed_denial p env"
proof -
  let ?err = "Some (Kiss code pkt True)"
  have "\<not> socket_failure ?err" by (auto simp: socket_failure_def)
  then obtain nonce where n: "xe_nonce env = Some nonce"
    and af: "answered_from p (request_packet p nonce) (zero_result\<lparr>er_Sent := True, er_T1 := xe_t1 env\<rparr>) (xe_reads env) out ?err"
    by (rule exchange_answered [OF assms(1)])
  from af obtain bs src now kt off res t1 where
    a: "Datagram bs src now kt \<in> set (xe_reads env)" "sameEndpoint src (xp_addr p)"
      "Decode (take ntp_MaxPacketSize bs) = Inr (er_Packet out, er_MAC out, off)"
      "p_OriginTime (er_Packet out) = p_TransmitTime (request_packet p nonce)"
    and r: "take_reply p res t1 (take ntp_MaxPacketSize bs) (er_Packet out) (er_MAC out) off = Some (out, ?err)"
    unfolding answered_from_def by blast
  note t = take_reply_kiss [OF r]
  from t(2) obtain k where k: "xp_key p = Some k" by auto
  show ?thesis unfolding signed_denial_def
    using k n a authentic_signed [OF t(1) a(3) k] t(3-5) assms(2)
    by (intro exI [of _ k] exI [of _ nonce] exI [of _ bs] exI [of _ src] exI [of _ now] exI [of _ kt]
      exI [of _ "er_Packet out"] exI [of _ "er_MAC out"] exI [of _ off]) (simp add: request_packet_def)
qed

definition sample_client_config :: ntp_config where
  "sample_client_config = \<lparr>nc_Name = [], nc_Address = ''192.0.2.1'', nc_Host = ''192.0.2.1'', nc_literal = Some (Addr4 0xC0000201),
     nc_Port = 123, nc_Key = None, nc_IBurst = True, nc_PollMin = 0, nc_PollMax = 0, nc_Timeout = 0,
     nc_NoKernelTimestamps = False, nc_Generation = True\<rparr>"

definition sample_source :: ntp_source where
  "sample_source = snd (ensureResolved None False (new_source (with_defaults sample_client_config) (- 20)))"

lemma sample_source_run: "client_run [] sample_source"
proof -
  have "NewNTP sample_client_config (Some (- 20)) = Inr (new_source (with_defaults sample_client_config) (- 20))"
    by (simp add: NewNTP_def with_defaults_def sample_client_config_def Let_def)
  then have "client_run [] (new_source (with_defaults sample_client_config) (- 20))" by (rule client_run.start)
  then show ?thesis unfolding sample_source_def by (rule client_run.resolve) (rule prod.collapse [symmetric])
qed

lemma sample_source_sel:
  "poll_params sample_source = sample_params" "n_addr sample_source = \<lparr>ap_addr = Addr4 0xC0000201, ap_port = 123\<rparr>"
  "generation sample_source g = g" "n_filter sample_source = NewFilter (Fin (1 / 1048576))" "n_reach sample_source = 0"
  "n_haveStratum sample_source = False" "n_resetRequested sample_source = False" "n_precision sample_source = - 20"
  by (simp_all add: sample_source_def ensureResolved_def new_source_def with_defaults_def sample_client_config_def Let_def
    resolve_def setAddrs_def useAddr_def resetEndpointState_def updateInfo_def poll_params_def sample_params_def
    generation_def filter_Reset_def NewFilter_def Log2Seconds_def ldexp1_small)

lemma sample_source_demand: "sint (n_poll sample_source) = 6" "sint (nc_PollMax (n_cfg sample_source)) = 10"
  by (simp_all add: sample_source_def ensureResolved_def new_source_def with_defaults_def sample_client_config_def Let_def
    resolve_def setAddrs_def useAddr_def resetEndpointState_def updateInfo_def)

definition sample_poll :: poll_env where
  "sample_poll = \<lparr>pe_gen = 2, pe_exchange = sample_exchange, pe_reset = False, pe_cancelled = False, pe_gen_after = 2,
     pe_mono = Fin 4, pe_gen_emit = 2, pe_mono_emit = Fin 5, pe_delivered = True\<rparr>"

lemma sample_used: "used sample_poll sample_source = [(\<lparr>ap_addr = Addr4 0xC0000201, ap_port = 123\<rparr>, Fin 4, sample_result)]"
  using sample_exchanged
  by (simp add: used_def sample_source_sel sample_poll_def usable_epoch_def StableEpoch_def)

definition rate_reply :: packet where
  \<comment> \<open>the server asks for one request in 1024 seconds\<close>
  "rate_reply = sample_reply\<lparr>p_Stratum := 0, p_Poll := 10, p_ReferenceID := KissRATE\<rparr>"

definition rate_exchange :: exchange_env where
  "rate_exchange = sample_exchange\<lparr>xe_reads :=
     [Datagram (Marshal rate_reply) \<lparr>ap_addr = Addr4 0xC0000201, ap_port = 123\<rparr> 750000001 (Some 750000000)]\<rparr>"

lemma rate_exchanged: "\<exists>out. exchange sample_params rate_exchange = Some (out, Some (Kiss ''RATE'' rate_reply False))"
proof -
  have d: "Decode (Marshal rate_reply) = Inr (rate_reply, None, 48)"
    using Decode_Marshal_plain [of rate_reply] by (simp add: rate_reply_def sample_reply_def)
  have n: "get_uint64 [1, 2, 3, 4, 5, 6, 7, 8] = 0x0102030405060708"
    by (simp add: get_uint64_def be_nat_def)
  have m: "p_Mode rate_reply = ModeServer" "p_OriginTime rate_reply = 0x0102030405060708"
    by (simp_all add: rate_reply_def sample_reply_def)
  have k: "IsKiss rate_reply" "KissCode rate_reply = ''RATE''"
    by (simp add: rate_reply_def IsKiss_def) (simp add: rate_reply_def IsKiss_def KissCode_def, code_simp)
  show ?thesis
    by (simp add: exchange_def rate_exchange_def sample_exchange_def sample_params_def Let_def request_bytes_def
      request_packet_def dial_addr_def sameEndpoint_def d n m take_reply_def authentic_def check_reply_def k)
qed

text \<open>C17: In every run every poll returns, and a server's demands are honoured within the client's bounds. The poll
  exponent stays between the configured minimum and the larger of the configured maximum and 13. A reply with the
  code RATE that is not lost to a shutdown ends the burst and sets a lower bound: the larger of the next exponent
  and the one the reply names, at most the larger of the configured maximum and 13; no other poll moves that bound,
  which never falls while the address is kept. The sleep before the next request is within a sixteenth of the
  interval and never shorter than the bound. A reply with the code DENY or RSTR stops polling if it is authenticated, polling
  stops for no other reason than such a reply signed with the key, and a stopped client sends no further request.
  The random number of the sleep is at least 0 and below 1, as the generator returns it.\<close>
theorem client_poll_bounds:
  assumes "client_run lg n" and "0 \<le> r" and "r < 1"
  shows "\<exists>m n' d. pollOnce env n = Some (m, n') \<and> pollInterval (Fin r) (n_poll n') (n_kodMinPoll n') = Some d \<and>
    sint (nc_PollMin (n_cfg n)) \<le> sint (n_poll n') \<and> sint (n_poll n') \<le> max 13 (sint (nc_PollMax (n_cfg n))) \<and>
    sint (n_kodMinPoll n) \<le> sint (n_kodMinPoll n') \<and> sint (n_kodMinPoll n') \<le> sint (n_poll n') \<and>
    2 ^ nat (sint (n_poll n')) * 937500000 \<le> d \<and> d \<le> 2 ^ nat (sint (n_poll n')) * 1062500000 \<and>
    (0 < sint (n_kodMinPoll n') \<longrightarrow> 2 ^ nat (sint (n_kodMinPoll n')) * 1000000000 \<le> d) \<and>
    (\<forall>out pkt au. exchange (poll_params n) (pe_exchange env) = Some (out, Some (Kiss ''RATE'' pkt au)) \<and> \<not> pe_cancelled env \<longrightarrow>
      n_kissedRate n' \<and> sint (n_kodMinPoll n') =
        min (max 13 (sint (nc_PollMax (n_cfg n)))) (max (sint (n_poll n) + 1) (sint (p_Poll pkt)))) \<and>
    ((\<nexists>out pkt au. exchange (poll_params n) (pe_exchange env) = Some (out, Some (Kiss ''RATE'' pkt au))) \<longrightarrow>
      n_kodMinPoll n' = n_kodMinPoll n) \<and>
    (\<forall>out code pkt. exchange (poll_params n) (pe_exchange env) = Some (out, Some (Kiss code pkt True)) \<and>
      code \<in> {''DENY'', ''RSTR''} \<and> \<not> pe_cancelled env \<longrightarrow> n_denied n') \<and>
    (n_denied n' \<and> \<not> n_denied n \<longrightarrow> signed_denial (poll_params n) (pe_exchange env)) \<and>
    (n_denied n' \<longrightarrow> run_round renv n' = Some (Stopped, [], n'))"
proof -
  have ok: "poll_ok n" by (rule poll_bounds.always [OF assms(1)])
  have "exchange (poll_params n) (pe_exchange env) \<noteq> None"
    using ok by (intro exchange_total) (simp add: poll_params_def poll_ok_def client_config_ok_def)
  then obtain m n' where p: "pollOnce env n = Some (m, n')" using pollOnce_returns by fast
  note ok' = poll_ok_pollOnce [OF ok p]
  have c: "n_cfg n' = n_cfg n" by (rule pollOnce_cfg [OF p])
  have b: "sint (nc_PollMin (n_cfg n)) \<le> sint (n_poll n')" "sint (n_poll n') \<le> max 13 (sint (nc_PollMax (n_cfg n)))"
    "0 \<le> sint (n_kodMinPoll n')" "sint (n_kodMinPoll n') \<le> sint (n_poll n')"
    using ok'(1) unfolding poll_ok_def c backoff_cap_def by linarith+
  obtain d where d: "pollInterval (Fin r) (n_poll n') (n_kodMinPoll n') = Some d"
    "2 ^ nat (sint (n_poll n')) * 937500000 \<le> d" "d \<le> 2 ^ nat (sint (n_poll n')) * 1062500000"
    "0 < sint (n_kodMinPoll n') \<longrightarrow> 2 ^ nat (sint (n_kodMinPoll n')) * 1000000000 \<le> d"
    using pollInterval_range [OF assms(2,3) poll_ok_small(2,1) [OF ok'(1)] b(3,4)] by blast
  have s: "poll_ok (started env out n)" for out using ok by simp
  have rate: "n_kissedRate n' \<and> sint (n_kodMinPoll n') =
      min (max 13 (sint (nc_PollMax (n_cfg n)))) (max (sint (n_poll n) + 1) (sint (p_Poll pkt)))"
    if "exchange (poll_params n) (pe_exchange env) = Some (out, Some (Kiss ''RATE'' pkt au))" "\<not> pe_cancelled env" for out pkt au
    using handleKiss_demand(1,2) [OF s [of out], of pkt au] by (simp add: pollOnce_kiss [OF p that] backoff_cap_def)
  have deny: "n_denied n'" if "exchange (poll_params n) (pe_exchange env) = Some (out, Some (Kiss code pkt True))"
    "\<not> pe_cancelled env" "code \<in> {''DENY'', ''RSTR''}" for out code pkt
    using handleKiss_demand(4) [OF s [of out], of code pkt True] that(3) by (simp add: pollOnce_kiss [OF p that(1,2)])
  have denied: "n_denied n' \<and> \<not> n_denied n \<longrightarrow> signed_denial (poll_params n) (pe_exchange env)"
    using ok'(3) exchange_signed_denial by blast
  have "n_denied n' \<longrightarrow> run_round renv n' = Some (Stopped, [], n')" by (simp add: run_round_def)
  then show ?thesis using p b(1,2,4) ok'(2) d rate deny denied pollOnce_keeps_bound [OF ok p]
    by (intro exI [of _ m] exI [of _ n'] exI [of _ d] conjI) blast+
qed

theorem client_poll_bounds_witness:
  "\<exists>m n' d. pollOnce (sample_poll\<lparr>pe_exchange := rate_exchange\<rparr>) sample_source = Some (m, n') \<and>
    pollInterval (Fin (1 / 2)) (n_poll n') (n_kodMinPoll n') = Some d \<and> n_kissedRate n' \<and> sint (n_kodMinPoll n') = 10 \<and>
    1024000000000 \<le> d"
proof -
  let ?env = "sample_poll\<lparr>pe_exchange := rate_exchange\<rparr>"
  obtain out where x: "exchange (poll_params sample_source) (pe_exchange ?env) = Some (out, Some (Kiss ''RATE'' rate_reply False))"
    using rate_exchanged by (auto simp: sample_source_sel)
  have c: "\<not> pe_cancelled ?env" by (simp add: sample_poll_def)
  have v: "min (max 13 (sint (nc_PollMax (n_cfg sample_source)))) (max (sint (n_poll sample_source) + 1) (sint (p_Poll rate_reply))) = 10"
    by (simp add: sample_source_demand rate_reply_def)
  show ?thesis using client_poll_bounds [OF sample_source_run, of "1 / 2" ?env] x c v by fastforce
qed

lemma metaAt_paired:
  assumes "paired lg n" "e \<in> set (take (length (n_meta n)) lg)" "distinct (map entry_time lg)"
    "\<forall>e \<in> set lg. entry_time e \<noteq> NaN"
  shows "metaAt (entry_time e) n = Some (entry_meta e)"
proof -
  let ?k = "length (n_meta n)"
  have s: "set (n_meta n) = entry_meta ` set (take ?k lg)"
    using assms(1) set_meta_history [of "n_meta n" "n_metaNext n"] by (simp add: paired_def)
  have eq: "feq (entry_time x) (entry_time e) \<longleftrightarrow> x = e" if "x \<in> set (take ?k lg)" for x
  proof -
    have "x \<in> set lg" "e \<in> set lg" using that assms(2) by (auto dest: in_set_takeD)
    moreover have "feq a b \<longleftrightarrow> a = b" if "a \<noteq> NaN" for a b using that by (cases a; cases b) (simp_all add: feq_def)
    ultimately show ?thesis using assms(3,4) by (auto simp: distinct_map inj_on_def)
  qed
  have t: "sm_at (entry_meta x) = entry_time x" for x by (simp add: entry_meta_def meta_of_def Let_def)
  have "find (\<lambda>m. feq (sm_at m) (entry_time e)) (n_meta n) \<noteq> None"
    using assms(2) eq s t by (auto simp: find_None_iff)
  then obtain m where m: "find (\<lambda>m. feq (sm_at m) (entry_time e)) (n_meta n) = Some m" by blast
  then have "m \<in> set (n_meta n)" "feq (sm_at m) (entry_time e)" by (auto simp: find_Some_iff)
  then have "m = entry_meta e" using s eq t by auto
  then show ?thesis using m by (simp add: metaAt_def)
qed

text \<open>The sample \<open>hit\<close> returns is an entry of the log, offset and metadata alike.\<close>

lemma hit_sample_logged:
  assumes "paired lg n" "hit res t n = (Some sa, n')" "L = (n_addr n, t, res) # lg"
    "distinct (map entry_time L)" "\<forall>e \<in> set L. entry_time e \<noteq> NaN"
  shows "\<exists>r. (n_addr n', fo_At (sa_f sa), r) \<in> set L \<and> fo_Offset (sa_f sa) = er_Offset r \<and>
    fo_Delay (sa_f sa) = er_Delay r \<and> sa_meta sa = meta_of (fo_At (sa_f sa)) r"
proof -
  have pr: "paired L n'" unfolding assms(3) by (rule paired_hit [OF assms(1,2)])
  obtain flt f updated where
    fa: "filter_Add (n_filter (filed res t n)) (er_Offset res) (er_Delay res) (sample_disp (filed res t n) res) t = (flt, f, updated)"
    and flt: "n_filter n' = flt"
    and s: "Some sa = (if updated then Some \<lparr>sa_out = res, sa_f = f, sa_meta =
       (case metaAt (fo_At f) n' of Some m \<Rightarrow> m | None \<Rightarrow> (meta_of t res)\<lparr>sm_at := fo_At f\<rparr>)\<rparr> else None)"
    by (rule hit_cases [OF assms(2)])
  have up: "updated" and sf: "sa_f sa = f" using s by (auto split: if_splits)
  have w: "wf_ring (n_filter (filed res t n))"
    using paired_reset [OF assms(1) prepare_filter prepare_sel(6)] by (simp add: paired_def filed_sel)
  obtain st where st: "st \<in> set (history flt)" "stage_key st = (fo_Offset f, fo_Delay f, fo_At f)"
    using filter_Add_best [OF w fa [unfolded eqTrueI [OF up]]] by blast
  have "stage_key st \<in> set (map stage_key (history (n_filter n')))" using st(1) flt by simp
  then have "stage_key st \<in> entry_key ` set (take (f_n (n_filter n')) L)" using pr unfolding paired_def by simp
  then obtain e where e: "e \<in> set (take (f_n (n_filter n')) L)" "entry_key e = (fo_Offset f, fo_Delay f, fo_At f)"
    using st(2) by auto
  have "set (take (f_n (n_filter n')) L) \<subseteq> set (take (length (n_meta n')) L)"
    using pr unfolding paired_def by (intro set_take_subset_set_take) blast
  with e(1) have em: "e \<in> set (take (length (n_meta n')) L)" by blast
  have a: "fst e = n_addr n'" using pr em unfolding paired_def by auto
  have k: "fo_Offset f = er_Offset (snd (snd e))" "fo_Delay f = er_Delay (snd (snd e))" "fo_At f = entry_time e"
    using e(2) by (simp_all add: entry_key_def)
  have "sa_meta sa = entry_meta e" using metaAt_paired [OF pr em assms(4,5)] s up k(3) by simp
  moreover have "(n_addr n', fo_At f, snd (snd e)) \<in> set L"
    using in_set_takeD [OF em] a k(3) by (simp add: entry_time_def prod_eq_iff [symmetric])
      (metis prod.collapse)
  ultimately show ?thesis using sf k by (intro exI [of _ "snd (snd e)"]) (simp add: entry_meta_def)
qed

text \<open>C16: A measurement describes one exchange. When the clock never reads the same twice, the offset and delay of every valid
  measurement, and all it tells of the server (stratum, reference, root delay and dispersion, precision, leap
  and reference time), come from one and the same earlier successful exchange under the configured key with the
  address in use, although the filter may choose a sample several polls old; and the epoch it is stamped with was settled
  before the request and after the reply.\<close>
theorem client_pairs_samples:
  assumes "client_run lg n" and "pollOnce env n = Some (Some m, n')" and "me_Valid m"
    and "distinct (map entry_time (used env n @ lg))" and "\<forall>e \<in> set (used env n @ lg). entry_time e \<noteq> NaN"
  shows "\<exists>p xenv res.
    (n_addr n', me_At m, res) \<in> set (used env n @ lg) \<and>
    exchange p xenv = Some (res, None) \<and> xp_addr p = n_addr n' \<and> xp_key p = nc_Key (n_cfg n') \<and>
    me_Offset m = er_Offset res \<and> me_Delay m = er_Delay res \<and>
    me_Stratum m = p_Stratum (er_Packet res) \<and> me_RefID m = p_ReferenceID (er_Packet res) \<and>
    me_RootDelay m = short_Seconds (p_RootDelay (er_Packet res)) \<and>
    me_RootDisp m = short_Seconds (p_RootDispersion (er_Packet res)) \<and>
    me_Precision m = p_Precision (er_Packet res) \<and> me_Leap m = p_Leap (er_Packet res) \<and>
    me_RefTime m = ntp_Time (p_ReferenceTime (er_Packet res)) (er_T1 res) \<and>
    me_SourceRefID m = RefIDFromAddr (ap_addr (n_addr n')) \<and>
    me_Generation m = generation n (pe_gen env) \<and> generation n (pe_gen_after env) = me_Generation m \<and>
    (me_Generation m = 0 \<or> StableEpoch (me_Generation m))"
proof -
  have lg: "paired lg n" "genuine (used env n @ lg) n'"
    by (rule pairing.always [OF assms(1)], rule genuineness.inv_poll [OF genuineness.always [OF assms(1)] assms(2)])
  obtain res s where us: "usable_epoch (generation n (pe_gen env)) (generation n (pe_gen_after env))"
      "used env n = [(n_addr n, pe_mono env, res)]"
    and h: "hit res (pe_mono env) (started env res n) = (s, n')"
    and "\<exists>sa. s = Some sa \<and> m = emitted (Some sa) (generation n (pe_gen env)) True (pe_mono_emit env) n'"
    using assms(2,3) by (cases rule: pollOnce_cases) auto
  then obtain sa where sa: "s = Some sa" "m = emitted (Some sa) (generation n (pe_gen env)) True (pe_mono_emit env) n'" by blast
  have "paired lg (started env res n)" using lg(1) paired_cong [of "started env res n" n] by simp
  then obtain r where r: "(n_addr n', fo_At (sa_f sa), r) \<in> set (used env n @ lg)" "fo_Offset (sa_f sa) = er_Offset r"
    "fo_Delay (sa_f sa) = er_Delay r" "sa_meta sa = meta_of (fo_At (sa_f sa)) r"
    using hit_sample_logged [OF _ h [unfolded sa(1)], of lg "used env n @ lg"] assms(4,5) us(2) by auto
  then obtain p xenv where x: "xp_addr p = n_addr n'" "xp_key p = nc_Key (n_cfg n')" "exchange p xenv = Some (r, None)"
    using lg(2) unfolding genuine_def by blast
  show ?thesis
  proof (intro exI [of _ p] exI [of _ xenv] exI [of _ r] conjI)
    show "(n_addr n', me_At m, r) \<in> set (used env n @ lg)" using r(1) by (simp add: sa(2) emitted_def Let_def)
    show "me_Generation m = generation n (pe_gen env)" by (simp add: sa(2) emitted_def Let_def)
    then show "generation n (pe_gen_after env) = me_Generation m" "me_Generation m = 0 \<or> StableEpoch (me_Generation m)"
      using us(1) by (auto simp: usable_epoch_def)
  qed (use x in \<open>simp_all add: sa(2) emitted_def Let_def r(2-4) meta_of_def\<close>)
qed

lemma sample_filtered:
  "snd (snd (filter_Add (NewFilter (Fin (1 / 1048576))) (Fin (1 / 2)) (Fin (1 / 2))
     (Log2Seconds (- 20) + Log2Seconds (clampPrecision (- 20)) + Phi * duration_seconds (time_sub 750000000 250000000)) (Fin 4)))"
proof -
  have "duration_seconds (time_sub 750000000 250000000) = Fin (1 / 2)"
    by (simp add: duration_seconds_def time_sub_def go_quot_def go_rem_def f64_of_int_small f64_eval)
  then have "Log2Seconds (- 20) + Log2Seconds (clampPrecision (- 20)) + Phi * duration_seconds (time_sub 750000000 250000000) =
      Fin (1388279621133229 / 147573952589676412928)"
    by (simp add: Log2Seconds_def clampPrecision_def ldexp1_small Phi_value f64_eval)
  then show ?thesis
    by (simp add: filter_Add_def Let_def NewFilter_def age_stages_def shift_in_def clamp_stages_def clamp_stage_def
      rank_stages_def stage_dist_def filter_sums_def go_sort_def ldexp1_small f64_eval replicate_8)
qed

lemma sample_hit: "\<exists>m n'. pollOnce sample_poll sample_source = Some (Some m, n') \<and> me_Valid m"
proof -
  define k where "k = started sample_poll sample_result sample_source"
  have x: "exchange (poll_params sample_source) (pe_exchange sample_poll) = Some (sample_result, None)"
    using sample_exchanged by (simp add: sample_source_sel sample_poll_def)
  have k: "n_filter k = NewFilter (Fin (1 / 1048576))" "n_resetRequested k = False" "n_haveStratum k = False" "n_precision k = - 20"
    by (simp_all add: k_def started_def Let_def updateInfo_def sample_source_sel sample_poll_def)
  have f: "n_filter (filed sample_result (Fin 4) k) = NewFilter (Fin (1 / 1048576))"
    "n_precision (filed sample_result (Fin 4) k) = - 20"
    by (simp_all add: filed_sel filed_def prepare_def Let_def reached_def k)
  have r: "er_Offset sample_result = Fin (1 / 2)" "er_Delay sample_result = Fin (1 / 2)" "er_T1 sample_result = 250000000"
    "er_T4 sample_result = 750000000" "p_Precision (er_Packet sample_result) = - 20"
    by (simp_all add: sample_result_def sample_reply_def)
  obtain s n' where h: "hit sample_result (Fin 4) k = (s, n')" by force
  obtain flt out updated where fa: "filter_Add (n_filter (filed sample_result (Fin 4) k)) (er_Offset sample_result)
      (er_Delay sample_result) (sample_disp (filed sample_result (Fin 4) k) sample_result) (Fin 4) = (flt, out, updated)"
    and s: "s = (if updated then Some \<lparr>sa_out = sample_result, sa_f = out, sa_meta =
       (case metaAt (fo_At out) n' of Some m \<Rightarrow> m | None \<Rightarrow> (meta_of (Fin 4) sample_result)\<lparr>sm_at := fo_At out\<rparr>)\<rparr> else None)"
    by (rule hit_cases [OF h])
  have updated using sample_filtered fa unfolding f r sample_disp_def by simp
  then obtain sa where sa: "s = Some sa" using s by simp
  have "usable_epoch (generation sample_source (pe_gen sample_poll)) (generation sample_source (pe_gen_after sample_poll))"
    by (simp add: sample_source_sel sample_poll_def usable_epoch_def StableEpoch_def)
  then have "pollOnce sample_poll sample_source =
      Some (emit (Some sa) (generation sample_source (pe_gen sample_poll)) True (pe_mono_emit sample_poll) (pe_delivered sample_poll) n', n')"
    using h sa started_sel(6) [of sample_poll sample_result sample_source]
    unfolding pollOnce_def Let_def x option.case prod.case k_def started_def Let_def by (simp add: sample_poll_def)
  then show ?thesis by (simp add: emit_def emitted_def Let_def sample_poll_def)
qed

theorem client_pairs_samples_witness:
  "\<exists>m n' p xenv res. pollOnce sample_poll sample_source = Some (Some m, n') \<and> me_Valid m \<and>
    (n_addr n', me_At m, res) \<in> set (used sample_poll sample_source @ []) \<and> exchange p xenv = Some (res, None) \<and>
    me_Offset m = er_Offset res \<and> me_Stratum m = p_Stratum (er_Packet res)"
proof -
  obtain m n' where m: "pollOnce sample_poll sample_source = Some (Some m, n')" "me_Valid m" using sample_hit by blast
  have d: "distinct (map entry_time (used sample_poll sample_source @ []))"
    "\<forall>e \<in> set (used sample_poll sample_source @ []). entry_time e \<noteq> NaN"
    by (simp_all add: sample_used entry_time_def)
  from client_pairs_samples [OF sample_source_run m d] show ?thesis using m by blast
qed

definition fresh_endpoint :: "ntp_source \<Rightarrow> bool" where
  "fresh_endpoint n \<longleftrightarrow> n_poll n = nc_PollMin (n_cfg n) \<and> n_effPollMax n = nc_PollMax (n_cfg n) \<and> n_kodMinPoll n = 0 \<and>
     n_meta n = [] \<and> history (n_filter n) = []"

lemma fresh_useAddr: "a \<noteq> n_addr n \<Longrightarrow> fresh_endpoint (useAddr a n)" "fresh_endpoint n \<Longrightarrow> fresh_endpoint (useAddr a n)"
  by (simp_all add: useAddr_def resetEndpointState_def updateInfo_def fresh_endpoint_def filter_Reset_def
    NewFilter_def history_def)

lemma rotate_moves:
  assumes "2 \<le> length (n_addrs k)" "distinct (n_addrs k)" "n_addrIndex k < length (n_addrs k)"
    "n_addrs k ! n_addrIndex k = n_addr k"
  shows "n_addr (rotateAddr k) \<in> set (n_addrs k) \<and> n_addr (rotateAddr k) \<noteq> n_addr k \<and> fresh_endpoint (rotateAddr k)"
proof -
  let ?as = "n_addrs k" and ?i = "(n_addrIndex k + 1) mod length (n_addrs k)"
  have i: "?i < length ?as" using assms(1) by (intro mod_less_divisor) linarith
  have "?i \<noteq> n_addrIndex k" using assms(1,3) by (cases "n_addrIndex k + 1 = length ?as") auto
  then have ne: "?as ! ?i \<noteq> n_addr k" using assms(2-4) i nth_eq_iff_index_eq [of ?as ?i "n_addrIndex k"] by simp
  have r: "rotateAddr k = useAddr (?as ! ?i) (k\<lparr>n_addrIndex := ?i\<rparr>)" using assms(1) by (simp add: rotateAddr_def Let_def)
  show ?thesis unfolding r using ne nth_mem [OF i] fresh_useAddr(1) [of "?as ! ?i" "k\<lparr>n_addrIndex := ?i\<rparr>"] by simp
qed

lemma set_then_rotate:
  assumes "n_haveAddr n" "2 \<le> length as" "distinct as"
  shows "n_addr (rotateAddr (setAddrs as n)) \<in> set as \<and> n_addr (rotateAddr (setAddrs as n)) \<noteq> n_addr n \<and>
    fresh_endpoint (rotateAddr (setAddrs as n))"
proof (cases "index_of (n_addr n) as")
  case (Some i)
  have s: "setAddrs as n = n\<lparr>n_addrs := as, n_addrIndex := i\<rparr>" using assms(1) Some by (simp add: setAddrs_def Let_def)
  show ?thesis using rotate_moves [of "setAddrs as n"] index_of_Some [OF Some] assms(2,3) unfolding s by simp
next
  case None
  then have no: "n_addr n \<notin> set as" by (simp add: index_of_None)
  let ?k = "useAddr (as ! 0) (n\<lparr>n_addrs := as\<rparr>)" and ?i = "(n_addrIndex n + 1) mod length as"
  have s: "setAddrs as n = ?k" using assms(1) None by (simp add: setAddrs_def Let_def)
  have l: "0 < length as" using assms(2) by linarith
  then have i: "?i < length as" by (rule mod_less_divisor)
  have r: "rotateAddr ?k = useAddr (as ! ?i) (?k\<lparr>n_addrIndex := ?i\<rparr>)" using assms(2) by (simp add: rotateAddr_def Let_def)
  have "as ! 0 \<noteq> n_addr n" using no nth_mem [OF l] by auto
  then have "fresh_endpoint ?k" by (intro fresh_useAddr(1)) simp
  then have "fresh_endpoint (?k\<lparr>n_addrIndex := ?i\<rparr>)" by (simp add: fresh_endpoint_def)
  from fresh_useAddr(2) [OF this] show ?thesis unfolding s r using no nth_mem [OF i] by auto
qed

text \<open>When none of the answers is the address in use, the client passes over the first of them: the rotation that follows a
  failure is applied to an index that belongs to the old answers.\<close>

lemma replaced_answers_skip_first:
  assumes "n_haveAddr n" "n_addrIndex n = 0" "n_addr n \<notin> {a, b}"
  shows "n_addr (rotateAddr (setAddrs [a, b] n)) = b"
  using assms by (auto simp: setAddrs_def rotateAddr_def Let_def)

text \<open>C18: A client moves off an address that does not answer. After eight failures in a row, whether the name resolves
  again or the answers held are used, a name with several distinct addresses is next polled at another of them,
  with nothing kept of the old one: no samples, no metadata and no demand on the poll interval.\<close>
theorem client_moves_on:
  assumes "client_run lg n" and "n_haveAddr n" and "8 \<le> n_consecutiveTimeouts n"
    and "ensureResolved answers False n = (ok, n')" and "2 \<le> length (n_addrs n')" and "distinct (n_addrs n')"
  shows "ok \<and> n_addr n' \<in> set (n_addrs n') \<and> n_addr n' \<noteq> n_addr n \<and>
    n_poll n' = nc_PollMin (n_cfg n) \<and> n_effPollMax n' = nc_PollMax (n_cfg n) \<and> n_kodMinPoll n' = 0 \<and>
    n_meta n' = [] \<and> history (n_filter n') = []"
proof -
  have c: "n_cfg n' = n_cfg n" by (rule ensureResolved_cfg [OF assms(4)])
  have ok: "addr_ok n" by (rule addresses.always [OF assms(1)])
  have "ok \<and> n_addr n' \<in> set (n_addrs n') \<and> n_addr n' \<noteq> n_addr n \<and> fresh_endpoint n'"
    using assms(4)
  proof (cases rule: ensureResolved_cases)
    case same
    then show ?thesis using assms(3) by simp
  next
    case (failed n1)
    have n': "n' = rotateAddr n1" using failed(8) assms(2) by simp
    have 1: "n_addrs n1 = n_addrs n" "n_addrIndex n1 = n_addrIndex n" "n_addr n1 = n_addr n" "n_haveAddr n1"
      using failed(1) assms(2) by (simp_all add: assoc_def)
    have "n_addrs n' = n_addrs n1" using n' by simp
    then have as: "2 \<le> length (n_addrs n)" "distinct (n_addrs n)" using assms(5,6) 1(1) by simp_all
    then have "n_addr n' \<in> set (n_addrs n1) \<and> n_addr n' \<noteq> n_addr n1 \<and> fresh_endpoint n'"
      unfolding n' using ok 1 by (intro rotate_moves) (simp_all add: addr_ok_def)
    then show ?thesis using 1 n' failed(7) by simp
  next
    case (resolved n1 as)
    let ?k = "setAddrs as n1"
    have "n_addrs n' = as" unfolding resolved(9) using assms(2) by (simp add: updateInfo_def)
    then have as: "2 \<le> length as" "distinct as" using assms(5,6) by simp_all
    have 1: "n_addr n1 = n_addr n" "n_haveAddr n1" using resolved(1) assms(2) by (simp_all add: assoc_def)
    have "n_addr (rotateAddr ?k) \<in> set as \<and> n_addr (rotateAddr ?k) \<noteq> n_addr n \<and> fresh_endpoint (rotateAddr ?k)"
      using set_then_rotate [OF 1(2) as] 1(1) by simp
    then show ?thesis using \<open>n_addrs n' = as\<close> resolved(8) unfolding resolved(9) fresh_endpoint_def
      using assms(2) by (simp add: updateInfo_def)
  qed
  then show ?thesis unfolding fresh_endpoint_def c by blast
qed

text \<open>A source with two addresses that has not been answered eight times.\<close>

definition quiet_poll :: poll_env where
  "quiet_poll = \<lparr>pe_gen = 2, pe_exchange = sample_exchange\<lparr>xe_reads := []\<rparr>, pe_reset = False, pe_cancelled = False,
     pe_gen_after = 2, pe_mono = Fin 4, pe_gen_emit = 2, pe_mono_emit = Fin 5, pe_delivered = True\<rparr>"

lemma quiet_poll_counts:
  assumes "client_run lg n" "nc_Key (n_cfg n) = None"
  shows "\<exists>n'. client_run lg n' \<and> assoc n' = assoc n \<and> n_cfg n' = n_cfg n \<and>
    n_consecutiveTimeouts n' = n_consecutiveTimeouts n + 1"
proof -
  let ?r = "zero_result\<lparr>er_Sent := True, er_T1 := 250000000\<rparr>"
  have x: "exchange (poll_params n) (pe_exchange quiet_poll) = Some (?r, Some ErrTimeout)"
    using assms(2) by (simp add: exchange_def quiet_poll_def sample_exchange_def Let_def request_bytes_def poll_params_def)
  let ?n = "poll_failed ErrTimeout (started quiet_poll ?r n)"
  have "\<exists>m. pollOnce quiet_poll n = Some (m, ?n)"
    unfolding pollOnce_def Let_def x option.case prod.case started_def Let_def by (simp add: quiet_poll_def)
  then obtain m where p: "pollOnce quiet_poll n = Some (m, ?n)" ..
  have "used quiet_poll n = []" by (simp add: used_def x)
  then have "client_run lg ?n" using client_run.poll [OF assms(1) p] by simp
  moreover have "n_consecutiveTimeouts ?n = n_consecutiveTimeouts n + 1"
    by (simp add: poll_failed_def endpoint_failed_def miss_def publish_def updateInfo_def started_def Let_def)
  ultimately show ?thesis by (intro exI [of _ ?n]) simp
qed

lemma quiet_polls_count:
  assumes "client_run lg n" "nc_Key (n_cfg n) = None"
  shows "\<exists>n'. client_run lg n' \<and> assoc n' = assoc n \<and> n_cfg n' = n_cfg n \<and>
    n_consecutiveTimeouts n' = n_consecutiveTimeouts n + k"
proof (induction k)
  case 0
  then show ?case using assms by auto
next
  case (Suc k)
  then obtain n1 where n1: "client_run lg n1" "assoc n1 = assoc n" "n_cfg n1 = n_cfg n"
    "n_consecutiveTimeouts n1 = n_consecutiveTimeouts n + k" by blast
  from quiet_poll_counts [OF n1(1)] assms(2) n1 show ?case by auto
qed

theorem client_moves_on_witness:
  "\<exists>n n'. client_run [] n \<and> ensureResolved None False n = (True, n') \<and>
     n_addr n = \<lparr>ap_addr = Addr4 1, ap_port = 123\<rparr> \<and> n_addr n' = \<lparr>ap_addr = Addr4 2, ap_port = 123\<rparr>"
proof -
  define cfg where "cfg = with_defaults (sample_client_config\<lparr>nc_literal := None\<rparr>)"
  define n0 where "n0 = new_source cfg (- 20)"
  define n1 where "n1 = snd (ensureResolved (Some [Addr4 1, Addr4 2]) False n0)"
  have "NewNTP (sample_client_config\<lparr>nc_literal := None\<rparr>) (Some (- 20)) = Inr n0"
    by (simp add: NewNTP_def n0_def cfg_def with_defaults_def sample_client_config_def Let_def)
  then have "client_run [] n0" by (rule client_run.start)
  then have r1: "client_run [] n1" unfolding n1_def by (rule client_run.resolve) (rule prod.collapse [symmetric])
  have s: "n_haveAddr n1" "n_addr n1 = \<lparr>ap_addr = Addr4 1, ap_port = 123\<rparr>"
    "n_addrs n1 = [\<lparr>ap_addr = Addr4 1, ap_port = 123\<rparr>, \<lparr>ap_addr = Addr4 2, ap_port = 123\<rparr>]"
    "nc_Key (n_cfg n1) = None" "nc_literal (n_cfg n1) = None"
    by (simp_all add: n1_def n0_def cfg_def ensureResolved_def new_source_def with_defaults_def sample_client_config_def
      Let_def resolve_def setAddrs_def useAddr_def resetEndpointState_def updateInfo_def)
  obtain n where n: "client_run [] n" "assoc n = assoc n1" "n_cfg n = n_cfg n1" "8 \<le> n_consecutiveTimeouts n"
    using quiet_polls_count [OF r1 s(4), of 8] by auto
  have a: "n_haveAddr n" "n_addr n = n_addr n1" "n_addrs n = n_addrs n1" using n(2) s(1) by (simp_all add: assoc_def)
  obtain ok n' where e: "ensureResolved None False n = (ok, n')" by force
  have as: "n_addrs n' = n_addrs n1"
    using e a n(3,4) s(5) by (auto simp: ensureResolved_def Let_def resolve_def updateInfo_def)
  have "ok \<and> n_addr n' \<in> set (n_addrs n') \<and> n_addr n' \<noteq> n_addr n"
    using client_moves_on [OF n(1) a(1) n(4) e] unfolding as s(3) by simp
  then have "ok" "n_addr n' = \<lparr>ap_addr = Addr4 2, ap_port = 123\<rparr>" unfolding as a(2) s(2,3) by auto
  then show ?thesis using n(1) e a(2) s(2) by (intro exI [of _ n] exI [of _ n']) simp
qed

end
