(* ===== verification/Server_Stats.thy ===== *)
theory Server_Stats
  imports NTP_Time
begin

text \<open>
  \<^verbatim>\<open>internal/server/stats.go\<close>: the counters of the NTP listeners, one set for each address family, and their
  snapshots. The counters are atomic and only added to, so the additions of several listeners commute; the
  model follows one of them.
\<close>

record event_time =
  ev_seq :: uint64
  ev_ns :: int

definition event_store :: "event_time \<Rightarrow> gtime \<Rightarrow> event_time" where
  \<comment> \<open>with no other store in between; \<^verbatim>\<open>UnixNano\<close> is an \<^verbatim>\<open>int64\<close>\<close>
  "event_store e t = \<lparr>ev_seq = ev_seq e + 1, ev_ns = int64_wrap t\<rparr>"

definition atomicTime :: "int \<Rightarrow> gtime" where
  "atomicTime ns = (if ns = 0 then zero_time else ns)"

definition event_load :: "event_time \<Rightarrow> gtime" where
  "event_load e = atomicTime (ev_ns e)"

record counters =
  c_served :: uint64
  c_unsynced :: uint64
  c_kod :: uint64
  c_denied :: uint64
  c_martian :: uint64
  c_rateLimited :: uint64
  c_badAuth :: uint64
  c_badVersion :: uint64
  c_nonClient :: uint64
  c_malformed :: uint64
  c_oversize :: uint64
  c_missingKernelTS :: uint64
  c_kernelDrops :: uint64
  c_clients :: int
  c_modes :: "uint64 list"
  c_versions :: "uint64 list"
  c_lastRequest :: event_time
  c_lastServed :: event_time

definition zero_counters :: counters where
  "zero_counters = \<lparr>c_served = 0, c_unsynced = 0, c_kod = 0, c_denied = 0, c_martian = 0, c_rateLimited = 0, c_badAuth = 0,
     c_badVersion = 0, c_nonClient = 0, c_malformed = 0, c_oversize = 0, c_missingKernelTS = 0, c_kernelDrops = 0, c_clients = 0,
     c_modes = replicate 8 0, c_versions = replicate 5 0, c_lastRequest = \<lparr>ev_seq = 0, ev_ns = 0\<rparr>, c_lastServed = \<lparr>ev_seq = 0, ev_ns = 0\<rparr>\<rparr>"

record server_stats =
  st_v4 :: counters
  st_v6 :: counters

definition family :: "server_stats \<Rightarrow> ipaddr \<Rightarrow> counters" where
  "family s addr = (if addr_is4 (addr_unmap addr) then st_v4 s else st_v6 s)"

definition on_family :: "server_stats \<Rightarrow> ipaddr \<Rightarrow> (counters \<Rightarrow> counters) \<Rightarrow> server_stats" where
  \<comment> \<open>an update through the pointer that \<^verbatim>\<open>family\<close> returns\<close>
  "on_family s addr f = (if addr_is4 (addr_unmap addr) then s\<lparr>st_v4 := f (st_v4 s)\<rparr> else s\<lparr>st_v6 := f (st_v6 s)\<rparr>)"

record counter_snapshot =
  cs_Served :: uint64
  cs_Unsynced :: uint64
  cs_KoD :: uint64
  cs_Denied :: uint64
  cs_Martian :: uint64
  cs_RateLimited :: uint64
  cs_BadAuth :: uint64
  cs_BadVersion :: uint64
  cs_NonClient :: uint64
  cs_Malformed :: uint64
  cs_Oversize :: uint64
  cs_NoKernelTS :: uint64
  cs_KernelDrops :: uint64
  cs_Clients :: int
  cs_Modes :: "uint64 list"
  cs_Versions :: "uint64 list"
  cs_LastRequest :: gtime
  cs_LastServed :: gtime

definition Dropped :: "counter_snapshot \<Rightarrow> uint64" where
  "Dropped c = cs_Denied c + cs_Martian c + cs_RateLimited c + cs_BadAuth c +
     cs_BadVersion c + cs_NonClient c + cs_Malformed c + cs_Oversize c"

definition Requests :: "counter_snapshot \<Rightarrow> uint64" where
  "Requests c = cs_Served c + Dropped c"

definition counters_snapshot :: "counters \<Rightarrow> counter_snapshot" where
  "counters_snapshot c =
     \<lparr>cs_Served = c_served c, cs_Unsynced = c_unsynced c, cs_KoD = c_kod c, cs_Denied = c_denied c, cs_Martian = c_martian c,
      cs_RateLimited = c_rateLimited c, cs_BadAuth = c_badAuth c, cs_BadVersion = c_badVersion c, cs_NonClient = c_nonClient c,
      cs_Malformed = c_malformed c, cs_Oversize = c_oversize c, cs_NoKernelTS = c_missingKernelTS c,
      cs_KernelDrops = c_kernelDrops c, cs_Clients = c_clients c, cs_Modes = c_modes c, cs_Versions = c_versions c,
      cs_LastRequest = event_load (c_lastRequest c), cs_LastServed = event_load (c_lastServed c)\<rparr>"

definition later :: "gtime \<Rightarrow> gtime \<Rightarrow> gtime" where
  "later a b = (if b > a then b else a)"

definition sumCounters :: "counter_snapshot \<Rightarrow> counter_snapshot \<Rightarrow> counter_snapshot" where
  "sumCounters a b =
     \<lparr>cs_Served = cs_Served a + cs_Served b, cs_Unsynced = cs_Unsynced a + cs_Unsynced b, cs_KoD = cs_KoD a + cs_KoD b,
      cs_Denied = cs_Denied a + cs_Denied b, cs_Martian = cs_Martian a + cs_Martian b,
      cs_RateLimited = cs_RateLimited a + cs_RateLimited b, cs_BadAuth = cs_BadAuth a + cs_BadAuth b,
      cs_BadVersion = cs_BadVersion a + cs_BadVersion b, cs_NonClient = cs_NonClient a + cs_NonClient b,
      cs_Malformed = cs_Malformed a + cs_Malformed b, cs_Oversize = cs_Oversize a + cs_Oversize b,
      cs_NoKernelTS = cs_NoKernelTS a + cs_NoKernelTS b, cs_KernelDrops = cs_KernelDrops a + cs_KernelDrops b,
      cs_Clients = int64_wrap (cs_Clients a + cs_Clients b), cs_Modes = map2 (+) (cs_Modes a) (cs_Modes b),
      cs_Versions = map2 (+) (cs_Versions a) (cs_Versions b),
      cs_LastRequest = later (cs_LastRequest a) (cs_LastRequest b), cs_LastServed = later (cs_LastServed a) (cs_LastServed b)\<rparr>"

record stats_snapshot =
  sn_Total :: counter_snapshot
  sn_IPv4 :: counter_snapshot
  sn_IPv6 :: counter_snapshot

definition Snapshot :: "server_stats \<Rightarrow> stats_snapshot" where
  "Snapshot s =
     (let v4 = counters_snapshot (st_v4 s); v6 = counters_snapshot (st_v6 s)
      in \<lparr>sn_Total = sumCounters v4 v6, sn_IPv4 = v4, sn_IPv6 = v6\<rparr>)"

section \<open>Accounting\<close>

definition accounted :: "counters \<Rightarrow> uint64" where
  \<comment> \<open>the datagrams a set of counters accounts for\<close>
  "accounted c = Requests (counters_snapshot c)"

lemma accounted_sum:
  "accounted c = c_served c + c_denied c + c_martian c + c_rateLimited c + c_badAuth c + c_badVersion c + c_nonClient c +
     c_malformed c + c_oversize c"
  by (simp add: accounted_def Requests_def Dropped_def counters_snapshot_def)

text \<open>The total accounts for the datagrams of both families.\<close>

lemma Requests_total: "Requests (sn_Total (Snapshot s)) = accounted (st_v4 s) + accounted (st_v6 s)"
  by (simp add: accounted_sum Snapshot_def Let_def sumCounters_def Requests_def Dropped_def counters_snapshot_def algebra_simps)

definition total_requests :: "server_stats \<Rightarrow> uint64" where
  "total_requests s = Requests (sn_Total (Snapshot s))"

lemma total_one: "(\<And>c. accounted (f c) = accounted c + 1) \<Longrightarrow> total_requests (on_family s addr f) = total_requests s + 1"
  unfolding total_requests_def Requests_total by (simp add: on_family_def)

lemma total_same: "(\<And>c. accounted (f c) = accounted c) \<Longrightarrow> total_requests (on_family s addr f) = total_requests s"
  unfolding total_requests_def Requests_total by (simp add: on_family_def)

end
