(* ===== verification/Rate_Limit.thy ===== *)
theory Rate_Limit
  imports Go_Std "HOL-Library.AList"
begin

text \<open>
  \<^verbatim>\<open>internal/server/ratelimit.go\<close>: the bounded table of token buckets with its least-recently-used list. A bucket is
  shared by the map and the list, so both hold pointers, which are indices into the heap of all buckets ever
  made; the list has the most recently used bucket first.
\<close>

abbreviation (input) DefaultMaxClients :: int where "DefaultMaxClients \<equiv> 65536"
abbreviation (input) clientIdleExpiry :: duration where "clientIdleExpiry \<equiv> 60 * second_ns"
abbreviation (input) kodInterval :: duration where "kodInterval \<equiv> 4 * second_ns"
abbreviation (input) DefaultRateLimitV6Prefix :: int where "DefaultRateLimitV6Prefix \<equiv> 64"
abbreviation (input) maxRateLimit :: f64 where "maxRateLimit \<equiv> Fin 1000000000"

datatype keyspace = spaceService | spaceCrypto

record bucket_key =
  bk_addr :: ipaddr
  bk_keyID :: uint32
  bk_space :: keyspace

record client_bucket =
  cb_key :: bucket_key
  cb_tokens :: f64
  cb_updated :: gtime
  cb_lastSeen :: gtime
  cb_lastKoD :: gtime

record rate_limiter =
  rl_rate :: f64
  rl_burst :: f64
  rl_maxClients :: int
  rl_v6Prefix :: int
  rl_clients :: "(bucket_key \<times> nat) list"
  rl_lru :: "nat list"
  rl_heap :: "client_bucket list"

definition newRateLimiter :: "f64 \<Rightarrow> f64 \<Rightarrow> int \<Rightarrow> int \<Rightarrow> rate_limiter" where
  "newRateLimiter rate burst maxClients v6Prefix =
     \<lparr>rl_rate = rate, rl_burst = burst,
      rl_maxClients = (if maxClients \<le> 0 then DefaultMaxClients else maxClients),
      rl_v6Prefix = (if v6Prefix \<le> 0 \<or> v6Prefix > 128 then DefaultRateLimitV6Prefix else v6Prefix),
      rl_clients = [], rl_lru = [], rl_heap = []\<rparr>"

definition spaceKey :: "rate_limiter \<Rightarrow> ipaddr \<Rightarrow> uint32 \<Rightarrow> keyspace \<Rightarrow> bucket_key" where
  "spaceKey l addr keyID space =
     (let addr = addr_unmap addr;
          addr = (if addr_is6 addr \<and> rl_v6Prefix l < 128 then addr_mask (nat (rl_v6Prefix l)) addr else addr)
      in \<lparr>bk_addr = addr, bk_keyID = keyID, bk_space = space\<rparr>)"

definition service_key :: "rate_limiter \<Rightarrow> ipaddr \<Rightarrow> uint32 \<Rightarrow> bucket_key" where
  "service_key l addr keyID = spaceKey l addr keyID spaceService"

definition cryptoKey :: "rate_limiter \<Rightarrow> ipaddr \<Rightarrow> bucket_key" where
  "cryptoKey l addr = spaceKey l addr 0 spaceCrypto"

definition limiter_size :: "rate_limiter \<Rightarrow> nat" where
  "limiter_size l = length (rl_clients l)"

definition remove_bucket :: "rate_limiter \<Rightarrow> nat \<Rightarrow> rate_limiter" where
  "remove_bucket l p = l\<lparr>rl_clients := AList.delete (cb_key (rl_heap l ! p)) (rl_clients l), rl_lru := remove1 p (rl_lru l)\<rparr>"

function expire :: "rate_limiter \<Rightarrow> gtime \<Rightarrow> rate_limiter" where
  "expire l now =
     (if rl_lru l = [] then l
      else (let p = last (rl_lru l)
            in if time_sub now (cb_lastSeen (rl_heap l ! p)) \<le> clientIdleExpiry then l
               else expire (remove_bucket l p) now))"
  by pat_completeness auto
termination
  by (relation "measure (\<lambda>(l, now). length (rl_lru l))") (auto simp: remove_bucket_def length_remove1)

declare expire.simps [simp del]

definition evictOldest :: "rate_limiter \<Rightarrow> rate_limiter" where
  "evictOldest l = (if rl_lru l = [] then l else remove_bucket l (last (rl_lru l)))"

definition new_bucket :: "rate_limiter \<Rightarrow> bucket_key \<Rightarrow> gtime \<Rightarrow> rate_limiter \<times> nat" where
  \<comment> \<open>the first request of a client\<close>
  "new_bucket l k now =
     (let l = (if int (limiter_size l) \<ge> rl_maxClients l then evictOldest l else l);
          p = length (rl_heap l);
          b = \<lparr>cb_key = k, cb_tokens = rl_burst l, cb_updated = now, cb_lastSeen = now, cb_lastKoD = zero_time\<rparr>
      in (l\<lparr>rl_heap := rl_heap l @ [b], rl_lru := p # rl_lru l, rl_clients := AList.update k p (rl_clients l)\<rparr>, p))"

definition refill :: "rate_limiter \<Rightarrow> gtime \<Rightarrow> client_bucket \<Rightarrow> client_bucket" where
  "refill l now b =
     (let elapsed = duration_seconds (time_sub now (cb_updated b))
      in b\<lparr>cb_tokens := (if elapsed > 0 then fmin_builtin (rl_burst l) (cb_tokens b + elapsed * rl_rate l) else cb_tokens b),
           cb_updated := now, cb_lastSeen := now\<rparr>)"

definition touch_bucket :: "rate_limiter \<Rightarrow> nat \<Rightarrow> gtime \<Rightarrow> rate_limiter" where
  "touch_bucket l p now =
     l\<lparr>rl_heap := (rl_heap l)[p := refill l now (rl_heap l ! p)], rl_lru := p # remove1 p (rl_lru l)\<rparr>"

definition spend :: "client_bucket \<Rightarrow> gtime \<Rightarrow> bool \<times> bool \<times> client_bucket" where
  "spend b now =
     (if cb_tokens b \<ge> 1 then (True, False, b\<lparr>cb_tokens := cb_tokens b - 1\<rparr>)
      else if cb_lastKoD b = zero_time \<or> time_sub now (cb_lastKoD b) \<ge> kodInterval then (False, True, b\<lparr>cb_lastKoD := now\<rparr>)
      else (False, False, b))"

definition limiter_allow :: "rate_limiter \<Rightarrow> bucket_key \<Rightarrow> gtime \<Rightarrow> bool \<times> bool \<times> rate_limiter" where
  \<comment> \<open>allowed, whether a kiss may be sent, and the table\<close>
  "limiter_allow l k now =
     (let l = expire l now;
          (l, p) = (case map_of (rl_clients l) k of
                      None \<Rightarrow> new_bucket l k now
                    | Some p \<Rightarrow> (touch_bucket l p now, p));
          (allowed, sendKoD, b) = spend (rl_heap l ! p) now
      in (allowed, sendKoD, l\<lparr>rl_heap := (rl_heap l)[p := b]\<rparr>))"

section \<open>The table\<close>

definition bucket :: "rate_limiter \<Rightarrow> bucket_key \<Rightarrow> client_bucket option" where
  \<comment> \<open>the table as a map from keys to buckets\<close>
  "bucket l k = map_option (\<lambda>p. rl_heap l ! p) (map_of (rl_clients l) k)"

definition bucket_ok :: "rate_limiter \<Rightarrow> client_bucket \<Rightarrow> bool" where
  "bucket_ok l b \<longleftrightarrow> wf_f64 (cb_tokens b) \<and> Fin 0 \<le> cb_tokens b \<and> cb_tokens b \<le> rl_burst l"

definition links_ok :: "rate_limiter \<Rightarrow> bool" where
  \<comment> \<open>the map and the list hold the same buckets, each once and under its own key\<close>
  "links_ok l \<longleftrightarrow> distinct (map fst (rl_clients l)) \<and> distinct (rl_lru l) \<and> (\<forall>p \<in> set (rl_lru l). p < length (rl_heap l)) \<and>
     set (rl_clients l) = (\<lambda>p. (cb_key (rl_heap l ! p), p)) ` set (rl_lru l)"

definition limiter_config :: "rate_limiter \<Rightarrow> bool" where
  "limiter_config l \<longleftrightarrow> wf_f64 (rl_rate l) \<and> Fin 0 < rl_rate l \<and> rl_rate l \<le> maxRateLimit \<and>
     wf_f64 (rl_burst l) \<and> Fin 1 \<le> rl_burst l \<and> rl_burst l \<le> maxRateLimit \<and> 0 < rl_maxClients l"

definition limiter_ok :: "rate_limiter \<Rightarrow> bool" where
  "limiter_ok l \<longleftrightarrow> links_ok l \<and> limiter_config l \<and> int (length (rl_lru l)) \<le> rl_maxClients l \<and>
     (\<forall>p \<in> set (rl_lru l). bucket_ok l (rl_heap l ! p))"

lemma links_size: "links_ok l \<Longrightarrow> length (rl_clients l) = length (rl_lru l)"
proof -
  assume l: "links_ok l"
  have "length (rl_clients l) = card (set (rl_clients l))"
    using l by (metis distinct_card distinct_map links_ok_def)
  also have "\<dots> = card (set (rl_lru l))" using l by (simp add: links_ok_def card_image inj_on_def)
  also have "\<dots> = length (rl_lru l)" using l by (simp add: links_ok_def distinct_card)
  finally show ?thesis .
qed

lemma links_lookup: "links_ok l \<Longrightarrow> map_of (rl_clients l) k = Some p \<longleftrightarrow> p \<in> set (rl_lru l) \<and> cb_key (rl_heap l ! p) = k"
  by (auto simp: links_ok_def map_of_eq_Some_iff)

lemma links_inj: "links_ok l \<Longrightarrow> p \<in> set (rl_lru l) \<Longrightarrow> q \<in> set (rl_lru l) \<Longrightarrow> cb_key (rl_heap l ! p) = cb_key (rl_heap l ! q) \<Longrightarrow> p = q"
  by (metis links_lookup option.inject)

lemma remove_bucket_links:
  assumes "links_ok l" "p \<in> set (rl_lru l)"
  shows "links_ok (remove_bucket l p)"
proof -
  let ?k = "cb_key (rl_heap l ! p)"
  have "set (AList.delete ?k (rl_clients l)) = {e \<in> set (rl_clients l). fst e \<noteq> ?k}" by (auto simp: AList.delete_eq)
  also have "\<dots> = (\<lambda>p. (cb_key (rl_heap l ! p), p)) ` {q \<in> set (rl_lru l). cb_key (rl_heap l ! q) \<noteq> ?k}"
    using assms(1) by (auto simp: links_ok_def)
  also have "{q \<in> set (rl_lru l). cb_key (rl_heap l ! q) \<noteq> ?k} = set (rl_lru l) - {p}"
    using links_inj [OF assms(1) _ assms(2)] by auto
  finally have "set (AList.delete ?k (rl_clients l)) = (\<lambda>p. (cb_key (rl_heap l ! p), p)) ` (set (rl_lru l) - {p})" .
  then show ?thesis using assms by (auto simp: links_ok_def remove_bucket_def AList.distinct_delete)
qed

lemma remove_bucket_lookup:
  assumes "links_ok l" "p \<in> set (rl_lru l)"
  shows "bucket (remove_bucket l p) k = (if k = cb_key (rl_heap l ! p) then None else bucket l k)"
  by (simp add: bucket_def remove_bucket_def AList.delete_conv)

text \<open>Expiry and eviction only forget buckets.\<close>

definition forgets :: "rate_limiter \<Rightarrow> rate_limiter \<Rightarrow> bool" where
  "forgets l l' \<longleftrightarrow> links_ok l' \<and> rl_heap l' = rl_heap l \<and>
     rl_rate l' = rl_rate l \<and> rl_burst l' = rl_burst l \<and> rl_maxClients l' = rl_maxClients l \<and> rl_v6Prefix l' = rl_v6Prefix l \<and>
     (\<forall>k. bucket l' k = bucket l k \<or> bucket l' k = None) \<and> (\<exists>n. rl_lru l' = take n (rl_lru l))"

lemma remove_last_butlast: "xs \<noteq> [] \<Longrightarrow> distinct xs \<Longrightarrow> remove1 (last xs) xs = butlast xs"
  by (induction xs rule: rev_induct) (auto simp: remove1_append)

lemma remove_last_forgets:
  assumes "links_ok l" "rl_lru l \<noteq> []"
  shows "forgets l (remove_bucket l (last (rl_lru l)))"
proof -
  have p: "last (rl_lru l) \<in> set (rl_lru l)" using assms(2) by simp
  have r: "rl_lru (remove_bucket l (last (rl_lru l))) = take (length (rl_lru l) - 1) (rl_lru l)"
    using assms by (simp add: remove_bucket_def remove_last_butlast links_ok_def butlast_conv_take)
  then have "\<exists>n. rl_lru (remove_bucket l (last (rl_lru l))) = take n (rl_lru l)" by blast
  then show ?thesis using remove_bucket_links [OF assms(1) p] remove_bucket_lookup [OF assms(1) p]
    unfolding forgets_def by (simp add: remove_bucket_def)
qed

lemma forgets_refl: "links_ok l \<Longrightarrow> forgets l l"
  by (auto simp: forgets_def intro: exI [of _ "length (rl_lru l)"])

lemma forgets_trans:
  assumes "forgets l l'" "forgets l' l''"
  shows "forgets l l''"
proof -
  obtain n n' where "rl_lru l' = take n (rl_lru l)" "rl_lru l'' = take n' (rl_lru l')" using assms by (auto simp: forgets_def)
  then have t: "\<exists>n. rl_lru l'' = take n (rl_lru l)" by (metis take_take)
  have b: "bucket l'' k = bucket l k \<or> bucket l'' k = None" for k
  proof -
    have "bucket l' k = bucket l k \<or> bucket l' k = None" using assms(1) unfolding forgets_def by (elim conjE) (erule allE)
    moreover have "bucket l'' k = bucket l' k \<or> bucket l'' k = None" using assms(2) unfolding forgets_def by (elim conjE) (erule allE)
    ultimately show ?thesis by (elim disjE) simp_all
  qed
  show ?thesis using assms t b unfolding forgets_def by simp
qed

lemma forgets_lru: "forgets l l' \<Longrightarrow> set (rl_lru l') \<subseteq> set (rl_lru l)" "forgets l l' \<Longrightarrow> length (rl_lru l') \<le> length (rl_lru l)"
  by (auto simp: forgets_def dest: in_set_takeD)

lemma expire_forgets: "links_ok l \<Longrightarrow> forgets l (expire l now)"
proof (induction l now rule: expire.induct)
  case (1 l now)
  show ?case
  proof (cases "rl_lru l = [] \<or> time_sub now (cb_lastSeen (rl_heap l ! last (rl_lru l))) \<le> clientIdleExpiry")
    case True
    then show ?thesis using forgets_refl [OF 1(2)] by (subst expire.simps) (auto simp: Let_def)
  next
    case False
    then have f: "forgets l (remove_bucket l (last (rl_lru l)))" using remove_last_forgets [OF 1(2)] by simp
    have "forgets (remove_bucket l (last (rl_lru l))) (expire (remove_bucket l (last (rl_lru l))) now)"
      by (rule 1(1)) (use False f in \<open>auto simp: forgets_def\<close>)
    from forgets_trans [OF f this] False show ?thesis by (subst expire.simps) (simp add: Let_def)
  qed
qed

lemma evict_forgets: "links_ok l \<Longrightarrow> forgets l (evictOldest l)"
  using remove_last_forgets forgets_refl by (auto simp: evictOldest_def)

section \<open>One request\<close>

lemma forgets_ok: "limiter_ok l \<Longrightarrow> forgets l l' \<Longrightarrow> limiter_ok l'"
  using forgets_lru [of l l'] by (auto simp: limiter_ok_def forgets_def limiter_config_def bucket_ok_def)

lemma set_heap_links:
  assumes "links_ok l" "cb_key b = cb_key (rl_heap l ! p)"
  shows "links_ok (l\<lparr>rl_heap := (rl_heap l)[p := b]\<rparr>)"
proof -
  have "cb_key ((rl_heap l)[p := b] ! q) = cb_key (rl_heap l ! q)" for q
    using assms(2) by (cases "p < length (rl_heap l)"; cases "q = p") (auto simp: not_less list_update_beyond)
  then show ?thesis using assms(1) by (simp add: links_ok_def)
qed

lemma set_heap_ok:
  assumes "limiter_ok l" "cb_key b = cb_key (rl_heap l ! p)" "bucket_ok l b"
  shows "limiter_ok (l\<lparr>rl_heap := (rl_heap l)[p := b]\<rparr>)"
proof -
  have "bucket_ok l ((rl_heap l)[p := b] ! q)" if "q \<in> set (rl_lru l)" for q
    using assms(1,3) that by (cases "p < length (rl_heap l)"; cases "q = p") (auto simp: not_less list_update_beyond limiter_ok_def)
  then show ?thesis using assms(1) set_heap_links [OF _ assms(2)] by (auto simp: limiter_ok_def limiter_config_def bucket_ok_def)
qed

lemma set_heap_bucket:
  assumes "links_ok l" "p \<in> set (rl_lru l)" "k' \<noteq> cb_key (rl_heap l ! p)"
  shows "bucket (l\<lparr>rl_heap := (rl_heap l)[p := b]\<rparr>) k' = bucket l k'"
proof -
  have "map_of (rl_clients l) k' \<noteq> Some p" using assms links_lookup [OF assms(1)] by auto
  then show ?thesis by (cases "map_of (rl_clients l) k'") (auto simp: bucket_def)
qed

lemma f64_mult_pos: "Fin 0 < x \<Longrightarrow> Fin 0 < y \<Longrightarrow> Fin 0 \<le> x * (y::f64)"
  by (cases x; cases y) (auto simp: f64_arith_defs inf_of_sign_def intro: f64_of_real_ge [unfolded less_eq_f64_def])

lemma refill_ok:
  assumes "limiter_config l" "bucket_ok l b"
  shows "bucket_ok l (refill l now b)" "cb_key (refill l now b) = cb_key b"
proof -
  define e where "e = duration_seconds (time_sub now (cb_updated b))"
  have "bucket_ok l (b\<lparr>cb_tokens := (if e > 0 then fmin_builtin (rl_burst l) (cb_tokens b + e * rl_rate l) else cb_tokens b)\<rparr>)"
  proof (cases "e > 0")
    case True
    have "Fin 0 \<le> e * rl_rate l" by (rule f64_mult_pos) (use True assms(1) in \<open>simp_all add: f64_zero_fin limiter_config_def\<close>)
    then have y: "Fin 0 \<le> cb_tokens b + e * rl_rate l" using assms(2) by (intro f64_add_nonneg) (simp add: bucket_ok_def)
    obtain B where B: "rl_burst l = Fin B" "1 \<le> B"
      using assms(1) f64_between_Fin [of 1 "rl_burst l"] by (auto simp: limiter_config_def)
    have w: "wf_f64 (cb_tokens b + e * rl_rate l)" "wf_f64 (rl_burst l)" using assms(1) by (simp_all add: limiter_config_def)
    show ?thesis using True y B w by (cases "cb_tokens b + e * rl_rate l") (auto simp: bucket_ok_def fmin_builtin_def)
  qed (use assms(2) in \<open>simp add: bucket_ok_def\<close>)
  then show "bucket_ok l (refill l now b)" unfolding refill_def Let_def e_def [symmetric] by (simp add: bucket_ok_def)
  show "cb_key (refill l now b) = cb_key b" by (simp add: refill_def Let_def)
qed

lemma spend_ok:
  assumes "limiter_config l" "bucket_ok l b" "spend b now = (allowed, kod, b')"
  shows "bucket_ok l b'" "cb_key b' = cb_key b" "cb_lastSeen b' = cb_lastSeen b"
proof -
  have "bucket_ok l (b\<lparr>cb_tokens := cb_tokens b - 1\<rparr>)" if t: "1 \<le> cb_tokens b"
  proof -
    obtain B where B: "rl_burst l = Fin B" using assms(1) f64_between_Fin [of 1 "rl_burst l"] by (auto simp: limiter_config_def)
    obtain r where r: "cb_tokens b = Fin r" "1 \<le> r" "r \<le> B"
      using t assms(2) f64_between_Fin [of 1 "cb_tokens b" B] by (auto simp: bucket_ok_def B f64_one_fin)
    have w: "wf_f64 (Fin r)" using assms(2) r(1) by (simp add: bucket_ok_def)
    have d: "cb_tokens b - 1 = f64_of_real (r - 1)" by (simp add: r(1) f64_one_fin)
    have "Fin 0 \<le> f64_of_real (r - 1)" using r(2) by (intro f64_of_real_ge) simp_all
    moreover have "f64_of_real (r - 1) \<le> Fin r" by (rule f64_of_real_le [OF w]) simp
    then have "f64_of_real (r - 1) \<le> Fin B" using r(3) f64_le_trans [of _ "Fin r" "Fin B"] by simp
    ultimately show ?thesis by (simp add: bucket_ok_def d B)
  qed
  then show "bucket_ok l b'" using assms(2,3) by (auto simp: spend_def bucket_ok_def split: if_splits)
  show "cb_key b' = cb_key b" "cb_lastSeen b' = cb_lastSeen b" using assms(3) by (auto simp: spend_def split: if_splits)
qed

lemma update_new: "k \<notin> fst ` set al \<Longrightarrow> AList.update k v al = al @ [(k, v)]"
  by (induction al) auto

lemma new_bucket_ok:
  assumes "limiter_ok l" "map_of (rl_clients l) k = None" "new_bucket l k now = (l', p)"
  shows "limiter_ok l'" "p \<in> set (rl_lru l')" "rl_heap l' ! p = \<lparr>cb_key = k, cb_tokens = rl_burst l, cb_updated = now, cb_lastSeen = now, cb_lastKoD = zero_time\<rparr>"
    "\<exists>l1. forgets l l1 \<and> rl_lru l' = p # rl_lru l1 \<and> (\<forall>q \<in> set (rl_lru l1). rl_heap l' ! q = rl_heap l ! q) \<and> (\<forall>k'. k' \<noteq> k \<longrightarrow> bucket l' k' = bucket l1 k')"
proof -
  define l1 where "l1 = (if int (limiter_size l) \<ge> rl_maxClients l then evictOldest l else l)"
  define b where "b = \<lparr>cb_key = k, cb_tokens = rl_burst l1, cb_updated = now, cb_lastSeen = now, cb_lastKoD = zero_time\<rparr>"
  have lk: "links_ok l" and cf: "limiter_config l" using assms(1) by (simp_all add: limiter_ok_def)
  have f: "forgets l l1" using evict_forgets [OF lk] forgets_refl [OF lk] by (simp add: l1_def)
  have ok1: "limiter_ok l1" by (rule forgets_ok [OF assms(1) f])
  have lk1: "links_ok l1" using ok1 by (simp add: limiter_ok_def)
  have burst: "rl_burst l1 = rl_burst l" using f by (simp add: forgets_def)
  have p: "p = length (rl_heap l1)"
    and l': "l' = l1\<lparr>rl_heap := rl_heap l1 @ [b], rl_lru := p # rl_lru l1, rl_clients := AList.update k p (rl_clients l1)\<rparr>"
    using assms(3) unfolding new_bucket_def Let_def l1_def [symmetric] b_def by auto
  have room: "int (length (rl_lru l1)) < rl_maxClients l"
  proof (cases "int (limiter_size l) \<ge> rl_maxClients l")
    case True
    then have "rl_lru l \<noteq> []" using cf links_size [OF lk] by (auto simp: limiter_size_def limiter_config_def)
    then have "length (rl_lru l1) = length (rl_lru l) - 1" using True lk
      by (simp add: l1_def evictOldest_def remove_bucket_def remove_last_butlast links_ok_def)
    then show ?thesis using assms(1) \<open>rl_lru l \<noteq> []\<close> by (cases "rl_lru l") (auto simp: limiter_ok_def)
  qed (use links_size [OF lk] in \<open>simp add: l1_def limiter_size_def\<close>)
  have none: "map_of (rl_clients l1) k = None"
  proof -
    have "bucket l k = None" using assms(2) by (simp add: bucket_def)
    moreover have "bucket l1 k = bucket l k \<or> bucket l1 k = None" using f unfolding forgets_def by (elim conjE) (erule allE)
    ultimately show ?thesis by (auto simp: bucket_def)
  qed
  have fresh: "p \<notin> set (rl_lru l1)" using lk1 by (auto simp: links_ok_def p)
  have keys: "\<forall>q \<in> set (rl_lru l1). (rl_heap l1 @ [b]) ! q = rl_heap l1 ! q" using lk1 by (auto simp: links_ok_def nth_append)
  have k: "k \<notin> fst ` set (rl_clients l1)" using none by (simp add: map_of_eq_None_iff)
  note upd = update_new [OF k, of p]
  have pb: "(rl_heap l1 @ [b]) ! p = b" by (simp add: p)
  have img: "(\<lambda>q. (cb_key ((rl_heap l1 @ [b]) ! q), q)) ` set (rl_lru l1) = (\<lambda>q. (cb_key (rl_heap l1 ! q), q)) ` set (rl_lru l1)"
    using keys by (intro image_cong) auto
  have "set (rl_clients l1 @ [(k, p)]) = (\<lambda>q. (cb_key ((rl_heap l1 @ [b]) ! q), q)) ` set (p # rl_lru l1)"
    using lk1 unfolding list.set image_insert img pb by (simp add: links_ok_def b_def)
  moreover have "distinct (map fst (rl_clients l1 @ [(k, p)]))" using lk1 k by (simp add: links_ok_def)
  moreover have "\<forall>q \<in> set (p # rl_lru l1). q < length (rl_heap l1 @ [b])" using lk1 by (auto simp: links_ok_def p)
  moreover have "distinct (p # rl_lru l1)" using lk1 fresh by (simp add: links_ok_def)
  ultimately have "links_ok l'" by (simp add: links_ok_def l' upd)
  moreover have "bucket_ok l' (rl_heap l' ! q)" if "q \<in> set (rl_lru l')" for q
  proof (cases "q = p")
    case True
    have "Fin 0 \<le> rl_burst l1" using cf f64_le_trans [of "Fin 0" "Fin 1" "rl_burst l1"] by (simp add: burst limiter_config_def)
    then show ?thesis using cf True pb by (auto simp: l' bucket_ok_def b_def burst limiter_config_def f64_le_not_NaN)
  next
    case False
    then have "q \<in> set (rl_lru l1)" using that by (simp add: l')
    then show ?thesis using ok1 keys by (simp add: l' limiter_ok_def bucket_ok_def)
  qed
  moreover have "limiter_config l'" using ok1 by (simp add: l' limiter_ok_def limiter_config_def)
  moreover have "rl_maxClients l1 = rl_maxClients l" using f by (simp add: forgets_def)
  ultimately show "limiter_ok l'" using room by (simp add: limiter_ok_def l')
  show "p \<in> set (rl_lru l')" by (simp add: l')
  show "rl_heap l' ! p = \<lparr>cb_key = k, cb_tokens = rl_burst l, cb_updated = now, cb_lastSeen = now, cb_lastKoD = zero_time\<rparr>"
    by (simp add: l' p b_def burst)
  have other: "bucket l' k' = bucket l1 k'" if "k' \<noteq> k" for k'
  proof -
    have "map_of (rl_clients l') k' = map_of (rl_clients l1) k'" using that by (simp add: l' AList.update_conv)
    moreover have "rl_heap l' ! q = rl_heap l1 ! q" if "map_of (rl_clients l1) k' = Some q" for q
      using that keys links_lookup [OF lk1, of k' q] by (simp add: l')
    ultimately show ?thesis by (cases "map_of (rl_clients l1) k'") (simp_all add: bucket_def)
  qed
  have "rl_heap l1 = rl_heap l" using f by (simp add: forgets_def)
  then show "\<exists>l1. forgets l l1 \<and> rl_lru l' = p # rl_lru l1 \<and> (\<forall>q \<in> set (rl_lru l1). rl_heap l' ! q = rl_heap l ! q) \<and> (\<forall>k'. k' \<noteq> k \<longrightarrow> bucket l' k' = bucket l1 k')"
    using f keys other by (intro exI [of _ l1]) (simp add: l')
qed

lemma touch_bucket_ok:
  assumes "limiter_ok l" "map_of (rl_clients l) k = Some p"
  shows "limiter_ok (touch_bucket l p now)" "rl_heap (touch_bucket l p now) ! p = refill l now (rl_heap l ! p)"
    "set (rl_lru (touch_bucket l p now)) = set (rl_lru l)" "k' \<noteq> k \<Longrightarrow> bucket (touch_bucket l p now) k' = bucket l k'"
    "q \<noteq> p \<Longrightarrow> rl_heap (touch_bucket l p now) ! q = rl_heap l ! q"
proof -
  have lk: "links_ok l" using assms(1) by (simp add: limiter_ok_def)
  have p: "p \<in> set (rl_lru l)" "cb_key (rl_heap l ! p) = k" using links_lookup [OF lk] assms(2) by simp_all
  have len: "p < length (rl_heap l)" using lk p(1) by (simp add: links_ok_def)
  have b: "bucket_ok l (refill l now (rl_heap l ! p))" "cb_key (refill l now (rl_heap l ! p)) = cb_key (rl_heap l ! p)"
    using refill_ok [of l "rl_heap l ! p" now] assms(1) p(1) by (simp_all add: limiter_ok_def)
  let ?l = "l\<lparr>rl_heap := (rl_heap l)[p := refill l now (rl_heap l ! p)]\<rparr>"
  have ok: "limiter_ok ?l" by (rule set_heap_ok [OF assms(1) b(2,1)])
  have s: "set (p # remove1 p (rl_lru l)) = set (rl_lru l)" "length (p # remove1 p (rl_lru l)) = length (rl_lru l)"
    "distinct (p # remove1 p (rl_lru l))"
    using p(1) lk by (auto simp: links_ok_def length_remove1) (metis Suc_pred length_pos_if_in_set)?
  show "set (rl_lru (touch_bucket l p now)) = set (rl_lru l)" using s(1) by (simp add: touch_bucket_def)
  have m: "touch_bucket l p now = ?l\<lparr>rl_lru := p # remove1 p (rl_lru l)\<rparr>" by (simp add: touch_bucket_def)
  show "limiter_ok (touch_bucket l p now)"
    using ok s unfolding m limiter_ok_def links_ok_def limiter_config_def bucket_ok_def by simp
  show "rl_heap (touch_bucket l p now) ! p = refill l now (rl_heap l ! p)" using len by (simp add: touch_bucket_def)
  show "q \<noteq> p \<Longrightarrow> rl_heap (touch_bucket l p now) ! q = rl_heap l ! q" by (simp add: touch_bucket_def)
  show "k' \<noteq> k \<Longrightarrow> bucket (touch_bucket l p now) k' = bucket l k'"
    using set_heap_bucket [OF lk p(1), of k' "refill l now (rl_heap l ! p)"] p(2) by (simp add: m bucket_def)
qed

text \<open>One call: the table forgets some buckets, the bucket of the key moves to the front, and the others stay as they were.\<close>

lemma limiter_allow_cases:
  assumes "limiter_ok l" "limiter_allow l k now = (allowed, kod, l')"
  obtains l1 p b where "forgets l l1" "limiter_ok l'" "rl_lru l' = p # remove1 p (rl_lru l1)" "rl_heap l' ! p = b" "cb_key b = k"
    "cb_lastSeen b = now" "\<forall>q \<in> set (rl_lru l1). q \<noteq> p \<longrightarrow> rl_heap l' ! q = rl_heap l ! q"
    "\<forall>k'. k' \<noteq> k \<longrightarrow> bucket l' k' = bucket l1 k'" "bucket l' k = Some b" "forgets (expire l now) l1"
proof -
  define e where "e = expire l now"
  have lk: "links_ok l" using assms(1) by (simp add: limiter_ok_def)
  have fe: "forgets l e" unfolding e_def by (rule expire_forgets [OF lk])
  have oke: "limiter_ok e" by (rule forgets_ok [OF assms(1) fe])
  have he: "rl_heap e = rl_heap l" using fe by (simp add: forgets_def)
  define m where "m = (case map_of (rl_clients e) k of None \<Rightarrow> new_bucket e k now | Some p \<Rightarrow> (touch_bucket e p now, p))"
  obtain l2 p where mp: "m = (l2, p)" by (cases m)
  obtain al kd b where sp: "spend (rl_heap l2 ! p) now = (al, kd, b)" by (cases "spend (rl_heap l2 ! p) now")
  have l': "l' = l2\<lparr>rl_heap := (rl_heap l2)[p := b]\<rparr>"
    using assms(2) unfolding limiter_allow_def Let_def e_def [symmetric] m_def [symmetric] mp prod.case sp by simp
  have "\<exists>l1. forgets e l1 \<and> limiter_ok l2 \<and> p \<in> set (rl_lru l2) \<and> rl_lru l2 = p # remove1 p (rl_lru l1) \<and>
      cb_key (rl_heap l2 ! p) = k \<and> cb_lastSeen (rl_heap l2 ! p) = now \<and>
      (\<forall>q \<in> set (rl_lru l1). q \<noteq> p \<longrightarrow> rl_heap l2 ! q = rl_heap e ! q) \<and> (\<forall>k'. k' \<noteq> k \<longrightarrow> bucket l2 k' = bucket l1 k')"
  proof (cases "map_of (rl_clients e) k")
    case None
    then have nb: "new_bucket e k now = (l2, p)" using mp by (simp add: m_def)
    note n = new_bucket_ok [OF oke None nb]
    from n(4) obtain l1 where l1: "forgets e l1" "rl_lru l2 = p # rl_lru l1" "\<forall>q \<in> set (rl_lru l1). rl_heap l2 ! q = rl_heap e ! q"
      "\<forall>k'. k' \<noteq> k \<longrightarrow> bucket l2 k' = bucket l1 k'" by blast
    have "p \<notin> set (rl_lru l1)" using n(1) l1(2) by (auto simp: limiter_ok_def links_ok_def)
    then have "rl_lru l2 = p # remove1 p (rl_lru l1)" using l1(2) by (simp add: remove1_idem)
    then show ?thesis using l1 n(1-3) by (intro exI [of _ l1]) simp
  next
    case (Some p')
    then have t: "l2 = touch_bucket e p now" "p' = p" using mp by (auto simp: m_def)
    note k = touch_bucket_ok [OF oke Some [unfolded t(2)], where now = now]
    have "links_ok e" using oke by (simp add: limiter_ok_def)
    then have p: "p \<in> set (rl_lru e)" "cb_key (rl_heap e ! p) = k" using links_lookup Some t(2) by simp_all
    then show ?thesis using k forgets_refl [OF \<open>links_ok e\<close>] unfolding t(1)
      by (intro exI [of _ e]) (simp add: touch_bucket_def refill_def Let_def)
  qed
  then obtain l1 where l1: "forgets e l1" "limiter_ok l2" "p \<in> set (rl_lru l2)" "rl_lru l2 = p # remove1 p (rl_lru l1)"
    "cb_key (rl_heap l2 ! p) = k" "cb_lastSeen (rl_heap l2 ! p) = now"
    "\<forall>q \<in> set (rl_lru l1). q \<noteq> p \<longrightarrow> rl_heap l2 ! q = rl_heap e ! q" "\<forall>k'. k' \<noteq> k \<longrightarrow> bucket l2 k' = bucket l1 k'" by blast
  have lk2: "links_ok l2" and len: "p < length (rl_heap l2)" using l1(2,3) by (simp_all add: limiter_ok_def links_ok_def)
  have bo: "bucket_ok l2 (rl_heap l2 ! p)" "limiter_config l2" using l1(2,3) by (simp_all add: limiter_ok_def)
  note s = spend_ok [OF bo(2,1) sp]
  have ok': "limiter_ok l'" unfolding l' by (rule set_heap_ok [OF l1(2) s(2,1)])
  have hp: "rl_heap l' ! p = b" using len by (simp add: l')
  have bk: "bucket l' k = Some b"
    using links_lookup [OF lk2, of k p] l1(3,5) hp by (simp add: bucket_def l')
  have other: "bucket l' k' = bucket l1 k'" if "k' \<noteq> k" for k'
    using set_heap_bucket [OF lk2 l1(3), of k' b] l1(5,8) that by (simp add: l')
  show ?thesis
    by (rule that [OF forgets_trans [OF fe l1(1)] ok' _ hp])
      (use l1 s bk other he in \<open>simp_all add: l' e_def\<close>)
qed

section \<open>Runs\<close>

definition limiter_run :: "rate_limiter \<Rightarrow> (bucket_key \<times> gtime) list \<Rightarrow> rate_limiter" where
  "limiter_run l ops = foldl (\<lambda>l (k, now). snd (snd (limiter_allow l k now))) l ops"

definition limiter_fresh :: "rate_limiter \<Rightarrow> gtime \<Rightarrow> bool" where
  \<comment> \<open>the list is in the order of the last requests, none of them later than the time\<close>
  "limiter_fresh l t \<longleftrightarrow> sorted_wrt (\<lambda>p q. cb_lastSeen (rl_heap l ! q) \<le> cb_lastSeen (rl_heap l ! p)) (rl_lru l) \<and>
     (\<forall>p \<in> set (rl_lru l). cb_lastSeen (rl_heap l ! p) \<le> t)"

lemma expire_last:
  "links_ok l \<Longrightarrow> rl_lru (expire l now) \<noteq> [] \<Longrightarrow>
   time_sub now (cb_lastSeen (rl_heap (expire l now) ! last (rl_lru (expire l now)))) \<le> clientIdleExpiry"
proof (induction l now rule: expire.induct)
  case (1 l now)
  let ?p = "last (rl_lru l)"
  show ?case
  proof (cases "rl_lru l \<noteq> [] \<and> \<not> time_sub now (cb_lastSeen (rl_heap l ! ?p)) \<le> clientIdleExpiry")
    case True
    then have e: "expire l now = expire (remove_bucket l ?p) now" by (subst expire.simps) (simp add: Let_def)
    have "links_ok (remove_bucket l ?p)" using remove_bucket_links [OF 1(2)] True by simp
    then show ?thesis using 1(1) [OF _ refl] True 1(3) unfolding e by simp
  next
    case False
    then have "expire l now = l" by (subst expire.simps) (auto simp: Let_def)
    then show ?thesis using False 1(3) by simp
  qed
qed

lemma sorted_take_fresh: "sorted_wrt P xs \<Longrightarrow> sorted_wrt P (take n xs)"
  by (metis append_take_drop_id sorted_wrt_append)

lemma forgets_fresh: "limiter_fresh l t \<Longrightarrow> forgets l l' \<Longrightarrow> t \<le> t' \<Longrightarrow> limiter_fresh l' t'"
  using forgets_lru(1) [of l l'] by (force simp: limiter_fresh_def forgets_def intro: sorted_take_fresh)

lemma sorted_last_least: "sorted_wrt (\<lambda>p q. f q \<le> f p) xs \<Longrightarrow> p \<in> set xs \<Longrightarrow> f (last xs) \<le> (f p :: int)"
  by (induction xs) auto

lemma expire_fresh:
  assumes "links_ok l" "limiter_fresh l t" "t \<le> now" "p \<in> set (rl_lru (expire l now))"
  shows "now - clientIdleExpiry \<le> cb_lastSeen (rl_heap l ! p)"
proof -
  let ?e = "expire l now"
  note f = expire_forgets [OF assms(1), of now]
  have h: "rl_heap ?e = rl_heap l" using f by (simp add: forgets_def)
  have "limiter_fresh ?e now" by (rule forgets_fresh [OF assms(2) f assms(3)])
  then have "cb_lastSeen (rl_heap l ! last (rl_lru ?e)) \<le> cb_lastSeen (rl_heap l ! p)"
    using sorted_last_least [of "\<lambda>p. cb_lastSeen (rl_heap l ! p)"] assms(4) by (simp add: limiter_fresh_def h)
  moreover have "time_sub now (cb_lastSeen (rl_heap l ! last (rl_lru ?e))) \<le> clientIdleExpiry"
    using expire_last [OF assms(1), of now] assms(4) h by force
  ultimately show ?thesis by (simp add: time_sub_le_iff)
qed

definition same_config :: "rate_limiter \<Rightarrow> rate_limiter \<Rightarrow> bool" where
  "same_config l l' \<longleftrightarrow> rl_rate l' = rl_rate l \<and> rl_burst l' = rl_burst l \<and> rl_maxClients l' = rl_maxClients l \<and> rl_v6Prefix l' = rl_v6Prefix l"

lemma limiter_allow_config:
  assumes "links_ok l" "limiter_allow l k now = (allowed, kod, l')"
  shows "same_config l l'"
proof -
  have e: "same_config l (expire l now)" using expire_forgets [OF assms(1), of now] by (simp add: forgets_def same_config_def)
  have n: "same_config e (fst (new_bucket e k now))" for e
    by (simp add: new_bucket_def Let_def evictOldest_def remove_bucket_def same_config_def)
  have t: "same_config e (touch_bucket e p now)" for e p by (simp add: touch_bucket_def same_config_def)
  define m where "m = (case map_of (rl_clients (expire l now)) k of None \<Rightarrow> new_bucket (expire l now) k now
     | Some p \<Rightarrow> (touch_bucket (expire l now) p now, p))"
  have "same_config (expire l now) (fst m)"
    unfolding m_def using n t by (cases "map_of (rl_clients (expire l now)) k") simp_all
  moreover obtain l2 p where mp: "m = (l2, p)" by (cases m)
  moreover obtain al kd b where sp: "spend (rl_heap l2 ! p) now = (al, kd, b)" by (cases "spend (rl_heap l2 ! p) now")
  moreover have "l' = l2\<lparr>rl_heap := (rl_heap l2)[p := b]\<rparr>"
    using assms(2) unfolding limiter_allow_def Let_def m_def [symmetric] mp prod.case sp by simp
  ultimately show ?thesis using e by (simp add: same_config_def)
qed

lemma limiter_allow_fresh:
  assumes "limiter_ok l" "limiter_fresh l t" "t \<le> now" "limiter_allow l k now = (allowed, kod, l')"
  shows "limiter_ok l'" "limiter_fresh l' now" "\<forall>p \<in> set (rl_lru l'). now - clientIdleExpiry \<le> cb_lastSeen (rl_heap l' ! p)"
proof -
  have lk: "links_ok l" using assms(1) by (simp add: limiter_ok_def)
  obtain l1 p b where c: "forgets l l1" "limiter_ok l'" "rl_lru l' = p # remove1 p (rl_lru l1)"
    "rl_heap l' ! p = b" "cb_lastSeen b = now" "\<forall>q \<in> set (rl_lru l1). q \<noteq> p \<longrightarrow> rl_heap l' ! q = rl_heap l ! q" "forgets (expire l now) l1"
    by (rule limiter_allow_cases [OF assms(1,4)])
  show "limiter_ok l'" by (rule c(2))
  have h1: "rl_heap l1 = rl_heap l" using c(1) by (simp add: forgets_def)
  have f1: "limiter_fresh l1 now" by (rule forgets_fresh [OF assms(2) c(1) assms(3)])
  have d: "distinct (rl_lru l1)" using c(1) by (simp add: forgets_def links_ok_def)
  then have rest: "set (remove1 p (rl_lru l1)) = set (rl_lru l1) - {p}" by simp
  have seen: "cb_lastSeen (rl_heap l' ! q) = cb_lastSeen (rl_heap l ! q)" if "q \<in> set (remove1 p (rl_lru l1))" for q
    using c(6) that rest by simp
  have "sorted_wrt (\<lambda>p q. cb_lastSeen (rl_heap l ! q) \<le> cb_lastSeen (rl_heap l ! p)) (remove1 p (rl_lru l1))"
    using f1 d by (simp add: limiter_fresh_def h1 distinct_remove1_removeAll sorted_wrt_filter removeAll_filter_not_eq)
  then have "sorted_wrt (\<lambda>p q. cb_lastSeen (rl_heap l' ! q) \<le> cb_lastSeen (rl_heap l' ! p)) (remove1 p (rl_lru l1))"
    using seen by (auto intro: sorted_wrt_mono_rel [rotated])
  moreover have "\<forall>q \<in> set (remove1 p (rl_lru l1)). cb_lastSeen (rl_heap l' ! q) \<le> now"
    using f1 seen rest by (simp add: limiter_fresh_def h1)
  ultimately show "limiter_fresh l' now" using c(3-5) by (simp add: limiter_fresh_def)
  have "now - clientIdleExpiry \<le> cb_lastSeen (rl_heap l' ! q)" if "q \<in> set (remove1 p (rl_lru l1))" for q
    using expire_fresh [OF lk assms(2,3), of q] forgets_lru(1) [OF c(7)] seen [OF that] that rest by auto
  then show "\<forall>p \<in> set (rl_lru l'). now - clientIdleExpiry \<le> cb_lastSeen (rl_heap l' ! p)" using c(3-5) by simp
qed

lemma new_limiter_ok:
  assumes "wf_f64 rate" "Fin 0 < rate" "rate \<le> maxRateLimit" "wf_f64 burst" "Fin 1 \<le> burst" "burst \<le> maxRateLimit"
  shows "limiter_ok (newRateLimiter rate burst n v6)" "limiter_fresh (newRateLimiter rate burst n v6) t"
  using assms by (simp_all add: limiter_ok_def links_ok_def limiter_config_def newRateLimiter_def limiter_fresh_def)

lemma limiter_run_snoc: "limiter_run l (ops @ [(k, now)]) = snd (snd (limiter_allow (limiter_run l ops) k now))"
  by (simp add: limiter_run_def)

lemma limiter_run_ok:
  assumes "limiter_ok l" "limiter_fresh l (hd (map snd ops))" "sorted (map snd ops)"
  shows "limiter_ok (limiter_run l ops) \<and> same_config l (limiter_run l ops) \<and>
    (ops \<noteq> [] \<longrightarrow> limiter_fresh (limiter_run l ops) (last (map snd ops)) \<and>
      (\<forall>p \<in> set (rl_lru (limiter_run l ops)). last (map snd ops) - clientIdleExpiry \<le> cb_lastSeen (rl_heap (limiter_run l ops) ! p)))"
  using assms(2,3)
proof (induction ops rule: rev_induct)
  case Nil
  then show ?case using assms(1) by (simp add: limiter_run_def same_config_def)
next
  case (snoc op ops)
  obtain k now where op: "op = (k, now)" by (cases op)
  define r where "r = limiter_run l ops"
  obtain a s r' where al: "limiter_allow r k now = (a, s, r')" by (cases "limiter_allow r k now") auto
  have IH: "limiter_ok r \<and> same_config l r \<and> (ops \<noteq> [] \<longrightarrow> limiter_fresh r (last (map snd ops)))"
  proof (cases "ops = []")
    case True
    then show ?thesis using assms(1) by (simp add: r_def limiter_run_def same_config_def)
  next
    case False
    then show ?thesis using snoc.IH snoc.prems by (simp add: r_def sorted_append hd_append)
  qed
  have "\<exists>t. t \<le> now \<and> limiter_fresh r t"
  proof (cases "ops = []")
    case True
    then show ?thesis using snoc.prems(1) op by (auto simp: r_def limiter_run_def)
  next
    case False
    then show ?thesis using IH snoc.prems(2) op by (intro exI [of _ "last (map snd ops)"]) (simp add: sorted_append last_map)
  qed
  then obtain t where t: "t \<le> now" "limiter_fresh r t" by blast
  have okr: "limiter_ok r" using IH by simp
  note st = limiter_allow_fresh [OF okr t(2,1) al]
  have "same_config r r'" using limiter_allow_config [OF _ al] okr by (simp add: limiter_ok_def)
  then have "same_config l r'" using IH by (simp add: same_config_def)
  moreover have "limiter_run l (ops @ [op]) = r'" using al by (simp add: op limiter_run_snoc r_def)
  ultimately show ?case using st by (simp add: op)
qed

lemma limiter_ok_bucket:
  assumes "limiter_ok l" "bucket l k = Some b"
  shows "cb_key b = k" "bucket_ok l b" "\<exists>p \<in> set (rl_lru l). b = rl_heap l ! p"
proof -
  obtain p where p: "map_of (rl_clients l) k = Some p" "b = rl_heap l ! p" using assms(2) by (auto simp: bucket_def)
  then show "cb_key b = k" "bucket_ok l b" "\<exists>p \<in> set (rl_lru l). b = rl_heap l ! p"
    using assms(1) links_lookup [of l k p] by (auto simp: limiter_ok_def)
qed

lemma limiter_allow_other:
  assumes "limiter_ok l" "limiter_allow l k now = (allowed, kod, l')" "k' \<noteq> k"
  shows "bucket l' k' = bucket l k' \<or> bucket l' k' = None"
proof -
  obtain l1 where f: "forgets l l1" and b: "\<forall>k'. k' \<noteq> k \<longrightarrow> bucket l' k' = bucket l1 k'"
    by (rule limiter_allow_cases [OF assms(1,2)])
  have "bucket l1 k' = bucket l k' \<or> bucket l1 k' = None" using f unfolding forgets_def by (elim conjE) (erule allE)
  then show ?thesis using b assms(3) by simp
qed

section \<open>What the table promises its clients\<close>

locale bucket_table =
  fixes allow :: "'l \<Rightarrow> 'k \<Rightarrow> gtime \<Rightarrow> bool \<times> bool \<times> 'l"
    and table_ok :: "'l \<Rightarrow> bool"
    and look :: "'l \<Rightarrow> 'k \<Rightarrow> 'b option"
  assumes allow_keeps: "table_ok l \<Longrightarrow> table_ok (snd (snd (allow l k now)))"
    and allow_frame: "table_ok l \<Longrightarrow> k' \<noteq> k \<Longrightarrow>
      look (snd (snd (allow l k now))) k' = look l k' \<or> look (snd (snd (allow l k now))) k' = None"
begin

lemma run_keeps: "table_ok l \<Longrightarrow> table_ok (foldl (\<lambda>l (k, now). snd (snd (allow l k now))) l ops)"
  by (induction ops arbitrary: l) (auto simp: allow_keeps)

text \<open>Requests on other keys leave a bucket alone, or make the table forget it.\<close>

lemma run_frame:
  "table_ok l \<Longrightarrow> k' \<notin> fst ` set ops \<Longrightarrow>
   look (foldl (\<lambda>l (k, now). snd (snd (allow l k now))) l ops) k' = look l k' \<or>
   look (foldl (\<lambda>l (k, now). snd (snd (allow l k now))) l ops) k' = None"
proof (induction ops rule: rev_induct)
  case (snoc op ops)
  define r where "r = foldl (\<lambda>l (k, now). snd (snd (allow l k now))) l ops"
  have "table_ok r" unfolding r_def by (rule run_keeps [OF snoc.prems(1)])
  then have "look (snd (snd (allow r (fst op) (snd op)))) k' = look r k' \<or> look (snd (snd (allow r (fst op) (snd op)))) k' = None"
    using snoc.prems(2) by (intro allow_frame) auto
  moreover have "look r k' = look l k' \<or> look r k' = None" unfolding r_def using snoc by simp
  moreover have "foldl (\<lambda>l (k, now). snd (snd (allow l k now))) l (ops @ [op]) = snd (snd (allow r (fst op) (snd op)))"
    by (simp add: r_def split: prod.split)
  ultimately show ?case by auto
qed simp

end

interpretation lim: bucket_table limiter_allow limiter_ok bucket
proof
  fix l k and now :: gtime
  assume ok: "limiter_ok l"
  obtain a s l' where al: "limiter_allow l k now = (a, s, l')" by (cases "limiter_allow l k now") auto
  show "limiter_ok (snd (snd (limiter_allow l k now)))"
    using limiter_allow_cases [OF ok al] al by (metis snd_conv)
  show "k' \<noteq> k \<Longrightarrow> bucket (snd (snd (limiter_allow l k now))) k' = bucket l k' \<or> bucket (snd (snd (limiter_allow l k now))) k' = None" for k'
    using limiter_allow_other [OF ok al] al by simp
qed

section \<open>Properties\<close>

text \<open>C21: Whatever requests arrive, in the order of a clock that does not go back, the table never holds more clients than the
  limit; every bucket is filed under its own key, holds between no tokens and the burst, and belongs to a
  client seen in the last minute.\<close>
theorem limiter_bounded:
  assumes "wf_f64 rate" "Fin 0 < rate" "rate \<le> maxRateLimit" "wf_f64 burst" "Fin 1 \<le> burst" "burst \<le> maxRateLimit"
    "0 < maxClients" "sorted (map snd ops)" and l_def: "l = limiter_run (newRateLimiter rate burst maxClients v6Prefix) ops"
  shows "int (limiter_size l) \<le> maxClients \<and>
    (\<forall>k b. bucket l k = Some b \<longrightarrow> cb_key b = k \<and> Fin 0 \<le> cb_tokens b \<and> cb_tokens b \<le> burst \<and>
      snd (last ops) - cb_lastSeen b \<le> clientIdleExpiry)"
proof -
  let ?n = "newRateLimiter rate burst maxClients v6Prefix"
  note n = new_limiter_ok [OF assms(1-6), of maxClients v6Prefix]
  have r: "limiter_ok l" "same_config ?n l"
    and fresh: "ops \<noteq> [] \<longrightarrow> (\<forall>p \<in> set (rl_lru l). last (map snd ops) - clientIdleExpiry \<le> cb_lastSeen (rl_heap l ! p))"
    using limiter_run_ok [OF n assms(8)] by (simp_all add: l_def)
  have mx: "rl_maxClients l = maxClients" "rl_burst l = burst"
    using r(2) assms(7) by (simp_all add: same_config_def newRateLimiter_def)
  have lk: "links_ok l" using r(1) by (simp add: limiter_ok_def)
  have "int (limiter_size l) \<le> maxClients"
    using r(1) mx(1) links_size [OF lk] by (simp add: limiter_ok_def limiter_size_def)
  moreover have "cb_key b = k \<and> Fin 0 \<le> cb_tokens b \<and> cb_tokens b \<le> burst \<and> snd (last ops) - cb_lastSeen b \<le> clientIdleExpiry"
    if b: "bucket l k = Some b" for k b
  proof -
    note p = limiter_ok_bucket [OF r(1) b]
    have "ops \<noteq> []"
    proof
      assume "ops = []"
      then show False using b by (simp add: l_def limiter_run_def newRateLimiter_def bucket_def)
    qed
    then have "snd (last ops) - clientIdleExpiry \<le> cb_lastSeen b" using fresh p(3) by (auto simp: last_map)
    then show ?thesis using p(1,2) mx(2) by (simp add: bucket_ok_def)
  qed
  ultimately show ?thesis by blast
qed

definition sample_bucket_key :: bucket_key where
  "sample_bucket_key = \<lparr>bk_addr = Addr4 0x7f000001, bk_keyID = 0, bk_space = spaceService\<rparr>"

theorem limiter_bounded_witness:
  "int (limiter_size (limiter_run (newRateLimiter (Fin 1) (Fin 8) 2 64) [(sample_bucket_key, 5), (sample_bucket_key, 7)])) \<le> 2"
proof -
  have w: "wf_f64 (Fin 1)" "wf_f64 (Fin 8)" using wf_f64_int [of 1] wf_f64_int [of 8] by simp_all
  show ?thesis
    using limiter_bounded [OF w(1) _ _ w(2) _ _ _ _ refl, of 2 "[(sample_bucket_key, 5), (sample_bucket_key, 7)]" 64] by simp
qed

end
