(* ===== verification/Go_Calendar.thy ===== *)
theory Go_Calendar
  imports Go_Std
begin

text \<open>
  The civil calendar of Go's package \<^verbatim>\<open>time\<close> in UTC: the day number of a date, the date of a day number
  by cutting off cycles of 400, 100, 4 and 1 years, and the clock within a day.
\<close>

definition is_leap_year :: "int \<Rightarrow> bool" where
  "is_leap_year y \<longleftrightarrow> y mod 4 = 0 \<and> (y mod 100 \<noteq> 0 \<or> y mod 400 = 0)"

definition days_before_month :: "int list" where
  \<comment> \<open>in a year that is not a leap year\<close>
  "days_before_month = [0, 31, 59, 90, 120, 151, 181, 212, 243, 273, 304, 334]"

definition days_before_year :: "int \<Rightarrow> int" where
  \<comment> \<open>days from 1 January of the year 1\<close>
  "days_before_year y = 365 * (y - 1) + (y - 1) div 4 - (y - 1) div 100 + (y - 1) div 400"

definition year_day :: "int \<Rightarrow> nat \<Rightarrow> int \<Rightarrow> int" where
  \<comment> \<open>days from the start of the year\<close>
  "year_day y m d = days_before_month ! (m - 1) + (if is_leap_year y \<and> m > 2 then 1 else 0) + d - 1"

definition day_number :: "int \<Rightarrow> nat \<Rightarrow> int \<Rightarrow> int" where
  "day_number y m d = days_before_year y + year_day y m d"

definition unix_epoch_day :: int where
  "unix_epoch_day = 719162"

definition days_in_month :: "int \<Rightarrow> nat \<Rightarrow> int" where
  "days_in_month y m =
     [31, if is_leap_year y then 29 else 28, 31, 30, 31, 30, 31, 31, 30, 31, 30, 31] ! (m - 1)"

definition year_of_day :: "int \<Rightarrow> int \<times> int" where
  \<comment> \<open>the year and the day within it\<close>
  "year_of_day n =
     (let n400 = n div 146097; r400 = n mod 146097;
          n100 = min 3 (r400 div 36524); r100 = r400 - 36524 * n100;
          n4 = r100 div 1461; r4 = r100 mod 1461;
          n1 = min 3 (r4 div 365)
      in (400 * n400 + 100 * n100 + 4 * n4 + n1 + 1, r4 - 365 * n1))"

definition month_of_day :: "int \<Rightarrow> int \<Rightarrow> nat \<times> int" where
  \<comment> \<open>month and day of the month\<close>
  "month_of_day y yd =
     (let starts = map (\<lambda>m. year_day y m 1) [1, 2, 3, 4, 5, 6, 7, 8, 9, 10, 11, 12];
          m = length (takeWhile (\<lambda>s. s \<le> yd) starts)
      in (m, yd - year_day y m 1 + 1))"

definition time_day :: "gtime \<Rightarrow> int" where
  "time_day t = time_unix t div 86400 + unix_epoch_day"

definition time_clock :: "gtime \<Rightarrow> int" where
  \<comment> \<open>seconds since midnight\<close>
  "time_clock t = time_unix t mod 86400"

definition time_date :: "gtime \<Rightarrow> int \<times> nat \<times> int" where
  "time_date t = (let (y, yd) = year_of_day (time_day t); (m, d) = month_of_day y yd in (y, m, d))"

definition time_of_date :: "int \<Rightarrow> nat \<Rightarrow> int \<Rightarrow> int \<Rightarrow> int \<Rightarrow> gtime" where
  \<comment> \<open>\<^verbatim>\<open>time.Date(y, m, d, 0, 0, sec, nsec, time.UTC)\<close> for a month from 1 to 12\<close>
  "time_of_date y m d sec nsec = time_of_unix ((day_number y m d - unix_epoch_day) * 86400 + sec) nsec"

lemmas calendar_eval = time_date_def time_clock_def time_day_def year_of_day_def month_of_day_def year_day_def
  days_before_month_def is_leap_year_def unix_epoch_day_def time_unix_def

lemma epoch_day: "day_number 1970 1 1 = unix_epoch_day"
  by (simp add: day_number_def days_before_year_def year_day_def days_before_month_def is_leap_year_def unix_epoch_day_def)

section \<open>Dates and day numbers\<close>

lemma div_mod_cycle: "0 \<le> r \<Longrightarrow> r < k \<Longrightarrow> (k * q + r) div k = q \<and> (k * q + r) mod k = r" for k :: int
  by simp

lemma year_of_day_cycles:
  assumes "0 \<le> b" "b \<le> 3" "0 \<le> c" "c \<le> 24" "0 \<le> e" "e \<le> 3" "0 \<le> yd"
    and "yd < 365 \<or> (yd = 365 \<and> e = 3 \<and> (c < 24 \<or> b = 3))"
  shows "year_of_day (146097 * a + (36524 * b + (1461 * c + (365 * e + yd)))) = (400 * a + 100 * b + 4 * c + e + 1, yd)"
proof -
  let ?r1 = "365 * e + yd"
  let ?r4 = "1461 * c + ?r1"
  let ?r100 = "36524 * b + ?r4"
  have r1: "0 \<le> ?r1" "?r1 < 1461" using assms by auto
  have r4: "0 \<le> ?r4" "?r4 \<le> 36524" "?r4 < 36524 \<or> b = 3" using assms by auto
  have r100: "0 \<le> ?r100" "?r100 < 146097" using assms r4 by auto
  have 400: "(146097 * a + ?r100) div 146097 = a" "(146097 * a + ?r100) mod 146097 = ?r100"
    using div_mod_cycle [OF r100] by blast+
  have 100: "min 3 (?r100 div 36524) = b"
  proof (cases "?r4 < 36524")
    case True
    then show ?thesis using div_mod_cycle [of ?r4 36524 b] r4(1) assms(2) by simp
  next
    case False
    then have "?r4 = 36524" "b = 3" using r4 by auto
    then show ?thesis by simp
  qed
  have 4: "?r4 div 1461 = c" "?r4 mod 1461 = ?r1" using div_mod_cycle [OF r1] by blast+
  have 1: "min 3 (?r1 div 365) = e"
  proof (cases "yd < 365")
    case True
    then show ?thesis using div_mod_cycle [of yd 365 e] assms by simp
  next
    case False
    then have "yd = 365" "e = 3" using assms by auto
    then show ?thesis by simp
  qed
  have "year_of_day (146097 * a + ?r100) = (400 * a + 100 * b + 4 * c + e + 1, ?r1 - 365 * e)"
    unfolding year_of_day_def Let_def 400 100 using 4 1 by simp
  then show ?thesis by simp
qed

lemma year_cycles:
  fixes y :: int
  obtains a b c e where "y = 400 * a + 100 * b + 4 * c + e" "0 \<le> b" "b \<le> 3" "0 \<le> c" "c \<le> 24" "0 \<le> e" "e \<le> 3"
proof -
  define r where "r = y mod 400"
  define s where "s = r mod 100"
  have r: "0 \<le> r" "r < 400" "y = 400 * (y div 400) + r" by (simp_all add: r_def)
  have s: "0 \<le> s" "s < 100" "r = 100 * (r div 100) + s" by (simp_all add: s_def)
  have "y = 400 * (y div 400) + 100 * (r div 100) + 4 * (s div 4) + s mod 4" using r(3) s(3) by simp
  moreover have "0 \<le> r div 100" "r div 100 \<le> 3" "0 \<le> s div 4" "s div 4 \<le> 24" "0 \<le> s mod 4" "s mod 4 \<le> 3"
    using r s by linarith+
  ultimately show thesis by (rule that)
qed

lemma leap_year_cycles:
  assumes "0 \<le> b" "b \<le> 3" "0 \<le> c" "c \<le> 24" "0 \<le> e" "e \<le> 3"
  shows "is_leap_year (400 * a + 100 * b + 4 * c + e + 1) \<longleftrightarrow> e = 3 \<and> (c < 24 \<or> b = 3)"
proof -
  have "400 * a + 100 * b + 4 * c + e + 1 = e + 1 + 4 * (100 * a + 25 * b + c)" by simp
  then have 4: "(400 * a + 100 * b + 4 * c + e + 1) mod 4 = (e + 1) mod 4" by (metis mod_mult_self2)
  show ?thesis
  proof (cases "e = 3")
    case False
    then show ?thesis using 4 assms by (auto simp: is_leap_year_def)
  next
    case True
    have "400 * a + 100 * b + 4 * c + e + 1 = 4 * (c + 1) + 100 * (4 * a + b)" using True by simp
    then have "(400 * a + 100 * b + 4 * c + e + 1) mod 100 = (4 * (c + 1)) mod 100" by (metis mod_mult_self2)
    moreover have "(4 * (c + 1)) mod 100 = 0 \<longleftrightarrow> c = 24"
    proof (cases "c = 24")
      case False
      then have "4 * (c + 1) mod 100 = 4 * (c + 1)" using assms by (intro mod_pos_pos_trivial) auto
      then show ?thesis using False assms by simp
    qed simp
    ultimately have 100: "(400 * a + 100 * b + 4 * c + e + 1) mod 100 = 0 \<longleftrightarrow> c = 24" by simp
    have 400: "(400 * a + 100 * b + 4 * c + e + 1) mod 400 = 0 \<longleftrightarrow> b = 3" if "c = 24"
    proof -
      have "400 * a + 100 * b + 4 * c + e + 1 = 400 * a + 100 * (b + 1)" using True that by simp
      then have "(400 * a + 100 * b + 4 * c + e + 1) mod 400 = 100 * (b + 1) mod 400" by (metis add.commute mod_mult_self2)
      moreover have "100 * (b + 1) mod 400 = 0 \<longleftrightarrow> b = 3"
      proof (cases "b = 3")
        case False
        then have "100 * (b + 1) mod 400 = 100 * (b + 1)" using assms by (intro mod_pos_pos_trivial) auto
        then show ?thesis using False assms by simp
      qed simp
      ultimately show ?thesis by simp
    qed
    show ?thesis using 4 100 400 True assms by (auto simp: is_leap_year_def)
  qed
qed

lemma year_of_day_number:
  assumes "0 \<le> yd" "yd < 365 + (if is_leap_year y then 1 else 0)"
  shows "year_of_day (days_before_year y + yd) = (y, yd)"
proof -
  obtain a b c e where y: "y - 1 = 400 * a + 100 * b + 4 * c + e"
    and r: "0 \<le> b" "b \<le> 3" "0 \<le> c" "c \<le> 24" "0 \<le> e" "e \<le> 3" using year_cycles .
  have y': "y = 400 * a + 100 * b + 4 * c + e + 1" using y by simp
  have d4: "(y - 1) div 4 = 100 * a + 25 * b + c" 
  proof -
    have "400 * a + 100 * b + 4 * c + e = 4 * (100 * a + 25 * b + c) + e" by simp
    then show ?thesis unfolding y using div_mod_cycle [of e 4 "100 * a + 25 * b + c"] r by simp
  qed
  have d100: "(y - 1) div 100 = 4 * a + b"
  proof -
    have "400 * a + 100 * b + 4 * c + e = 100 * (4 * a + b) + (4 * c + e)" by simp
    then show ?thesis unfolding y using div_mod_cycle [of "4 * c + e" 100 "4 * a + b"] r by simp
  qed
  have d400: "(y - 1) div 400 = a"
  proof -
    have "400 * a + 100 * b + 4 * c + e = 400 * a + (100 * b + 4 * c + e)" by simp
    then show ?thesis unfolding y using div_mod_cycle [of "100 * b + 4 * c + e" 400 a] r by simp
  qed
  have eq: "days_before_year y + yd = 146097 * a + (36524 * b + (1461 * c + (365 * e + yd)))"
    unfolding days_before_year_def d4 d100 d400 unfolding y by simp
  have "yd < 365 \<or> (yd = 365 \<and> e = 3 \<and> (c < 24 \<or> b = 3))"
    using assms(2) leap_year_cycles [OF r, of a] unfolding y' by (auto split: if_splits)
  from year_of_day_cycles [OF r assms(1) this, of a] show ?thesis unfolding eq unfolding y' .
qed

lemma month_cases:
  assumes "1 \<le> (m::nat)" "m \<le> 12"
  obtains "m = 1" | "m = 2" | "m = 3" | "m = 4" | "m = 5" | "m = 6" | "m = 7" | "m = 8" | "m = 9" | "m = 10" | "m = 11" | "m = 12"
proof -
  have "m = 1 \<or> m = 2 \<or> m = 3 \<or> m = 4 \<or> m = 5 \<or> m = 6 \<or> m = 7 \<or> m = 8 \<or> m = 9 \<or> m = 10 \<or> m = 11 \<or> m = 12"
    using assms by arith
  then show thesis using that by blast
qed

definition valid_date :: "int \<Rightarrow> nat \<Rightarrow> int \<Rightarrow> bool" where
  "valid_date y m d \<longleftrightarrow> 1 \<le> m \<and> m \<le> 12 \<and> 1 \<le> d \<and> d \<le> days_in_month y m"

lemma month_of_year_day:
  assumes "valid_date y m d"
  shows "month_of_day y (year_day y m d) = (m, d)" "0 \<le> year_day y m d"
    "year_day y m d < 365 + (if is_leap_year y then 1 else 0)"
proof -
  have m: "1 \<le> m" "m \<le> 12" and d: "1 \<le> d" "d \<le> days_in_month y m" using assms by (simp_all add: valid_date_def)
  show "month_of_day y (year_day y m d) = (m, d)"
    using m d by (cases rule: month_cases; cases "is_leap_year y")
      (simp_all add: month_of_day_def year_day_def days_before_month_def days_in_month_def Let_def)
  show "0 \<le> year_day y m d"
    using m d by (cases rule: month_cases) (simp_all add: year_day_def days_before_month_def)
  show "year_day y m d < 365 + (if is_leap_year y then 1 else 0)"
    using m d by (cases rule: month_cases; cases "is_leap_year y") (simp_all add: year_day_def days_before_month_def days_in_month_def)
qed

text \<open>A valid date is the date of its instants.\<close>

lemma time_date_of_date:
  assumes "valid_date y m d" "0 \<le> sec" "sec < 86400" "0 \<le> nsec" "nsec < second_ns"
  shows "time_date (time_of_date y m d sec nsec) = (y, m, d)" "time_clock (time_of_date y m d sec nsec) = sec"
proof -
  have u: "time_unix (time_of_date y m d sec nsec) = 86400 * (day_number y m d - unix_epoch_day) + sec"
    unfolding time_of_date_def using assms by (simp add: time_unix_of_unix algebra_simps)
  note D = div_mod_cycle [of sec 86400 "day_number y m d - unix_epoch_day"]
  have "time_day (time_of_date y m d sec nsec) = day_number y m d" unfolding time_day_def u using D assms by simp
  then show "time_date (time_of_date y m d sec nsec) = (y, m, d)"
    using month_of_year_day [OF assms(1)] year_of_day_number [of "year_day y m d" y]
    by (simp add: time_date_def day_number_def)
  show "time_clock (time_of_date y m d sec nsec) = sec" unfolding time_clock_def u using D assms by simp
qed

end
