(* ===== verification/Leap_Table.thy ===== *)
theory Leap_Table
  imports NTP_Time Go_Text Go_Calendar
begin

text \<open>
  \<^verbatim>\<open>internal/leap/leap.go\<close> and \<^verbatim>\<open>internal/leap/object.go\<close>: the table of leap seconds read from a file in the
  format of \<^verbatim>\<open>leap-seconds.list\<close>, the leap indicator it gives for an instant, the file as an object
  identified by its digest, and the rules a new table must satisfy to replace an older one. A file is its
  bytes; opening and reading it is the caller's.
\<close>

section \<open>The table\<close>

abbreviation (input) hour_ns :: int where "hour_ns \<equiv> 3600000000000"
abbreviation (input) day_ns :: int where "day_ns \<equiv> 86400000000000"

record transition =
  tr_At :: gtime
  tr_Leap :: leap

record table =
  tb_Expiry :: gtime
  tb_Updated :: gtime
  tb_Transitions :: "transition list"
  tb_Baseline :: gtime
  tb_Offset :: int

datatype table_error =
    StampMalformed nat | StampInvalid nat | DuplicateExpiry nat | DuplicateUpdate nat | RecordMalformed nat
  | ExtraFields nat | TransitionInvalid nat | OffsetInvalid nat | NotBoundary nat | ReadTooLong | NoExpiry
  | FewRecords | ExpiryTooEarly | ExpiryBeforeUpdate | NotIncreasing nat | NotOneSecond nat int

record leap_record =
  lr_at :: gtime
  lr_offset :: int
  lr_line :: nat

definition Date :: "nat \<Rightarrow> gtime option" where
  "Date seconds =
     (if seconds = 0 \<or> seconds > 255611289599 then None
      else Some (time_of_unix (int seconds - unixEpochOffset) 0))"

definition parseNTPSeconds :: "string \<Rightarrow> gtime option" where
  "parseNTPSeconds raw = (case parse_uint 10 64 raw of None \<Rightarrow> None | Some seconds \<Rightarrow> Date seconds)"

definition half_year_boundary :: "gtime \<Rightarrow> bool" where
  \<comment> \<open>midnight on 1 January or 1 July\<close>
  "half_year_boundary t \<longleftrightarrow> (let (y, m, d) = time_date t in time_clock t = 0 \<and> d = 1 \<and> (m = 1 \<or> m = 7))"

type_synonym parse_state = "table \<times> leap_record list"

definition parse_stamp :: "nat \<Rightarrow> string \<Rightarrow> parse_state \<Rightarrow> table_error + parse_state" where
  \<comment> \<open>a line that starts with \<^verbatim>\<open>#@\<close> or \<^verbatim>\<open>#$\<close>\<close>
  "parse_stamp lineNo line ps =
     (let (tb, recs) = ps; fs = strings_Fields line
      in if length fs \<noteq> 2 \<or> (fs ! 0 \<noteq> ''#@'' \<and> fs ! 0 \<noteq> ''#$'') then Inl (StampMalformed lineNo)
         else case parseNTPSeconds (fs ! 1) of
           None \<Rightarrow> Inl (StampInvalid lineNo)
         | Some stamp \<Rightarrow>
             if fs ! 0 = ''#@'' then
               (if tb_Expiry tb \<noteq> zero_time then Inl (DuplicateExpiry lineNo) else Inr (tb\<lparr>tb_Expiry := stamp\<rparr>, recs))
             else
               (if tb_Updated tb \<noteq> zero_time then Inl (DuplicateUpdate lineNo) else Inr (tb\<lparr>tb_Updated := stamp\<rparr>, recs)))"

definition parse_record :: "nat \<Rightarrow> string \<Rightarrow> parse_state \<Rightarrow> table_error + parse_state" where
  "parse_record lineNo line ps =
     (let (tb, recs) = ps; fs = strings_Fields line
      in if length fs < 2 then Inl (RecordMalformed lineNo)
         else if length fs > 2 \<and> \<not> has_prefix ''#'' (fs ! 2) then Inl (ExtraFields lineNo)
         else case parseNTPSeconds (fs ! 0) of
           None \<Rightarrow> Inl (TransitionInvalid lineNo)
         | Some start \<Rightarrow>
             (case strconv_Atoi (fs ! 1) of
                None \<Rightarrow> Inl (OffsetInvalid lineNo)
              | Some offset \<Rightarrow>
                  if offset < 1 \<or> offset > 255 then Inl (OffsetInvalid lineNo)
                  else if \<not> half_year_boundary start then Inl (NotBoundary lineNo)
                  else Inr (tb, recs @ [\<lparr>lr_at = start, lr_offset = offset, lr_line = lineNo\<rparr>])))"

definition parse_line :: "nat \<Rightarrow> string \<Rightarrow> parse_state \<Rightarrow> table_error + parse_state" where
  "parse_line lineNo raw ps =
     (let line = strings_TrimSpace raw
      in if line = [] then Inr ps
         else if has_prefix ''#@'' line \<or> has_prefix ''#$'' line then parse_stamp lineNo line ps
         else if has_prefix ''#'' line then Inr ps
         else parse_record lineNo line ps)"

fun parse_lines :: "nat \<Rightarrow> string list \<Rightarrow> parse_state \<Rightarrow> table_error + parse_state" where
  "parse_lines lineNo [] ps = Inr ps"
| "parse_lines lineNo (l # ls) ps =
     (case parse_line lineNo l ps of Inl e \<Rightarrow> Inl e | Inr ps' \<Rightarrow> parse_lines (lineNo + 1) ls ps')"

fun make_transitions :: "leap_record \<Rightarrow> leap_record list \<Rightarrow> table_error + transition list" where
  \<comment> \<open>the previous record and the rest\<close>
  "make_transitions prev [] = Inr []"
| "make_transitions prev (cur # recs) =
     (if \<not> lr_at cur > lr_at prev then Inl (NotIncreasing (lr_line cur))
      else (let delta = lr_offset cur - lr_offset prev
            in if delta \<noteq> 1 \<and> delta \<noteq> - 1 then Inl (NotOneSecond (lr_line cur) delta)
               else case make_transitions cur recs of Inl e \<Rightarrow> Inl e
                 | Inr trs \<Rightarrow> Inr (\<lparr>tr_At = lr_at cur, tr_Leap = (if delta = 1 then LeapInsert else LeapDelete)\<rparr> # trs)))"

definition empty_table :: table where
  "empty_table = \<lparr>tb_Expiry = zero_time, tb_Updated = zero_time, tb_Transitions = [], tb_Baseline = zero_time, tb_Offset = 0\<rparr>"

definition Parse :: "string \<Rightarrow> table_error + table" where
  "Parse inp =
     (let (ls, too_long) = scan_lines inp
      in case parse_lines 1 ls (empty_table, []) of Inl e \<Rightarrow> Inl e
       | Inr (tb, recs) \<Rightarrow>
           if too_long then Inl ReadTooLong
           else if tb_Expiry tb = zero_time then Inl NoExpiry
           else if length recs < 2 then Inl FewRecords
           else if \<not> tb_Expiry tb > lr_at (last recs) then Inl ExpiryTooEarly
           else if tb_Updated tb \<noteq> zero_time \<and> \<not> tb_Expiry tb > tb_Updated tb then Inl ExpiryBeforeUpdate
           else case make_transitions (hd recs) (tl recs) of Inl e \<Rightarrow> Inl e
             | Inr trs \<Rightarrow> Inr (tb\<lparr>tb_Baseline := lr_at (hd recs), tb_Offset := lr_offset (hd recs), tb_Transitions := trs\<rparr>))"

section \<open>What the table says of an instant\<close>

definition in_final_day :: "gtime \<Rightarrow> transition \<Rightarrow> bool" where
  "in_final_day now tr \<longleftrightarrow> \<not> now < tr_At tr - 24 * hour_ns \<and> now < tr_At tr"

definition Indicator :: "table option \<Rightarrow> gtime \<Rightarrow> leap" where
  "Indicator t now =
     (case t of None \<Rightarrow> LeapNone
      | Some tb \<Rightarrow> (case List.find (in_final_day now) (tb_Transitions tb) of None \<Rightarrow> LeapNone | Some tr \<Rightarrow> tr_Leap tr))"

definition Crossed :: "table option \<Rightarrow> gtime \<Rightarrow> gtime \<Rightarrow> bool" where
  "Crossed t before after =
     (case t of None \<Rightarrow> False
      | Some tb \<Rightarrow> if before = zero_time \<or> \<not> after > before then False
                   else list_ex (\<lambda>tr. tr_At tr > before \<and> \<not> tr_At tr > after) (tb_Transitions tb))"

definition Next :: "table option \<Rightarrow> gtime \<Rightarrow> transition option" where
  "Next t now = (case t of None \<Rightarrow> None | Some tb \<Rightarrow> List.find (\<lambda>tr. tr_At tr > now) (tb_Transitions tb))"

section \<open>Objects\<close>

abbreviation (input) MaxFileSize :: nat where "MaxFileSize \<equiv> 65536"

record manifest =
  mf_Updated :: uint64
  mf_Expires :: uint64
  mf_Digest :: "byte list"
  mf_Size :: uint32

definition zero_manifest :: manifest where
  "zero_manifest = \<lparr>mf_Updated = 0, mf_Expires = 0, mf_Digest = replicate 32 0, mf_Size = 0\<rparr>"

definition dateSeconds :: "gtime \<Rightarrow> uint64" where
  "dateSeconds t = word_of_int (time_unix t + unixEpochOffset)"

definition manifest_Validate :: "manifest \<Rightarrow> bool" where
  \<comment> \<open>whether it returns no error\<close>
  "manifest_Validate m =
     (case (Date (unat (mf_Updated m)), Date (unat (mf_Expires m))) of
        (Some u, Some e) \<Rightarrow> e > u \<and> mf_Size m \<noteq> 0 \<and> \<not> mf_Size m > word_of_nat MaxFileSize \<and> mf_Digest m \<noteq> replicate 32 0
      | _ \<Rightarrow> False)"

datatype leap_error = Rejection string | ErrUnsupported | OtherError
  \<comment> \<open>a \<^verbatim>\<open>Rejection\<close> is its reason\<close>

fun Reason :: "leap_error \<Rightarrow> string" where
  "Reason (Rejection r) = r"
| "Reason _ = ''io''"

record leap_object =
  ob_manifest :: manifest
  ob_table :: table
  ob_data :: "byte list"

definition NewObject :: "byte list \<Rightarrow> leap_error + leap_object" where
  "NewObject bs =
     (if bs = [] \<or> length bs > MaxFileSize then Inl (Rejection ''size'')
      else case Parse (map (\<lambda>b. char_of (unat b)) bs) of
        Inl e \<Rightarrow> Inl (Rejection ''parse'')
      | Inr t \<Rightarrow>
          if tb_Updated t = zero_time then Inl (Rejection ''metadata'')
          else Inr \<lparr>ob_manifest = \<lparr>mf_Updated = dateSeconds (tb_Updated t), mf_Expires = dateSeconds (tb_Expiry t),
                      mf_Digest = sha256_Sum256 bs, mf_Size = of_nat (length bs)\<rparr>,
                    ob_table = t, ob_data = bs\<rparr>)"

definition ReadObject :: "byte list option \<Rightarrow> leap_error + leap_object" where
  \<comment> \<open>the bytes the reader delivers, \<open>None\<close> if it fails; the limit reader stops one byte after the bound\<close>
  "ReadObject r = (case r of None \<Rightarrow> Inl OtherError | Some bs \<Rightarrow> NewObject (take (MaxFileSize + 1) bs))"

section \<open>Replacing a table\<close>

definition past :: "gtime \<Rightarrow> table \<Rightarrow> transition list" where
  "past cutoff t = takeWhile (\<lambda>tr. \<not> tr_At tr > cutoff) (tb_Transitions t)"

definition CheckUpdate :: "leap_object option \<Rightarrow> leap_object option \<Rightarrow> gtime \<Rightarrow> leap_error option" where
  \<comment> \<open>\<open>None\<close>: no error\<close>
  "CheckUpdate old nxt now =
     (case nxt of None \<Rightarrow> Some (Rejection ''metadata'')
      | Some next \<Rightarrow>
          if now = zero_time then Some (Rejection ''time_unknown'')
          else (let n = ob_table next
                in if \<not> now < tb_Expiry n then Some (Rejection ''expired'')
                   else if now < tb_Baseline n \<or> tb_Updated n > now + 5 * 60 * second_ns \<or> tb_Expiry n > now + 400 * 24 * hour_ns
                     then Some (Rejection ''date'')
                   else case old of None \<Rightarrow> None
                     | Some ob \<Rightarrow>
                         (let t = ob_table ob;
                              cutoff = (if \<not> now < tb_Expiry t then tb_Expiry t - 1 else now)
                          in if ob_manifest next = ob_manifest ob then None
                             else if tb_Updated n < tb_Updated t \<or> tb_Expiry n < tb_Expiry t then Some (Rejection ''rollback'')
                             else if tb_Updated n = tb_Updated t \<and> tb_Expiry n = tb_Expiry t then Some (Rejection ''conflict'')
                             else if tb_Baseline n \<noteq> tb_Baseline t \<or> tb_Offset n \<noteq> tb_Offset t then Some (Rejection ''history'')
                             else if tb_Updated n = tb_Updated t \<and> tb_Transitions n \<noteq> tb_Transitions t then Some (Rejection ''history'')
                             else if past cutoff t \<noteq> past cutoff n then Some (Rejection ''history'')
                             else None)))"

section \<open>Tables that parse\<close>

definition day_boundary :: "gtime \<Rightarrow> bool" where
  "day_boundary t \<longleftrightarrow> half_year_boundary t \<and> t mod day_ns = 0 \<and> (\<exists>n. Date n = Some t)"

definition valid_table :: "table \<Rightarrow> bool" where
  "valid_table t \<longleftrightarrow>
     sorted_wrt (<) (tb_Baseline t # map tr_At (tb_Transitions t) @ [tb_Expiry t]) \<and> tb_Transitions t \<noteq> [] \<and>
     (\<forall>tr \<in> set (tb_Transitions t). day_boundary (tr_At tr) \<and> tr_Leap tr \<in> {LeapInsert, LeapDelete}) \<and>
     day_boundary (tb_Baseline t) \<and> (\<exists>n. Date n = Some (tb_Expiry t)) \<and>
     (tb_Updated t \<noteq> zero_time \<longrightarrow> tb_Updated t < tb_Expiry t \<and> (\<exists>n. Date n = Some (tb_Updated t)))"

lemma Date_boundary:
  assumes "Date n = Some t" "half_year_boundary t"
  shows "day_boundary t"
proof -
  have t: "t = (int n - unixEpochOffset) * second_ns" using assms(1) by (auto simp: Date_def time_of_unix_def split: if_splits)
  have "time_clock t = 0" using assms(2) by (auto simp: half_year_boundary_def split: prod.splits)
  then have "(int n - unixEpochOffset) mod 86400 = 0" unfolding time_clock_def t by (simp add: time_unix_def)
  then obtain k where "int n - unixEpochOffset = 86400 * k" by (auto elim: dvdE)
  then have "t = day_ns * k" unfolding t by simp
  then show ?thesis using assms by (auto simp: day_boundary_def)
qed

definition state_ok :: "parse_state \<Rightarrow> bool" where
  "state_ok ps \<longleftrightarrow> (\<forall>r \<in> set (snd ps). day_boundary (lr_at r)) \<and>
     (tb_Expiry (fst ps) \<noteq> zero_time \<longrightarrow> (\<exists>n. Date n = Some (tb_Expiry (fst ps)))) \<and>
     (tb_Updated (fst ps) \<noteq> zero_time \<longrightarrow> (\<exists>n. Date n = Some (tb_Updated (fst ps))))"

lemma parseNTPSeconds_Date: "parseNTPSeconds raw = Some t \<Longrightarrow> \<exists>n. Date n = Some t"
  by (auto simp: parseNTPSeconds_def split: option.splits)

lemma parse_stamp_ok:
  assumes "state_ok ps" "parse_stamp k line ps = Inr ps'"
  shows "state_ok ps'"
proof -
  obtain tb recs where ps: "ps = (tb, recs)" by force
  obtain stamp where st: "parseNTPSeconds (strings_Fields line ! 1) = Some stamp"
    and ps': "ps' = (tb\<lparr>tb_Expiry := stamp\<rparr>, recs) \<or> ps' = (tb\<lparr>tb_Updated := stamp\<rparr>, recs)"
    using assms(2) by (auto simp: parse_stamp_def ps Let_def split: if_splits option.splits)
  show ?thesis using ps' parseNTPSeconds_Date [OF st] assms(1) by (auto simp: state_ok_def ps)
qed

lemma parse_record_ok:
  assumes "state_ok ps" "parse_record k line ps = Inr ps'"
  shows "state_ok ps'"
proof -
  obtain tb recs where ps: "ps = (tb, recs)" by force
  obtain start offset where st: "parseNTPSeconds (strings_Fields line ! 0) = Some start" "half_year_boundary start"
    and ps': "ps' = (tb, recs @ [\<lparr>lr_at = start, lr_offset = offset, lr_line = k\<rparr>])"
    using assms(2) by (auto simp: parse_record_def ps Let_def split: if_splits option.splits)
  have "day_boundary start" using parseNTPSeconds_Date [OF st(1)] Date_boundary st(2) by blast
  then show ?thesis using ps' assms(1) by (auto simp: state_ok_def ps)
qed

lemma parse_lines_ok: "parse_lines k ls ps = Inr ps' \<Longrightarrow> state_ok ps \<Longrightarrow> state_ok ps'"
proof (induction ls arbitrary: k ps)
  case (Cons l ls)
  obtain ps1 where p1: "parse_line k l ps = Inr ps1" "parse_lines (k + 1) ls ps1 = Inr ps'"
    using Cons.prems(1) by (auto split: sum.splits)
  have "state_ok ps1"
    using p1(1) Cons.prems(2) parse_stamp_ok [of ps k "strings_TrimSpace l" ps1] parse_record_ok [of ps k "strings_TrimSpace l" ps1]
    by (simp add: parse_line_def Let_def split: if_splits)
  then show ?case using Cons.IH p1(2) by blast
qed simp

lemma make_transitions_ok:
  assumes "make_transitions prev recs = Inr trs"
  shows "map tr_At trs = map lr_at recs \<and> sorted_wrt (<) (map lr_at (prev # recs)) \<and>
    (\<forall>tr \<in> set trs. tr_Leap tr \<in> {LeapInsert, LeapDelete})"
  using assms
proof (induction prev recs arbitrary: trs rule: make_transitions.induct)
  case (2 prev cur recs)
  have gt: "lr_at prev < lr_at cur" using "2.prems" by (simp split: if_splits)
  obtain trs' l where t: "make_transitions cur recs = Inr trs'" "trs = \<lparr>tr_At = lr_at cur, tr_Leap = l\<rparr> # trs'" "l \<in> {LeapInsert, LeapDelete}"
    using "2.prems" by (auto simp: Let_def split: if_splits sum.splits)
  have ih: "map tr_At trs' = map lr_at recs \<and> sorted_wrt (<) (map lr_at (cur # recs)) \<and> (\<forall>tr \<in> set trs'. tr_Leap tr \<in> {LeapInsert, LeapDelete})"
    using "2.IH" "2.prems" t(1) by (auto simp: Let_def split: if_splits)
  then have "\<forall>x \<in> set (map lr_at recs). lr_at prev < x" using gt by auto
  then show ?case using t ih gt by auto
qed simp

text \<open>The records of a file are its lines that are neither empty nor comments, and the table is those records.\<close>

definition data_lines :: "string list \<Rightarrow> string list" where
  "data_lines ls = filter (\<lambda>l. l \<noteq> [] \<and> \<not> has_prefix ''#'' l) (map strings_TrimSpace ls)"

definition line_fields :: "string \<Rightarrow> gtime option \<times> int option" where
  \<comment> \<open>the instant, in seconds of NTP from 1900, and the TAI-UTC offset a line spells\<close>
  "line_fields l = (map_option (\<lambda>n. (int n - 2208988800) * second_ns) (parse_uint 10 64 (strings_Fields l ! 0)),
     strconv_Atoi (strings_Fields l ! 1))"

lemma parseNTPSeconds_spells:
  "parseNTPSeconds raw = Some t \<Longrightarrow> map_option (\<lambda>n. (int n - 2208988800) * second_ns) (parse_uint 10 64 raw) = Some t"
  by (auto simp: parseNTPSeconds_def Date_def time_of_unix_def split: option.splits if_splits)

lemma parse_line_records:
  assumes "parse_line k l (tb, recs) = Inr (tb', recs')"
  shows "\<exists>new. recs' = recs @ new \<and> map line_fields (data_lines [l]) = map (\<lambda>r. (Some (lr_at r), Some (lr_offset r))) new"
proof -
  let ?l = "strings_TrimSpace l"
  have hash: "has_prefix ''#'' x" if "has_prefix ''#@'' x \<or> has_prefix ''#$'' x" for x using that by (cases x) (auto simp: has_prefix_def)
  show ?thesis
  proof (cases "?l = [] \<or> has_prefix ''#'' ?l")
    case True
    then have "recs' = recs" using assms
      by (auto simp: parse_line_def parse_record_def parse_stamp_def Let_def split: if_splits option.splits)
    then show ?thesis using True by (simp add: data_lines_def)
  next
    case False
    then have "\<not> has_prefix ''#@'' ?l" "\<not> has_prefix ''#$'' ?l" using hash by blast+
    then have "parse_record k ?l (tb, recs) = Inr (tb', recs')" using assms False by (simp add: parse_line_def Let_def)
    then obtain start offset where "parseNTPSeconds (strings_Fields ?l ! 0) = Some start" "strconv_Atoi (strings_Fields ?l ! 1) = Some offset"
      and new: "recs' = recs @ [\<lparr>lr_at = start, lr_offset = offset, lr_line = k\<rparr>]"
      by (auto simp: parse_record_def Let_def split: if_splits option.splits)
    then have "line_fields ?l = (Some start, Some offset)" unfolding line_fields_def by (simp only: parseNTPSeconds_spells)
    then show ?thesis using False new by (simp add: data_lines_def)
  qed
qed

lemma parse_lines_records:
  "parse_lines k ls (tb, recs) = Inr (tb', recs') \<Longrightarrow>
    \<exists>new. recs' = recs @ new \<and> map line_fields (data_lines ls) = map (\<lambda>r. (Some (lr_at r), Some (lr_offset r))) new"
proof (induction ls arbitrary: k tb recs)
  case (Cons l ls)
  obtain tb1 recs1 where p: "parse_line k l (tb, recs) = Inr (tb1, recs1)" "parse_lines (k + 1) ls (tb1, recs1) = Inr (tb', recs')"
    using Cons.prems by (auto split: sum.splits)
  obtain n1 where n1: "recs1 = recs @ n1" "map line_fields (data_lines [l]) = map (\<lambda>r. (Some (lr_at r), Some (lr_offset r))) n1"
    using parse_line_records [OF p(1)] by blast
  obtain n2 where n2: "recs' = recs1 @ n2" "map line_fields (data_lines ls) = map (\<lambda>r. (Some (lr_at r), Some (lr_offset r))) n2"
    using Cons.IH [OF p(2)] by blast
  have "data_lines (l # ls) = data_lines [l] @ data_lines ls" by (simp add: data_lines_def)
  then show ?case using n1 n2 by (intro exI [of _ "n1 @ n2"]) simp
qed (simp add: data_lines_def)

lemma make_transitions_offsets:
  assumes "make_transitions prev recs = Inr trs" "i < length recs"
  shows "lr_offset (recs ! i) - lr_offset ((prev # recs) ! i) = (if tr_Leap (trs ! i) = LeapInsert then 1 else - 1)"
  using assms
proof (induction prev recs arbitrary: trs i rule: make_transitions.induct)
  case (2 prev cur recs)
  let ?d = "lr_offset cur - lr_offset prev"
  have gt: "lr_at prev < lr_at cur" and d: "?d = 1 \<or> ?d = - 1" using "2.prems"(1) by (auto simp: Let_def split: if_splits)
  obtain trs' where t: "make_transitions cur recs = Inr trs'" "trs = \<lparr>tr_At = lr_at cur, tr_Leap = (if ?d = 1 then LeapInsert else LeapDelete)\<rparr> # trs'"
    using "2.prems"(1) by (auto simp: Let_def split: if_splits sum.splits)
  show ?case
  proof (cases i)
    case 0
    then show ?thesis using t(2) d by auto
  next
    case (Suc j)
    then show ?thesis using "2.IH" [OF _ refl _ t(1), of j] gt d "2.prems"(2) t(2) by auto
  qed
qed simp

lemma sorted_last: "sorted_wrt (<) xs \<Longrightarrow> x \<in> set xs \<Longrightarrow> x \<le> last xs" for x :: int
  by (induction xs) (auto simp: less_imp_le split: if_splits)

lemma Parse_valid:
  assumes "Parse inp = Inr t"
  shows "valid_table t"
proof -
  obtain ls too_long where sl: "scan_lines inp = (ls, too_long)" by force
  obtain tb recs trs where p: "parse_lines 1 ls (empty_table, []) = Inr (tb, recs)" and
    c: "tb_Expiry tb \<noteq> zero_time" "\<not> length recs < 2" "tb_Expiry tb > lr_at (last recs)"
      "tb_Updated tb \<noteq> zero_time \<longrightarrow> tb_Expiry tb > tb_Updated tb"
    and m: "make_transitions (hd recs) (tl recs) = Inr trs"
    and t: "t = tb\<lparr>tb_Baseline := lr_at (hd recs), tb_Offset := lr_offset (hd recs), tb_Transitions := trs\<rparr>"
    using assms by (auto simp: Parse_def sl split: sum.splits if_splits)
  have ok: "state_ok (tb, recs)" using parse_lines_ok [OF p] by (simp add: state_ok_def empty_table_def)
  obtain r r' rs where recs: "recs = r # r' # rs" using c(2) by (cases recs; cases "tl recs") auto
  note M = make_transitions_ok [OF m]
  have ats: "map tr_At trs = map lr_at (r' # rs)" using M recs by simp
  have sorted: "sorted_wrt (<) (map lr_at recs)" using M recs by simp
  have lt: "x < tb_Expiry tb" if "x \<in> set (map lr_at recs)" for x
  proof -
    have "x \<le> last (map lr_at recs)" using sorted_last [OF sorted that] .
    moreover have "last (map lr_at recs) = lr_at (last recs)" using recs by (intro last_map) simp
    ultimately show ?thesis using c(3) by simp
  qed
  have "sorted_wrt (<) (map lr_at recs @ [tb_Expiry tb])" using sorted lt by (auto simp: sorted_wrt_append)
  then have "sorted_wrt (<) (tb_Baseline t # map tr_At (tb_Transitions t) @ [tb_Expiry t])" using ats recs by (simp add: t)
  moreover have "\<forall>tr \<in> set trs. day_boundary (tr_At tr)"
  proof
    fix tr assume "tr \<in> set trs"
    then have "tr_At tr \<in> set (map tr_At trs)" by simp
    then have "tr_At tr \<in> set (map lr_at recs)" unfolding ats recs by auto
    then show "day_boundary (tr_At tr)" using ok by (auto simp: state_ok_def)
  qed
  moreover have "trs \<noteq> []" using ats by auto
  ultimately show ?thesis using M ok c recs by (auto simp: valid_table_def t state_ok_def)
qed

lemma Parse_records:
  assumes "Parse inp = Inr t"
  shows "\<exists>recs. map line_fields (data_lines (fst (scan_lines inp))) = map (\<lambda>(w, k). (Some w, Some k)) recs \<and>
    tb_Baseline t = fst (hd recs) \<and> tb_Offset t = snd (hd recs) \<and> map tr_At (tb_Transitions t) = map fst (tl recs) \<and>
    (\<forall>i < length (tb_Transitions t).
       snd (recs ! Suc i) - snd (recs ! i) = (if tr_Leap (tb_Transitions t ! i) = LeapInsert then 1 else - 1))"
proof -
  obtain ls too_long where sl: "scan_lines inp = (ls, too_long)" by force
  obtain tb rs trs where p: "parse_lines 1 ls (empty_table, []) = Inr (tb, rs)" and len: "\<not> length rs < 2"
    and m: "make_transitions (hd rs) (tl rs) = Inr trs"
    and t: "t = tb\<lparr>tb_Baseline := lr_at (hd rs), tb_Offset := lr_offset (hd rs), tb_Transitions := trs\<rparr>"
    using assms by (auto simp: Parse_def sl split: sum.splits if_splits)
  let ?recs = "map (\<lambda>r. (lr_at r, lr_offset r)) rs"
  have ne: "rs \<noteq> []" using len by auto
  have rs: "hd rs # tl rs = rs" using ne by simp
  have ats: "map tr_At trs = map lr_at (tl rs)" using make_transitions_ok [OF m] by blast
  then have l: "length trs = length (tl rs)" by (metis length_map)
  have "snd (?recs ! Suc i) - snd (?recs ! i) = (if tr_Leap (trs ! i) = LeapInsert then 1 else - 1)" if "i < length trs" for i
  proof -
    have i: "i < length (tl rs)" "Suc i < length rs" using that l ne by simp_all
    have "snd (?recs ! Suc i) = lr_offset (tl rs ! i)" "snd (?recs ! i) = lr_offset (rs ! i)" using i by (simp_all add: nth_tl)
    then show ?thesis using make_transitions_offsets [OF m i(1)] unfolding rs by simp
  qed
  moreover have "map line_fields (data_lines ls) = map (\<lambda>(w, k). (Some w, Some k)) ?recs"
    using parse_lines_records [OF p] by auto
  ultimately show ?thesis using ne ats by (intro exI [of _ ?recs]) (simp add: t sl hd_map map_tl comp_def)
qed

section \<open>Queries\<close>

lemma final_day_unique:
  assumes "valid_table t" "tr \<in> set (tb_Transitions t)" "tr' \<in> set (tb_Transitions t)" "in_final_day now tr" "in_final_day now tr'"
  shows "tr_At tr = tr_At tr'"
proof -
  have "tr_At tr mod day_ns = 0" "tr_At tr' mod day_ns = 0" using assms(1-3) by (auto simp: valid_table_def day_boundary_def)
  then obtain i j where ij: "tr_At tr = day_ns * i" "tr_At tr' = day_ns * j" by (metis mod_0_imp_dvd dvdE)
  then show ?thesis using assms(4,5) by (auto simp: in_final_day_def)
qed

lemma valid_table_sorted: "valid_table t \<Longrightarrow> sorted_wrt (<) (map tr_At (tb_Transitions t))"
  by (auto simp: valid_table_def sorted_wrt_append)

lemma distinct_At:
  assumes "sorted_wrt (<) (map tr_At trs)" "tr \<in> set trs" "tr' \<in> set trs" "tr_At tr = tr_At tr'"
  shows "tr = tr'"
proof -
  have "distinct (map tr_At trs)" using assms(1) by (metis strict_sorted_iff)
  then show ?thesis using assms(2-4) by (metis distinct_map inj_onD)
qed

lemma Indicator_value:
  assumes "valid_table t"
  shows "tr \<in> set (tb_Transitions t) \<Longrightarrow> in_final_day now tr \<Longrightarrow> Indicator (Some t) now = tr_Leap tr"
    and "\<forall>tr \<in> set (tb_Transitions t). \<not> in_final_day now tr \<Longrightarrow> Indicator (Some t) now = LeapNone"
proof -
  show "\<forall>tr \<in> set (tb_Transitions t). \<not> in_final_day now tr \<Longrightarrow> Indicator (Some t) now = LeapNone"
    by (auto simp: Indicator_def find_Some_iff split: option.split)
  assume tr: "tr \<in> set (tb_Transitions t)" "in_final_day now tr"
  then obtain tr' where f: "List.find (in_final_day now) (tb_Transitions t) = Some tr'"
    by (metis find_None_iff not_None_eq)
  then have "tr' \<in> set (tb_Transitions t)" "in_final_day now tr'" by (auto simp: find_Some_iff)
  then have "tr' = tr" using final_day_unique [OF assms] distinct_At [OF valid_table_sorted [OF assms]] tr by blast
  then show "Indicator (Some t) now = tr_Leap tr" using f by (simp add: Indicator_def)
qed

lemma Next_first:
  assumes "sorted_wrt (<) (map tr_At trs)" "List.find (\<lambda>tr. tr_At tr > now) trs = Some tr"
  shows "tr \<in> set trs \<and> tr_At tr > now \<and> (\<forall>tr' \<in> set trs. tr_At tr' > now \<longrightarrow> tr_At tr \<le> tr_At tr')"
  using assms by (induction trs) (auto split: if_splits)

section \<open>Manifests\<close>

lemma Date_dateSeconds:
  assumes "Date n = Some t"
  shows "dateSeconds t = of_nat n" "unat (dateSeconds t) = n" "Date (unat (dateSeconds t)) = Some t"
proof -
  have n: "n \<le> 255611289599" and t: "t = time_of_unix (int n - unixEpochOffset) 0"
    using assms by (auto simp: Date_def split: if_splits)
  then show w: "dateSeconds t = of_nat n" by (simp add: dateSeconds_def time_unix_of_unix)
  show u: "unat (dateSeconds t) = n" unfolding w using n by (simp add: unat_of_nat)
  show "Date (unat (dateSeconds t)) = Some t" unfolding u by (rule assms)
qed

definition object_ok :: "leap_object \<Rightarrow> bool" where
  \<comment> \<open>what construction guarantees\<close>
  "object_ok ob \<longleftrightarrow> valid_table (ob_table ob) \<and> tb_Updated (ob_table ob) \<noteq> zero_time \<and> ob_data ob \<noteq> [] \<and> length (ob_data ob) \<le> MaxFileSize \<and>
     ob_manifest ob = \<lparr>mf_Updated = dateSeconds (tb_Updated (ob_table ob)), mf_Expires = dateSeconds (tb_Expiry (ob_table ob)),
                       mf_Digest = sha256_Sum256 (ob_data ob), mf_Size = of_nat (length (ob_data ob))\<rparr>"

lemma NewObject_ok: "NewObject bs = Inr ob \<Longrightarrow> object_ok ob \<and> ob_data ob = bs"
  by (auto simp: NewObject_def object_ok_def Parse_valid split: if_splits sum.splits)

lemma object_size: "object_ok ob \<Longrightarrow> unat (mf_Size (ob_manifest ob)) = length (ob_data ob)"
  by (simp add: object_ok_def unat_of_nat)

lemma object_manifest_valid:
  assumes "object_ok ob" "sha256_Sum256 (ob_data ob) \<noteq> replicate 32 0"
  shows "manifest_Validate (ob_manifest ob)"
proof -
  let ?t = "ob_table ob"
  obtain nu ne where d: "Date nu = Some (tb_Updated ?t)" "Date ne = Some (tb_Expiry ?t)" "tb_Updated ?t < tb_Expiry ?t"
    using assms(1) by (auto simp: object_ok_def valid_table_def)
  have l: "0 < length (ob_data ob)" "length (ob_data ob) \<le> 65536" using assms(1) by (auto simp: object_ok_def)
  have u: "unat (of_nat (length (ob_data ob)) :: uint32) = length (ob_data ob)" using l by (simp add: unat_of_nat)
  have "(of_nat (length (ob_data ob)) :: uint32) \<noteq> 0" using u l(1) by (metis less_numeral_extra(3) unat_0)
  moreover have "\<not> (of_nat (length (ob_data ob)) :: uint32) > word_of_nat 65536" using u l(2) by (simp add: word_less_nat_alt unat_of_nat)
  moreover have "ob_manifest ob = \<lparr>mf_Updated = dateSeconds (tb_Updated ?t), mf_Expires = dateSeconds (tb_Expiry ?t),
      mf_Digest = sha256_Sum256 (ob_data ob), mf_Size = of_nat (length (ob_data ob))\<rparr>" using assms(1) by (simp add: object_ok_def)
  ultimately show ?thesis using Date_dateSeconds(3) [OF d(1)] Date_dateSeconds(3) [OF d(2)] d(3) assms(2)
    by (simp add: manifest_Validate_def)
qed

section \<open>History\<close>

definition history_cutoff :: "table \<Rightarrow> gtime \<Rightarrow> gtime" where
  \<comment> \<open>the last instant an old table covers, up to now\<close>
  "history_cutoff t now = (if now < tb_Expiry t then now else tb_Expiry t - 1)"

lemma takeWhile_sorted:
  assumes "sorted_wrt (<) (map tr_At trs)"
  shows "takeWhile (\<lambda>tr. \<not> tr_At tr > c) trs = filter (\<lambda>tr. tr_At tr \<le> c) trs"
  using assms
proof (induction trs)
  case (Cons x xs)
  have "filter (\<lambda>tr. tr_At tr \<le> c) xs = []" if "\<not> tr_At x \<le> c"
    using Cons.prems that by (force simp: filter_empty_conv)
  with Cons show ?case by (auto simp: not_less)
qed simp

lemma past_set: "valid_table t \<Longrightarrow> set (past c t) = {tr \<in> set (tb_Transitions t). tr_At tr \<le> c}"
  unfolding past_def by (simp add: takeWhile_sorted [OF valid_table_sorted])

lemma CheckUpdate_accepts:
  assumes "CheckUpdate (Some old) (Some new) now = None"
  shows "ob_manifest new = ob_manifest old \<or>
    (tb_Updated (ob_table old) \<le> tb_Updated (ob_table new) \<and> tb_Expiry (ob_table old) \<le> tb_Expiry (ob_table new) \<and>
     (tb_Updated (ob_table old) < tb_Updated (ob_table new) \<or> tb_Expiry (ob_table old) < tb_Expiry (ob_table new)) \<and>
     tb_Baseline (ob_table new) = tb_Baseline (ob_table old) \<and> tb_Offset (ob_table new) = tb_Offset (ob_table old) \<and>
     past (history_cutoff (ob_table old) now) (ob_table old) = past (history_cutoff (ob_table old) now) (ob_table new))"
    and "now < tb_Expiry (ob_table new)" and "tb_Baseline (ob_table new) \<le> now"
proof -
  have e: "history_cutoff (ob_table old) now = (if \<not> now < tb_Expiry (ob_table old) then tb_Expiry (ob_table old) - 1 else now)"
    by (simp add: history_cutoff_def)
  note c = assms [unfolded CheckUpdate_def Let_def option.case, folded e]
  from c show "now < tb_Expiry (ob_table new)" "tb_Baseline (ob_table new) \<le> now"
    by (simp_all only: split: if_split_asm) simp_all
  from c show "ob_manifest new = ob_manifest old \<or>
    (tb_Updated (ob_table old) \<le> tb_Updated (ob_table new) \<and> tb_Expiry (ob_table old) \<le> tb_Expiry (ob_table new) \<and>
     (tb_Updated (ob_table old) < tb_Updated (ob_table new) \<or> tb_Expiry (ob_table old) < tb_Expiry (ob_table new)) \<and>
     tb_Baseline (ob_table new) = tb_Baseline (ob_table old) \<and> tb_Offset (ob_table new) = tb_Offset (ob_table old) \<and>
     past (history_cutoff (ob_table old) now) (ob_table old) = past (history_cutoff (ob_table old) now) (ob_table new))"
    by (simp only: option.distinct split: if_split_asm) (simp_all, linarith?)
qed

lemma Crossed_iff:
  "Crossed (Some t) b a \<longleftrightarrow> b \<noteq> zero_time \<and> b < a \<and> (\<exists>tr \<in> set (tb_Transitions t). b < tr_At tr \<and> tr_At tr \<le> a)"
  by (auto simp: Crossed_def list_ex_iff)

lemma Indicator_history:
  assumes "valid_table t" "valid_table t'" "{tr \<in> set (tb_Transitions t). tr_At tr \<le> c} = {tr \<in> set (tb_Transitions t'). tr_At tr \<le> c}"
    "now + day_ns \<le> c"
  shows "Indicator (Some t) now = Indicator (Some t') now"
proof -
  have rel: "tr \<in> set (tb_Transitions t) \<longleftrightarrow> tr \<in> set (tb_Transitions t')" if "in_final_day now tr" for tr
  proof -
    have "tr_At tr \<le> c" using that assms(4) by (simp add: in_final_day_def)
    then show ?thesis using arg_cong [OF assms(3), of "\<lambda>S. tr \<in> S"] by simp
  qed
  show ?thesis
  proof (cases "\<exists>tr \<in> set (tb_Transitions t). in_final_day now tr")
    case True
    then obtain tr where tr: "tr \<in> set (tb_Transitions t)" "in_final_day now tr" by blast
    have "tr \<in> set (tb_Transitions t')" using tr rel by simp
    from Indicator_value(1) [OF assms(1) tr] Indicator_value(1) [OF assms(2) this tr(2)] show ?thesis by simp
  next
    case False
    then have "\<forall>tr \<in> set (tb_Transitions t). \<not> in_final_day now tr" "\<forall>tr \<in> set (tb_Transitions t'). \<not> in_final_day now tr"
      using rel by auto
    from Indicator_value(2) [OF assms(1) this(1)] Indicator_value(2) [OF assms(2) this(2)] show ?thesis by simp
  qed
qed

lemma Next_cases:
  assumes "valid_table t"
  shows "Next (Some t) now = None \<Longrightarrow> \<forall>tr \<in> set (tb_Transitions t). tr_At tr \<le> now"
    and "Next (Some t) now = Some tr \<Longrightarrow> tr \<in> set (tb_Transitions t) \<and> tr_At tr > now \<and>
      (\<forall>tr' \<in> set (tb_Transitions t). tr_At tr' > now \<longrightarrow> tr_At tr \<le> tr_At tr')"
  using Next_first [OF valid_table_sorted [OF assms], of now tr] by (auto simp: Next_def find_None_iff)

lemma Indicator_Next:
  assumes "valid_table t"
  shows "Indicator (Some t) now = (case Next (Some t) now of None \<Rightarrow> LeapNone
           | Some tr \<Rightarrow> if tr_At tr - now \<le> 24 * hour_ns then tr_Leap tr else LeapNone)"
proof (cases "Next (Some t) now")
  case None
  then have "\<forall>tr \<in> set (tb_Transitions t). \<not> in_final_day now tr"
    using Next_cases(1) [OF assms None] by (auto simp: in_final_day_def)
  from Indicator_value(2) [OF assms this] None show ?thesis by simp
next
  case (Some tr)
  note n = Next_cases(2) [OF assms Some]
  show ?thesis
  proof (cases "tr_At tr - now \<le> 24 * hour_ns")
    case True
    then have "in_final_day now tr" using n by (simp add: in_final_day_def)
    with Indicator_value(1) [OF assms, of tr now] n True Some show ?thesis by simp
  next
    case False
    then have "\<forall>tr' \<in> set (tb_Transitions t). \<not> in_final_day now tr'" using n by (force simp: in_final_day_def)
    from Indicator_value(2) [OF assms this] False Some show ?thesis by simp
  qed
qed

lemma Crossed_Next:
  assumes "valid_table t"
  shows "Crossed (Some t) b a \<longleftrightarrow> b \<noteq> zero_time \<and> (\<exists>tr. Next (Some t) b = Some tr \<and> tr_At tr \<le> a)"
proof (cases "Next (Some t) b")
  case None
  then show ?thesis using Next_cases(1) [OF assms None] by (force simp: Crossed_iff)
next
  case (Some tr)
  note n = Next_cases(2) [OF assms Some]
  show ?thesis unfolding Crossed_iff Some using n by force
qed

section \<open>Sample files\<close>

definition sample_leap_file :: string where
  "sample_leap_file = ''#$ 2288390400'' @ [nl] @ ''#@ 2303337600'' @ [nl] @ ''2272060800 10'' @ [nl] @ ''2287785600 11'' @ [nl]"

definition sample_leap_table :: table where
  "sample_leap_table = \<lparr>tb_Expiry = 94348800 * second_ns, tb_Updated = 79401600 * second_ns,
     tb_Transitions = [\<lparr>tr_At = 78796800 * second_ns, tr_Leap = LeapInsert\<rparr>], tb_Baseline = 63072000 * second_ns, tb_Offset = 10\<rparr>"

definition sample_leap_file2 :: string where
  \<comment> \<open>the file that follows it announces one more leap second\<close>
  "sample_leap_file2 = ''#$ 2301004800'' @ [nl] @ ''#@ 2319062400'' @ [nl] @ ''2272060800 10'' @ [nl] @ ''2287785600 11'' @ [nl] @
     ''2303683200 12'' @ [nl]"

definition sample_leap_table2 :: table where
  "sample_leap_table2 = \<lparr>tb_Expiry = 110073600 * second_ns, tb_Updated = 92016000 * second_ns,
     tb_Transitions = [\<lparr>tr_At = 78796800 * second_ns, tr_Leap = LeapInsert\<rparr>, \<lparr>tr_At = 94694400 * second_ns, tr_Leap = LeapInsert\<rparr>],
     tb_Baseline = 63072000 * second_ns, tb_Offset = 10\<rparr>"

definition bytes_of :: "string \<Rightarrow> byte list" where
  "bytes_of s = map (\<lambda>c. of_nat (of_char c)) s"

definition sample_object :: "string \<Rightarrow> table \<Rightarrow> leap_object" where
  "sample_object f t = \<lparr>ob_manifest = \<lparr>mf_Updated = dateSeconds (tb_Updated t), mf_Expires = dateSeconds (tb_Expiry t),
      mf_Digest = sha256_Sum256 (bytes_of f), mf_Size = of_nat (length f)\<rparr>, ob_table = t, ob_data = bytes_of f\<rparr>"

lemmas leap_file_eval = Parse_def parse_line_def parse_stamp_def parse_record_def Let_def parseNTPSeconds_def
  Date_def empty_table_def zero_time_def time_of_unix_def text_eval

lemma half_year_boundary_date: "m = 1 \<or> m = 7 \<Longrightarrow> half_year_boundary (time_of_date y m 1 0 0)"
  using time_date_of_date [of y m 1 0 0] by (auto simp: half_year_boundary_def valid_date_def days_in_month_def)

lemma sample_boundaries [simp]:
  "half_year_boundary 63072000000000000" "half_year_boundary 78796800000000000" "half_year_boundary 94694400000000000"
  using half_year_boundary_date [of 1 1972] half_year_boundary_date [of 7 1972] half_year_boundary_date [of 1 1973]
  by (simp_all add: time_of_date_def day_number_def days_before_year_def year_day_def days_before_month_def is_leap_year_def
      unix_epoch_day_def time_of_unix_def)

lemma sample_leap_parses: "Parse sample_leap_file = Inr sample_leap_table"
  unfolding sample_leap_file_def sample_leap_table_def by (simp add: leap_file_eval)

lemma sample_leap_parses2: "Parse sample_leap_file2 = Inr sample_leap_table2"
  unfolding sample_leap_file2_def sample_leap_table2_def by (simp add: leap_file_eval)

lemma chars_of_bytes [simp]: "map (\<lambda>b. char_of (unat b)) (bytes_of s) = s"
proof -
  have "char_of (unat (of_nat (of_char c) :: byte)) = c" for c by (simp add: unat_of_nat)
  then show ?thesis by (simp add: bytes_of_def map_idI)
qed

lemma NewObject_sample:
  assumes "Parse s = Inr t" "s \<noteq> []" "length s \<le> 65536" "tb_Updated t \<noteq> zero_time"
  shows "NewObject (bytes_of s) = Inr (sample_object s t)"
proof -
  have "length (bytes_of s) = length s" "bytes_of s \<noteq> []" using assms(2) by (simp_all add: bytes_of_def)
  then show ?thesis using assms by (simp add: NewObject_def sample_object_def)
qed

lemma sample_objects:
  "NewObject (bytes_of sample_leap_file) = Inr (sample_object sample_leap_file sample_leap_table)"
  "NewObject (bytes_of sample_leap_file2) = Inr (sample_object sample_leap_file2 sample_leap_table2)"
proof -
  show "NewObject (bytes_of sample_leap_file) = Inr (sample_object sample_leap_file sample_leap_table)"
    by (rule NewObject_sample [OF sample_leap_parses])
      (simp_all add: sample_leap_file_def sample_leap_table_def zero_time_def)
  show "NewObject (bytes_of sample_leap_file2) = Inr (sample_object sample_leap_file2 sample_leap_table2)"
    by (rule NewObject_sample [OF sample_leap_parses2])
      (simp_all add: sample_leap_file2_def sample_leap_table2_def zero_time_def)
qed

lemma sample_update: "CheckUpdate (Some (sample_object sample_leap_file sample_leap_table))
    (Some (sample_object sample_leap_file2 sample_leap_table2)) (92793600 * second_ns) = None"
  by (simp add: CheckUpdate_def sample_object_def sample_leap_table_def sample_leap_table2_def Let_def past_def zero_time_def)

section \<open>Properties\<close>

text \<open>C25: Every table that parses is usable and says what its file says. The transitions are midnights UTC on 1 January or 1
  July, in strictly increasing order after the baseline and before the expiry, and an update date, if there is one, is before the
  expiry. Baseline, offset and transitions are the records of the file, the lines that are neither empty nor comments, in their
  order: the first record is the baseline, each further one a transition, and the TAI-UTC offset goes up by exactly one second where the
  transition inserts a leap second and down by exactly one where it deletes one.\<close>
theorem Parse_table_valid:
  assumes "Parse inp = Inr t"
  shows "sorted_wrt (<) (tb_Baseline t # map tr_At (tb_Transitions t) @ [tb_Expiry t]) \<and> tb_Transitions t \<noteq> [] \<and>
    (\<forall>tr \<in> set (tb_Transitions t). half_year_boundary (tr_At tr) \<and> tr_At tr mod day_ns = 0 \<and> tr_Leap tr \<in> {LeapInsert, LeapDelete}) \<and>
    (tb_Updated t \<noteq> zero_time \<longrightarrow> tb_Updated t < tb_Expiry t) \<and>
    (\<exists>recs. map line_fields (data_lines (fst (scan_lines inp))) = map (\<lambda>(w, k). (Some w, Some k)) recs \<and>
       tb_Baseline t = fst (hd recs) \<and> tb_Offset t = snd (hd recs) \<and> map tr_At (tb_Transitions t) = map fst (tl recs) \<and>
       (\<forall>i < length (tb_Transitions t).
          snd (recs ! Suc i) - snd (recs ! i) = (if tr_Leap (tb_Transitions t ! i) = LeapInsert then 1 else - 1)))"
  using Parse_valid [OF assms] Parse_records [OF assms] unfolding valid_table_def day_boundary_def by blast

theorem Parse_table_valid_witness:
  "Parse sample_leap_file2 = Inr sample_leap_table2 \<and> length (tb_Transitions sample_leap_table2) = 2 \<and>
   (\<exists>recs. map line_fields (data_lines (fst (scan_lines sample_leap_file2))) = map (\<lambda>(w, k). (Some w, Some k)) recs \<and>
     map tr_At (tb_Transitions sample_leap_table2) = map fst (tl recs) \<and> snd (recs ! 1) - snd (recs ! 0) = 1)"
proof -
  have "length (tb_Transitions sample_leap_table2) = 2" "tr_Leap (tb_Transitions sample_leap_table2 ! 0) = LeapInsert"
    by (simp_all add: sample_leap_table2_def)
  then show ?thesis using Parse_table_valid [OF sample_leap_parses2] sample_leap_parses2 by fastforce
qed

text \<open>C26: On every table that parses the three queries agree at every instant: the next transition is the earliest later
  one, the leap indicator is set exactly in the 24 hours before it, and a leap second lies between two
  samples exactly when the transition that was next at the first is not later than the second.\<close>
theorem leap_queries_agree:
  assumes "Parse inp = Inr t"
  shows "(case Next (Some t) now of
            None \<Rightarrow> \<forall>tr \<in> set (tb_Transitions t). tr_At tr \<le> now
          | Some tr \<Rightarrow> tr \<in> set (tb_Transitions t) \<and> tr_At tr > now \<and>
              (\<forall>tr' \<in> set (tb_Transitions t). tr_At tr' > now \<longrightarrow> tr_At tr \<le> tr_At tr')) \<and>
    Indicator (Some t) now = (case Next (Some t) now of None \<Rightarrow> LeapNone
           | Some tr \<Rightarrow> if tr_At tr - now \<le> 24 * hour_ns then tr_Leap tr else LeapNone) \<and>
    (Crossed (Some t) now later \<longleftrightarrow> now \<noteq> zero_time \<and> (\<exists>tr. Next (Some t) now = Some tr \<and> tr_At tr \<le> later))"
  using Next_cases [OF Parse_valid [OF assms], of now] Indicator_Next [OF Parse_valid [OF assms], of now]
    Crossed_Next [OF Parse_valid [OF assms], of now later]
  by (auto split: option.split)

theorem leap_queries_agree_witness:
  "Indicator (Some sample_leap_table) (78796799 * second_ns) = LeapInsert \<and>
   \<not> Crossed (Some sample_leap_table) (78796800 * second_ns) (80000000 * second_ns)"
  using leap_queries_agree [OF sample_leap_parses, of "78796799 * second_ns"]
    leap_queries_agree [OF sample_leap_parses, of "78796800 * second_ns" "80000000 * second_ns"]
  by (simp add: Next_def sample_leap_table_def)

text \<open>C24: A list that is accepted in place of an installed one is not expired, is not older, and rewrites no history: unless
  it is the same object by its manifest, every leap second up to now (or the end of the old list) is
  crossed as before, and the indicator is as before at every instant whose day is past.\<close>
theorem CheckUpdate_keeps_history:
  assumes "NewObject bs = Inr old" "NewObject bs' = Inr new" "CheckUpdate (Some old) (Some new) now = None"
  shows "now < tb_Expiry (ob_table new) \<and>
    (ob_manifest new = ob_manifest old \<or>
     tb_Updated (ob_table old) \<le> tb_Updated (ob_table new) \<and> tb_Expiry (ob_table old) \<le> tb_Expiry (ob_table new) \<and>
     (\<forall>b a. a \<le> history_cutoff (ob_table old) now \<longrightarrow> Crossed (Some (ob_table new)) b a = Crossed (Some (ob_table old)) b a) \<and>
     (\<forall>x. x + day_ns \<le> history_cutoff (ob_table old) now \<longrightarrow> Indicator (Some (ob_table new)) x = Indicator (Some (ob_table old)) x))"
proof (cases "ob_manifest new = ob_manifest old")
  case True
  then show ?thesis using CheckUpdate_accepts(2) [OF assms(3)] by simp
next
  case False
  let ?c = "history_cutoff (ob_table old) now"
  note acc = CheckUpdate_accepts(1) [OF assms(3), THEN disjE] False
  have v: "valid_table (ob_table old)" "valid_table (ob_table new)"
    using NewObject_ok [OF assms(1)] NewObject_ok [OF assms(2)] by (simp_all add: object_ok_def)
  have a: "tb_Updated (ob_table old) \<le> tb_Updated (ob_table new)" "tb_Expiry (ob_table old) \<le> tb_Expiry (ob_table new)"
    and p: "past ?c (ob_table old) = past ?c (ob_table new)"
    using CheckUpdate_accepts(1) [OF assms(3)] False by simp_all
  have s: "{tr \<in> set (tb_Transitions (ob_table old)). tr_At tr \<le> ?c} = {tr \<in> set (tb_Transitions (ob_table new)). tr_At tr \<le> ?c}"
    using p past_set [OF v(1), of ?c] past_set [OF v(2), of ?c] by simp
  have "Crossed (Some (ob_table new)) b a = Crossed (Some (ob_table old)) b a" if "a \<le> ?c" for a b
  proof -
    have "tr \<in> set (tb_Transitions (ob_table new)) \<longleftrightarrow> tr \<in> set (tb_Transitions (ob_table old))" if "tr_At tr \<le> a" for tr
      using arg_cong [OF s, of "\<lambda>S. tr \<in> S"] that \<open>a \<le> ?c\<close> by simp
    then show ?thesis unfolding Crossed_iff by blast
  qed
  then show ?thesis using CheckUpdate_accepts(2) [OF assms(3)] a Indicator_history [OF v s] by simp
qed

theorem CheckUpdate_keeps_history_witness:
  "CheckUpdate (Some (sample_object sample_leap_file sample_leap_table))
     (Some (sample_object sample_leap_file2 sample_leap_table2)) (92793600 * second_ns) = None \<and>
   92793600 * second_ns < tb_Expiry (ob_table (sample_object sample_leap_file2 sample_leap_table2))"
  using CheckUpdate_keeps_history [OF sample_objects sample_update] sample_update by simp

end
