(* ===== verification/Leap_Wire.thy ===== *)
theory Leap_Wire
  imports Leap_Table NTP_Packet
begin

text \<open>
  \<^verbatim>\<open>internal/leap/wire.go\<close>: the extension field that carries leap-second lists between servers, its validation,
  encoding and decoding, and the stateless reply to a request. A Go slice expression that would be out of
  range is \<open>None\<close>.
\<close>

abbreviation (input) ExtensionType :: uint16 where "ExtensionType \<equiv> 0xf504"
abbreviation (input) WireVersion :: byte where "WireVersion \<equiv> 1"
abbreviation (input) FieldSize :: nat where "FieldSize \<equiv> 88"
abbreviation (input) ChunkSize :: nat where "ChunkSize \<equiv> 256"
abbreviation (input) MaxFieldSize :: nat where "MaxFieldSize \<equiv> 344"
abbreviation (input) Probe :: uint8 where "Probe \<equiv> 1"
abbreviation (input) ManifestReply :: uint8 where "ManifestReply \<equiv> 2"
abbreviation (input) Get :: uint8 where "Get \<equiv> 3"
abbreviation (input) Data :: uint8 where "Data \<equiv> 4"
abbreviation (input) OK :: uint16 where "OK \<equiv> 0"
abbreviation (input) NoTable :: uint16 where "NoTable \<equiv> 1"
abbreviation (input) NotFound :: uint16 where "NotFound \<equiv> 2"

definition CLPS :: "byte list" where
  "CLPS = [0x43, 0x4c, 0x50, 0x53]"

record message =
  ms_Operation :: uint8
  ms_Result :: uint16
  ms_ID :: "byte list"
  ms_Manifest :: manifest
  ms_Offset :: uint32
  ms_Count :: uint16
  ms_Data :: "byte list"

definition zero_message :: message where
  "zero_message = \<lparr>ms_Operation = 0, ms_Result = 0, ms_ID = replicate 16 0, ms_Manifest = zero_manifest,
     ms_Offset = 0, ms_Count = 0, ms_Data = []\<rparr>"

definition message_shape :: "message \<Rightarrow> bool" where
  \<comment> \<open>the Go types of the arrays\<close>
  "message_shape m \<longleftrightarrow> length (ms_ID m) = 16 \<and> length (mf_Digest (ms_Manifest m)) = 32"

definition chunk_at :: "uint32 \<Rightarrow> uint32 \<Rightarrow> nat" where
  \<comment> \<open>\<^verbatim>\<open>min(uint32(ChunkSize), size-offset)\<close>\<close>
  "chunk_at sz offset = min ChunkSize (unat (sz - offset))"

definition validate :: "message \<Rightarrow> bool" where
  \<comment> \<open>whether it returns no error; the error is always the rejection \<^verbatim>\<open>framing\<close>\<close>
  "validate m =
     (if ms_ID m = replicate 16 0 then False
      else if ms_Manifest m \<noteq> zero_manifest \<and> \<not> manifest_Validate (ms_Manifest m) then False
      else if ms_Operation m = Probe then
        ms_Result m = OK \<and> ms_Offset m = 0 \<and> ms_Count m = 0 \<and> ms_Data m = []
      else if ms_Operation m = ManifestReply then
        ms_Offset m = 0 \<and> ms_Count m = 0 \<and> ms_Data m = [] \<and> (ms_Result m = OK \<or> ms_Result m = NoTable) \<and>
        (ms_Result m = NoTable) = (ms_Manifest m = zero_manifest)
      else if ms_Operation m = Get then
        ms_Result m = OK \<and> ms_Manifest m \<noteq> zero_manifest \<and> ms_Offset m < mf_Size (ms_Manifest m) \<and>
        unat (ms_Offset m) mod ChunkSize = 0 \<and> ms_Count m = word_of_nat ChunkSize \<and> ms_Data m = []
      else if ms_Operation m = Data then
        ms_Manifest m \<noteq> zero_manifest \<and> ms_Offset m < mf_Size (ms_Manifest m) \<and> unat (ms_Offset m) mod ChunkSize = 0 \<and>
        (if ms_Result m = NotFound then ms_Count m = 0 \<and> ms_Data m = []
         else ms_Result m = OK \<and> unat (ms_Count m) = length (ms_Data m) \<and>
              unat (ms_Count m) = chunk_at (mf_Size (ms_Manifest m)) (ms_Offset m))
      else False)"

definition pad4 :: "nat \<Rightarrow> nat" where
  "pad4 n = 4 * ((n + 3) div 4)"

definition field_length :: "message \<Rightarrow> nat" where
  "field_length m = (if ms_Operation m = Get then MaxFieldSize else FieldSize + pad4 (length (ms_Data m)))"

definition field_bytes :: "message \<Rightarrow> byte list" where
  \<comment> \<open>the zeroed field after all stores\<close>
  "field_bytes m =
     put_uint16 ExtensionType @ put_uint16 (of_nat (field_length m)) @ CLPS @ [WireVersion, ms_Operation m] @
     put_uint16 (ms_Result m) @ ms_ID m @ put_uint64 (mf_Updated (ms_Manifest m)) @ put_uint64 (mf_Expires (ms_Manifest m)) @
     mf_Digest (ms_Manifest m) @ put_uint32 (mf_Size (ms_Manifest m)) @ put_uint32 (ms_Offset m) @
     put_uint16 (ms_Count m) @ [0, 0] @ ms_Data m @ replicate (field_length m - FieldSize - length (ms_Data m)) 0"

definition message_AppendTo :: "message \<Rightarrow> byte list \<Rightarrow> leap_error + byte list" where
  "message_AppendTo m dst = (if \<not> validate m then Inl (Rejection ''framing'') else Inr (dst @ field_bytes m))"

definition allZero :: "byte list \<Rightarrow> bool" where
  "allZero b = list_all (\<lambda>v. v = 0) b"

definition decode_message :: "byte list \<Rightarrow> leap_error + message" where
  \<comment> \<open>one field of this extension, of a length in range and with the right magic and version\<close>
  "decode_message b =
     (let n = length b; op = b ! 9; count = get_uint16 (slice 84 86 b);
          dataLen = (if op = Data then unat count else 0);
          expected = (if op = Get then MaxFieldSize else if op = Data then FieldSize + pad4 dataLen else FieldSize);
          m = \<lparr>ms_Operation = op, ms_Result = get_uint16 (slice 10 12 b), ms_ID = slice 12 28 b,
               ms_Manifest = \<lparr>mf_Updated = get_uint64 (slice 28 36 b), mf_Expires = get_uint64 (slice 36 44 b),
                              mf_Digest = slice 44 76 b, mf_Size = get_uint32 (slice 76 80 b)\<rparr>,
               ms_Offset = get_uint32 (slice 80 84 b), ms_Count = count, ms_Data = slice FieldSize (FieldSize + dataLen) b\<rparr>
      in if get_uint16 (slice 86 88 b) \<noteq> 0 then Inl (Rejection ''framing'')
         else if expected \<noteq> n \<or> dataLen > n - FieldSize then Inl (Rejection ''framing'')
         else if \<not> allZero (drop (FieldSize + dataLen) b) then Inl (Rejection ''framing'')
         else if \<not> validate m then Inl (Rejection ''framing'')
         else Inr m)"

function decode_fields :: "byte list \<Rightarrow> message option \<Rightarrow> bool \<Rightarrow> bool \<Rightarrow> leap_error + message option" where
  \<comment> \<open>the loop of \<^verbatim>\<open>DecodeFields\<close>: the rest of the region, the message found, and the two flags\<close>
  "decode_fields flds found seen unsupported =
     (if flds = [] then (if unsupported then Inl ErrUnsupported else Inr found)
      else if length flds < 4 then Inl (Rejection ''framing'')
      else (let n = unat (get_uint16 (slice 2 4 flds))
            in if n < 16 \<or> n mod 4 \<noteq> 0 \<or> n > length flds then Inl (Rejection ''framing'')
               else (let b = take n flds; rest = drop n flds
                     in if get_uint16 b \<noteq> ExtensionType then decode_fields rest found seen unsupported
                        else if seen then Inl (Rejection ''framing'')
                        else if n < FieldSize \<or> n > MaxFieldSize then Inl (Rejection ''framing'')
                        else if slice 4 8 b \<noteq> CLPS \<or> b ! 8 \<noteq> WireVersion then decode_fields rest found True True
                        else case decode_message b of Inl e \<Rightarrow> Inl e | Inr m \<Rightarrow> decode_fields rest (Some m) True unsupported)))"
  by pat_completeness auto
termination
  by (relation "measure (\<lambda>(flds, found, seen, unsupported). length flds)") auto

declare decode_fields.simps [simp del]

definition DecodeFields :: "byte list \<Rightarrow> leap_error + message option" where
  "DecodeFields flds = decode_fields flds None False False"

definition slice_checked :: "nat \<Rightarrow> nat \<Rightarrow> 'a list \<Rightarrow> 'a list option" where
  "slice_checked i j xs = (if i \<le> j \<and> j \<le> length xs then Some (slice i j xs) else None)"

definition Reply :: "message option \<Rightarrow> leap_object option \<Rightarrow> (leap_error + message) option" where
  "Reply req ob =
     (case req of None \<Rightarrow> Some (Inl OtherError)
      | Some q \<Rightarrow>
          if \<not> validate q then Some (Inl (Rejection ''framing''))
          else (let r = zero_message\<lparr>ms_ID := ms_ID q\<rparr>
                in if ms_Operation q = Probe then
                     (case ob of
                        None \<Rightarrow> Some (Inr (r\<lparr>ms_Operation := ManifestReply, ms_Result := NoTable\<rparr>))
                      | Some obj \<Rightarrow> Some (Inr (r\<lparr>ms_Operation := ManifestReply, ms_Manifest := ob_manifest obj\<rparr>)))
                   else if ms_Operation q = Get then
                     (let r = r\<lparr>ms_Operation := Data, ms_Manifest := ms_Manifest q, ms_Offset := ms_Offset q\<rparr>
                      in case ob of
                           None \<Rightarrow> Some (Inr (r\<lparr>ms_Result := NotFound\<rparr>))
                         | Some obj \<Rightarrow>
                             if ob_manifest obj \<noteq> ms_Manifest q then Some (Inr (r\<lparr>ms_Result := NotFound\<rparr>))
                             else (let count = chunk_at (mf_Size (ms_Manifest q)) (ms_Offset q)
                                   in case slice_checked (unat (ms_Offset q)) (unat (ms_Offset q + of_nat count)) (ob_data obj) of
                                        None \<Rightarrow> None
                                      | Some d \<Rightarrow> Some (Inr (r\<lparr>ms_Count := of_nat count, ms_Data := d\<rparr>))))
                   else Some (Inl OtherError)))"

section \<open>One field\<close>

lemma message_cases:
  assumes "validate m"
  obtains "ms_Operation m = Probe" "ms_Data m = []" | "ms_Operation m = ManifestReply" "ms_Data m = []"
    | "ms_Operation m = Get" "ms_Data m = []" | "ms_Operation m = Data" "unat (ms_Count m) = length (ms_Data m)" "length (ms_Data m) \<le> 256"
  using assms by (auto simp: validate_def chunk_at_def split: if_splits)

lemma pad4_bounds: "n \<le> pad4 n" "pad4 n \<le> n + 3" "pad4 n mod 4 = 0"
  unfolding pad4_def by presburger+

lemma pad4_chunk: "n \<le> 256 \<Longrightarrow> pad4 n \<le> 256"
  unfolding pad4_def by presburger

lemma field_length_bounds:
  assumes "validate m"
  shows "FieldSize + length (ms_Data m) \<le> field_length m" "field_length m \<le> MaxFieldSize" "field_length m mod 4 = 0"
proof -
  have "FieldSize + length (ms_Data m) \<le> field_length m \<and> field_length m \<le> MaxFieldSize \<and> field_length m mod 4 = 0"
    using assms
  proof (cases rule: message_cases)
    case 4
    then show ?thesis using pad4_bounds [of "length (ms_Data m)"] pad4_chunk [of "length (ms_Data m)"]
      by (simp add: field_length_def) presburger
  qed (simp_all add: field_length_def pad4_def)
  then show "FieldSize + length (ms_Data m) \<le> field_length m" "field_length m \<le> MaxFieldSize" "field_length m mod 4 = 0" by simp_all
qed

lemma length_field_bytes:
  assumes "validate m" "message_shape m"
  shows "length (field_bytes m) = field_length m"
  using field_length_bounds(1) [OF assms(1)] assms(2) by (simp add: field_bytes_def message_shape_def CLPS_def)

lemma length_of_put [simp]: "n \<le> 344 \<Longrightarrow> unat (of_nat n :: uint16) = n"
  by (simp add: unat_of_nat)

lemma field_bytes_access:
  assumes "message_shape m"
  shows "get_uint16 (field_bytes m) = ExtensionType" "slice 2 4 (field_bytes m) = put_uint16 (of_nat (field_length m))"
    "slice 4 8 (field_bytes m) = CLPS" "field_bytes m ! 8 = WireVersion" "field_bytes m ! 9 = ms_Operation m"
    "slice 10 12 (field_bytes m) = put_uint16 (ms_Result m)" "slice 12 28 (field_bytes m) = ms_ID m"
    "slice 28 36 (field_bytes m) = put_uint64 (mf_Updated (ms_Manifest m))"
    "slice 36 44 (field_bytes m) = put_uint64 (mf_Expires (ms_Manifest m))" "slice 44 76 (field_bytes m) = mf_Digest (ms_Manifest m)"
    "slice 76 80 (field_bytes m) = put_uint32 (mf_Size (ms_Manifest m))" "slice 80 84 (field_bytes m) = put_uint32 (ms_Offset m)"
    "slice 84 86 (field_bytes m) = put_uint16 (ms_Count m)" "slice 86 88 (field_bytes m) = [0, 0]"
    "drop 88 (field_bytes m) = ms_Data m @ replicate (field_length m - FieldSize - length (ms_Data m)) 0"
  using assms by (simp_all add: field_bytes_def message_shape_def CLPS_def wire_simps nth_append, simp_all add: slice_def)

lemma decode_message_field:
  assumes "validate m" "message_shape m"
  shows "decode_message (field_bytes m) = Inr m"
proof -
  let ?b = "field_bytes m"
  note acc = field_bytes_access [OF assms(2)]
  define dl where "dl = (if ms_Operation m = Data then unat (ms_Count m) else 0)"
  have dl: "dl = length (ms_Data m)" using assms(1) by (cases rule: message_cases) (simp_all add: dl_def)
  have ex: "(if ms_Operation m = Get then MaxFieldSize else if ms_Operation m = Data then FieldSize + pad4 dl else FieldSize) = field_length m"
    using assms(1) by (cases rule: message_cases) (simp_all add: field_length_def dl pad4_def)
  have data: "slice FieldSize (FieldSize + dl) ?b = ms_Data m" unfolding slice_def acc(15) dl by simp
  have "drop (FieldSize + dl) ?b = drop dl (drop 88 ?b)" by (simp add: add.commute)
  then have rest: "allZero (drop (FieldSize + dl) ?b)" unfolding acc(15) dl by (simp add: allZero_def list_all_iff)
  have z: "get_uint16 [0, 0] = 0" by (simp add: get_uint16_def be_nat_def)
  have len: "\<not> dl > length ?b - FieldSize" using field_length_bounds(1) [OF assms(1)] length_field_bytes [OF assms] dl by simp
  have eq: "\<lparr>ms_Operation = ms_Operation m, ms_Result = ms_Result m, ms_ID = ms_ID m,
     ms_Manifest = \<lparr>mf_Updated = mf_Updated (ms_Manifest m), mf_Expires = mf_Expires (ms_Manifest m),
        mf_Digest = mf_Digest (ms_Manifest m), mf_Size = mf_Size (ms_Manifest m)\<rparr>,
     ms_Offset = ms_Offset m, ms_Count = ms_Count m, ms_Data = ms_Data m\<rparr> = m" by simp
  show ?thesis
    unfolding decode_message_def Let_def acc get_put_exact dl_def [symmetric] ex z data eq
    using rest len assms(1) by (simp add: length_field_bytes [OF assms])
qed

lemma slice_split: "i \<le> j \<Longrightarrow> j \<le> n \<Longrightarrow> slice i j b @ take (n - j) (drop j b) = take (n - i) (drop i b)"
proof -
  assume a: "i \<le> j" "j \<le> n"
  then have "n - i = (j - i) + (n - j)" by simp
  then show ?thesis using a by (simp only: slice_def take_add drop_drop) simp
qed

lemma slice_pair: "i + 1 < length b \<Longrightarrow> slice i (i + 2) b = [b ! i, b ! (i + 1)]"
  by (rule nth_equalityI) (auto simp: slice_def nth_Cons split: nat.splits, (metis One_nat_def Suc_lessI less_Suc_eq_0_disj numeral_2_eq_2)?)

lemma decode_message_sound:
  assumes "decode_message b = Inr m" "FieldSize \<le> length b" "length b \<le> MaxFieldSize"
    "get_uint16 b = ExtensionType" "unat (get_uint16 (slice 2 4 b)) = length b" "slice 4 8 b = CLPS" "b ! 8 = WireVersion"
  shows "validate m \<and> message_shape m \<and> field_bytes m = b"
proof -
  define dl where "dl = (if b ! 9 = Data then unat (get_uint16 (slice 84 86 b)) else 0)"
  define ex where "ex = (if b ! 9 = Get then MaxFieldSize else if b ! 9 = Data then FieldSize + pad4 dl else FieldSize)"
  have z: "get_uint16 (slice 86 88 b) = 0" and n: "ex = length b" "dl \<le> length b - FieldSize"
    and az: "allZero (drop (FieldSize + dl) b)" and v: "validate m"
    and m: "m = \<lparr>ms_Operation = b ! 9, ms_Result = get_uint16 (slice 10 12 b), ms_ID = slice 12 28 b,
               ms_Manifest = \<lparr>mf_Updated = get_uint64 (slice 28 36 b), mf_Expires = get_uint64 (slice 36 44 b),
                              mf_Digest = slice 44 76 b, mf_Size = get_uint32 (slice 76 80 b)\<rparr>,
               ms_Offset = get_uint32 (slice 80 84 b), ms_Count = get_uint16 (slice 84 86 b), ms_Data = slice FieldSize (FieldSize + dl) b\<rparr>"
    using assms(1) unfolding decode_message_def Let_def dl_def [symmetric] ex_def [symmetric]
    by (simp_all only: sum.distinct sum.inject split: if_split_asm) simp_all
  have shape: "message_shape m" using assms(2) by (simp add: m message_shape_def)
  have data: "length (ms_Data m) = dl" using n(2) assms(2) by (simp add: m)
  have fl: "field_length m = length b"
    using n(1) data by (auto simp: field_length_def ex_def m pad4_def dl_def split: if_splits)
  have "get_uint16 (slice 2 4 b) = of_nat (length b)" using assms(5) by (metis word_eq_of_unat)
  then have p2: "put_uint16 (of_nat (length b)) = slice 2 4 b" using put_get(1) [of "slice 2 4 b"] assms(2) by simp
  have "get_uint16 (slice 0 2 b) = get_uint16 b" by (simp add: get_uint16_def slice_def)
  then have p0: "put_uint16 ExtensionType = slice 0 2 b" using put_get(1) [of "slice 0 2 b"] assms(2,4) by simp
  have p8: "[WireVersion, b ! 9] = slice 8 10 b" using slice_pair [of 8 b] assms(2,7) by simp
  have "put_uint16 0 = [0, 0]" by (simp add: put_uint16_def numeral_2_eq_2)
  then have p86: "[0, 0] = slice 86 88 b" using put_get(1) [of "slice 86 88 b"] z assms(2) by simp
  have "drop (FieldSize + dl) b = replicate (length (drop (FieldSize + dl) b)) 0"
    using az unfolding allZero_def list_all_iff by (metis replicate_length_same)
  then have pad: "replicate (length b - FieldSize - dl) 0 = drop (FieldSize + dl) b" by (simp add: diff_diff_left)
  have tail: "slice FieldSize (FieldSize + dl) b @ drop (FieldSize + dl) b = drop FieldSize b"
    by (simp add: slice_def) (metis append_take_drop_id drop_drop add.commute)
  have head: "slice 0 2 b @ slice 2 4 b @ slice 4 8 b @ slice 8 10 b @ slice 10 12 b @ slice 12 28 b @ slice 28 36 b @ slice 36 44 b @
      slice 44 76 b @ slice 76 80 b @ slice 80 84 b @ slice 84 86 b @ slice 86 88 b @ drop FieldSize b = b"
  proof -
    have "slice 0 2 b @ slice 2 4 b @ slice 4 8 b @ slice 8 10 b @ slice 10 12 b @ slice 12 28 b @ slice 28 36 b @ slice 36 44 b @
      slice 44 76 b @ slice 76 80 b @ slice 80 84 b @ slice 84 86 b @ slice 86 88 b = take 88 b"
      using slice_split [of 84 86 88 b] slice_split [of 80 84 88 b] slice_split [of 76 80 88 b] slice_split [of 44 76 88 b]
        slice_split [of 36 44 88 b] slice_split [of 28 36 88 b] slice_split [of 12 28 88 b] slice_split [of 10 12 88 b]
        slice_split [of 8 10 88 b] slice_split [of 4 8 88 b] slice_split [of 2 4 88 b] slice_split [of 0 2 88 b]
      by (simp add: slice_def)
    then have "(slice 0 2 b @ slice 2 4 b @ slice 4 8 b @ slice 8 10 b @ slice 10 12 b @ slice 12 28 b @ slice 28 36 b @ slice 36 44 b @
      slice 44 76 b @ slice 76 80 b @ slice 80 84 b @ slice 84 86 b @ slice 86 88 b) @ drop 88 b = b" by simp
    then show ?thesis by simp
  qed
  have "field_bytes m = slice 0 2 b @ slice 2 4 b @ slice 4 8 b @ slice 8 10 b @ slice 10 12 b @ slice 12 28 b @ slice 28 36 b @ slice 36 44 b @
      slice 44 76 b @ slice 76 80 b @ slice 80 84 b @ slice 84 86 b @ slice 86 88 b @ drop FieldSize b"
    unfolding field_bytes_def fl data p0 p2 pad using assms(2,6) p8 p86 tail
    by (simp add: m put_get)
  then show ?thesis unfolding head using v shape by simp
qed

section \<open>A region of fields\<close>

definition other_field :: "byte list \<Rightarrow> bool" where
  \<comment> \<open>a well-framed field of another type\<close>
  "other_field f \<longleftrightarrow> ext_field f \<and> get_uint16 f \<noteq> ExtensionType"

lemma field_front:
  assumes "16 \<le> length f"
  shows "slice 2 4 (f @ rest) = slice 2 4 f" "get_uint16 (f @ rest) = get_uint16 f"
  using assms by (simp_all add: slice_within get_uint16_def)

lemma decode_fields_other:
  assumes "other_field f"
  shows "decode_fields (f @ rest) found seen un = decode_fields rest found seen un"
proof -
  have f: "16 \<le> length f" "length f mod 4 = 0" "unat (get_uint16 (slice 2 4 f)) = length f" "get_uint16 f \<noteq> ExtensionType"
    using assms by (simp_all add: other_field_def ext_field_def)
  then have "f \<noteq> []" by auto
  then show ?thesis using f by (subst decode_fields.simps) (simp add: field_front Let_def)
qed

lemma decode_fields_others:
  "list_all other_field fs \<Longrightarrow> decode_fields (concat fs @ rest) found seen un = decode_fields rest found seen un"
  by (induction fs) (simp_all add: decode_fields_other)

lemma decode_fields_field:
  assumes "validate m" "message_shape m"
  shows "decode_fields (field_bytes m @ rest) found False un = decode_fields rest (Some m) True un"
proof -
  let ?b = "field_bytes m"
  have len: "length ?b = field_length m" by (rule length_field_bytes [OF assms])
  have fl: "FieldSize \<le> field_length m" "field_length m \<le> MaxFieldSize" "field_length m mod 4 = 0"
    using field_length_bounds [OF assms(1)] by simp_all
  note acc = field_bytes_access [OF assms(2)]
  have s: "slice 2 4 (?b @ rest) = put_uint16 (of_nat (field_length m))" using field_front(1) [of ?b rest] acc(2) len fl(1) by simp
  have "?b \<noteq> []" using len fl(1) by auto
  then show ?thesis using fl len decode_message_field [OF assms]
    by (subst decode_fields.simps) (simp add: s acc Let_def)
qed

lemma decode_fields_end: "decode_fields [] found seen un = (if un then Inl ErrUnsupported else Inr found)"
  by (subst decode_fields.simps) simp

lemma decode_fields_step:
  assumes "decode_fields flds found seen un = Inr r" "flds \<noteq> []"
  obtains f rest where "flds = f @ rest" "other_field f" "decode_fields rest found seen un = Inr r" "length rest < length flds"
  | f rest where "flds = f @ rest" "\<not> seen" "decode_fields rest found True True = Inr r" "length rest < length flds"
  | m rest where "flds = field_bytes m @ rest" "\<not> seen" "validate m" "message_shape m" "decode_fields rest (Some m) True un = Inr r"
      "length rest < length flds"
proof -
  define n where "n = unat (get_uint16 (slice 2 4 flds))"
  let ?b = "take n flds" and ?rest = "drop n flds"
  have g: "\<not> length flds < 4" "\<not> (n < 16 \<or> n mod 4 \<noteq> 0 \<or> n > length flds)"
    using assms unfolding decode_fields.simps [of flds] Let_def n_def [symmetric] by (simp_all only: if_True if_False sum.distinct not_False_eq_True split: if_split_asm)
  then have n: "16 \<le> n" "n mod 4 = 0" "n \<le> length flds" by simp_all
  have d: "(if get_uint16 ?b \<noteq> ExtensionType then decode_fields ?rest found seen un
        else if seen then Inl (Rejection ''framing'')
        else if n < FieldSize \<or> n > MaxFieldSize then Inl (Rejection ''framing'')
        else if slice 4 8 ?b \<noteq> CLPS \<or> ?b ! 8 \<noteq> WireVersion then decode_fields ?rest found True True
        else case decode_message ?b of Inl e \<Rightarrow> Inl e | Inr m \<Rightarrow> decode_fields ?rest (Some m) True un) = Inr r"
    using assms(1) unfolding decode_fields.simps [of flds] Let_def n_def [symmetric] if_not_P [OF assms(2)] if_not_P [OF g(1)] if_not_P [OF g(2)] .
  have l: "length ?b = n" "flds = ?b @ ?rest" "length ?rest < length flds" using n by simp_all
  have s: "slice 2 4 ?b = slice 2 4 flds" using field_front(1) [of ?b ?rest] l(1) n(1) by simp
  consider (other) "get_uint16 ?b \<noteq> ExtensionType" "decode_fields ?rest found seen un = Inr r"
    | (un) "\<not> seen" "decode_fields ?rest found True True = Inr r"
    | (msg) m where "get_uint16 ?b = ExtensionType" "\<not> seen" "\<not> (n < FieldSize \<or> n > MaxFieldSize)" "slice 4 8 ?b = CLPS" "?b ! 8 = WireVersion"
        "decode_message ?b = Inr m" "decode_fields ?rest (Some m) True un = Inr r"
    using d by (auto split: if_split_asm sum.split_asm)
  then show thesis
  proof cases
    case other
    have "other_field ?b" using other(1) n l(1) s by (simp add: other_field_def ext_field_def n_def)
    from that(1) [OF l(2) this other(2) l(3)] show thesis .
  next
    case un
    from that(2) [OF l(2) un l(3)] show thesis .
  next
    case (msg m)
    have "validate m \<and> message_shape m \<and> field_bytes m = ?b"
      by (rule decode_message_sound [OF msg(6) _ _ msg(1) _ msg(4,5)]) (use msg(3) l(1) s n_def in auto)
    then show thesis using that(3) [of m ?rest] l msg(2,7) by simp
  qed
qed

lemma decode_fields_unsupported: "decode_fields flds found seen True \<noteq> Inr r"
proof (induction "length flds" arbitrary: flds found seen rule: less_induct)
  case less
  show ?case
  proof
    assume a: "decode_fields flds found seen True = Inr r"
    have "flds \<noteq> []" using a by (auto simp: decode_fields_end)
    with a show False by (cases rule: decode_fields_step) (use less in blast)+
  qed
qed

lemma decode_fields_seen:
  "decode_fields flds found True False = Inr r \<Longrightarrow> r = found \<and> (\<exists>fs. list_all other_field fs \<and> flds = concat fs)"
proof (induction "length flds" arbitrary: flds rule: less_induct)
  case less
  show ?case
  proof (cases "flds = []")
    case True
    then show ?thesis using less(2) by (auto simp: decode_fields_end intro: exI [of _ "[]"])
  next
    case False
    with less(2) show ?thesis
    proof (cases rule: decode_fields_step)
      case (1 f rest)
      from less(1) [OF 1(4,3)] obtain fs where "r = found" "list_all other_field fs" "rest = concat fs" by blast
      then show ?thesis using 1(1,2) by (intro conjI exI [of _ "f # fs"]) simp_all
    qed simp_all
  qed
qed

lemma decode_fields_found:
  "decode_fields flds None False False = Inr (Some m) \<Longrightarrow>
   \<exists>pre post. list_all other_field pre \<and> list_all other_field post \<and> validate m \<and> message_shape m \<and>
     flds = concat pre @ field_bytes m @ concat post"
proof (induction "length flds" arbitrary: flds rule: less_induct)
  case less
  have ne: "flds \<noteq> []" using less(2) by (auto simp: decode_fields_end)
  from less(2) ne show ?case
  proof (cases rule: decode_fields_step)
    case (1 f rest)
    from less(1) [OF 1(4,3)] obtain pre post where
      "list_all other_field pre" "list_all other_field post" "validate m" "message_shape m" "rest = concat pre @ field_bytes m @ concat post"
      by blast
    then show ?thesis using 1(1,2) by (intro exI [of _ "f # pre"] exI [of _ post]) simp
  next
    case (2 f rest)
    then show ?thesis using decode_fields_unsupported by blast
  next
    case (3 m' rest)
    from decode_fields_seen [OF 3(5)] obtain fs where "m' = m" "list_all other_field fs" "rest = concat fs" by auto
    then show ?thesis using 3(1,3,4) by (intro exI [of _ "[]"] exI [of _ fs]) simp
  qed
qed

lemma DecodeFields_iff:
  "DecodeFields flds = Inr (Some m) \<longleftrightarrow>
   (\<exists>pre post. list_all other_field pre \<and> list_all other_field post \<and> validate m \<and> message_shape m \<and>
     flds = concat pre @ field_bytes m @ concat post)"
proof
  assume "DecodeFields flds = Inr (Some m)"
  then show "\<exists>pre post. list_all other_field pre \<and> list_all other_field post \<and> validate m \<and> message_shape m \<and>
     flds = concat pre @ field_bytes m @ concat post" unfolding DecodeFields_def by (rule decode_fields_found)
next
  assume "\<exists>pre post. list_all other_field pre \<and> list_all other_field post \<and> validate m \<and> message_shape m \<and>
     flds = concat pre @ field_bytes m @ concat post"
  then obtain pre post where p: "list_all other_field pre" "list_all other_field post" "validate m" "message_shape m"
    "flds = concat pre @ field_bytes m @ concat post" by blast
  have "decode_fields (concat post) (Some m) True False = Inr (Some m)"
    using decode_fields_others [OF p(2), of "[]"] by (simp add: decode_fields_end)
  then show "DecodeFields flds = Inr (Some m)"
    by (simp add: DecodeFields_def p(5) decode_fields_others [OF p(1)] decode_fields_field [OF p(3,4)])
qed

section \<open>Replies\<close>

lemma chunk_at_nat:
  assumes "offset < sz"
  shows "chunk_at sz offset = min 256 (unat sz - unat offset)" "unat (offset + of_nat (chunk_at sz offset)) = unat offset + chunk_at sz offset"
    "unat offset + chunk_at sz offset \<le> unat sz"
proof -
  have l: "unat offset < unat sz" using assms by (simp add: word_less_nat_alt)
  have "unat (sz - offset) = unat sz - unat offset" using assms by (intro unat_sub) simp
  then show c: "chunk_at sz offset = min 256 (unat sz - unat offset)" by (simp add: chunk_at_def)
  then show le: "unat offset + chunk_at sz offset \<le> unat sz" using l by simp
  have b: "unat offset + chunk_at sz offset < 2 ^ 32" using le unat_bound [of sz] by simp
  have "unat (of_nat (chunk_at sz offset) :: uint32) = chunk_at sz offset" using b by (simp add: unat_of_nat)
  then show "unat (offset + of_nat (chunk_at sz offset)) = unat offset + chunk_at sz offset"
    using b by (simp add: unat_word_ariths)
qed

lemma Reply_Probe:
  assumes "validate q" "ms_Operation q = Probe"
  shows "Reply (Some q) ob = Some (Inr (zero_message\<lparr>ms_Operation := ManifestReply, ms_Result := (if ob = None then NoTable else OK),
     ms_ID := ms_ID q, ms_Manifest := (case ob of None \<Rightarrow> zero_manifest | Some o' \<Rightarrow> ob_manifest o')\<rparr>))"
  using assms by (simp add: Reply_def zero_message_def Let_def split: option.split)

lemma Reply_Get:
  assumes "validate q" "ms_Operation q = Get" "object_ok ob" "ob_manifest ob = ms_Manifest q"
  shows "Reply (Some q) (Some ob) = Some (Inr (zero_message\<lparr>ms_Operation := Data, ms_ID := ms_ID q, ms_Manifest := ms_Manifest q, ms_Offset := ms_Offset q,
     ms_Count := of_nat (chunk_at (mf_Size (ms_Manifest q)) (ms_Offset q)),
     ms_Data := take 256 (drop (unat (ms_Offset q)) (ob_data ob))\<rparr>))"
proof -
  let ?sz = "mf_Size (ms_Manifest q)" and ?o = "ms_Offset q"
  have lt: "?o < ?sz" using assms(1,2) by (simp add: validate_def split: if_splits)
  note c = chunk_at_nat [OF lt]
  have len: "unat ?sz = length (ob_data ob)" using object_size [OF assms(3)] assms(4) by simp
  have "slice (unat ?o) (unat ?o + chunk_at ?sz ?o) (ob_data ob) = take (chunk_at ?sz ?o) (drop (unat ?o) (ob_data ob))"
    by (simp add: slice_def)
  also have "\<dots> = take 256 (drop (unat ?o) (ob_data ob))" unfolding c(1) len by (simp add: min_def)
  finally have s: "slice_checked (unat ?o) (unat (?o + of_nat (chunk_at ?sz ?o))) (ob_data ob) = Some (take 256 (drop (unat ?o) (ob_data ob)))"
    using c len by (simp add: slice_checked_def)
  show ?thesis using assms s by (simp add: Reply_def Let_def)
qed

lemma Reply_other: "validate q \<Longrightarrow> ms_Operation q \<noteq> Probe \<Longrightarrow> ms_Operation q \<noteq> Get \<Longrightarrow> Reply (Some q) ob = Some (Inl OtherError)"
  by (simp add: Reply_def Let_def)

lemma Reply_Get_missing:
  assumes "validate q" "ms_Operation q = Get" "\<forall>obj. ob = Some obj \<longrightarrow> ob_manifest obj \<noteq> ms_Manifest q"
  shows "Reply (Some q) ob = Some (Inr (zero_message\<lparr>ms_Operation := Data, ms_Result := NotFound, ms_ID := ms_ID q, ms_Manifest := ms_Manifest q, ms_Offset := ms_Offset q\<rparr>))"
  using assms by (cases ob) (simp_all add: Reply_def Let_def)

definition reply_to :: "message \<Rightarrow> leap_object option \<Rightarrow> message \<Rightarrow> bool" where
  \<comment> \<open>what every reply is: it answers the request, fits in its field and can be encoded\<close>
  "reply_to q ob r \<longleftrightarrow> ms_ID r = ms_ID q \<and> message_shape r \<and> field_length r \<le> field_length q \<and>
     (validate r \<or> (\<exists>obj. ob = Some obj \<and> sha256_Sum256 (ob_data obj) = replicate 32 0))"

lemma Reply_fits:
  assumes "validate q" "message_shape q" "\<forall>obj. ob = Some obj \<longrightarrow> object_ok obj"
  shows "if ms_Operation q = Probe \<or> ms_Operation q = Get then \<exists>r. Reply (Some q) ob = Some (Inr r) \<and> reply_to q ob r
         else Reply (Some q) ob = Some (Inl OtherError)"
proof -
  have id: "ms_ID q \<noteq> replicate 16 0" using assms(1) by (simp add: validate_def split: if_splits)
  show ?thesis
  proof (cases "ms_Operation q = Probe \<or> ms_Operation q = Get")
    case False
    then show ?thesis using Reply_other [OF assms(1)] by simp
  next
    case op: True
    have "\<exists>r. Reply (Some q) ob = Some (Inr r) \<and> reply_to q ob r"
    proof (cases "ms_Operation q = Probe")
      case True
      have fq: "field_length q = 88" using assms(1) True by (auto simp: field_length_def pad4_def validate_def split: if_splits)
      show ?thesis
      proof (cases ob)
        case None
        then show ?thesis using Reply_Probe [OF assms(1) True, of ob] id assms(2) fq
          by (simp add: reply_to_def zero_message_def zero_manifest_def message_shape_def field_length_def pad4_def validate_def)
      next
        case (Some obj)
        have ok: "object_ok obj" using assms(3) Some by simp
        have sz: "mf_Size (ob_manifest obj) \<noteq> 0" using object_size [OF ok] ok by (auto simp: object_ok_def unat_eq_0)
        then have nz: "ob_manifest obj \<noteq> zero_manifest" by (auto simp: zero_manifest_def)
        show ?thesis using Reply_Probe [OF assms(1) True, of ob] id assms(2) fq Some ok nz object_manifest_valid [OF ok]
          by (auto simp: reply_to_def zero_message_def message_shape_def field_length_def pad4_def validate_def object_ok_def)
      qed
    next
      case False
      then have g: "ms_Operation q = Get" using op by simp
      then have fq: "field_length q = 344" by (simp add: field_length_def)
      have q: "ms_Manifest q \<noteq> zero_manifest" "manifest_Validate (ms_Manifest q)" "ms_Offset q < mf_Size (ms_Manifest q)"
        "unat (ms_Offset q) mod ChunkSize = 0"
        using assms(1) g by (simp_all add: validate_def split: if_splits)
      show ?thesis
      proof (cases "\<exists>obj. ob = Some obj \<and> ob_manifest obj = ms_Manifest q")
        case False
        then show ?thesis using Reply_Get_missing [OF assms(1) g, of ob] id assms(2) fq q
          by (simp add: reply_to_def zero_message_def message_shape_def field_length_def pad4_def validate_def)
      next
        case True
        then obtain obj where o: "ob = Some obj" "ob_manifest obj = ms_Manifest q" by blast
        have ok: "object_ok obj" using assms(3) o by simp
        note c = chunk_at_nat [OF q(3)]
        have len: "length (take 256 (drop (unat (ms_Offset q)) (ob_data obj))) = chunk_at (mf_Size (ms_Manifest q)) (ms_Offset q)"
          unfolding c(1) using object_size [OF ok] o(2) by (simp add: min.commute)
        have ch: "chunk_at (mf_Size (ms_Manifest q)) (ms_Offset q) \<le> 256" by (simp add: chunk_at_def)
        show ?thesis using Reply_Get [OF assms(1) g ok o(2)] o(1) id assms(2) fq q len ch pad4_chunk [OF ch]
          by (simp add: reply_to_def zero_message_def message_shape_def field_length_def validate_def)
      qed
    qed
    then show ?thesis using op by simp
  qed
qed

section \<open>Transfers\<close>

definition get_request :: "byte list \<Rightarrow> manifest \<Rightarrow> nat \<Rightarrow> message" where
  \<comment> \<open>the request for chunk \<open>k\<close>\<close>
  "get_request ident mf k = zero_message\<lparr>ms_Operation := Get, ms_ID := ident, ms_Manifest := mf,
     ms_Offset := of_nat (ChunkSize * k), ms_Count := of_nat ChunkSize\<rparr>"

definition reply_data :: "(leap_error + message) option \<Rightarrow> byte list" where
  "reply_data r = (case r of Some (Inr m) \<Rightarrow> ms_Data m | _ \<Rightarrow> [])"

lemma concat_chunks: "0 < c \<Longrightarrow> concat (map (\<lambda>k. take c (drop (c * k) bs)) [0..<n]) = take (c * n) bs"
proof (induction n)
  case (Suc n)
  have "take (c * n) bs @ take c (drop (c * n) bs) = take (c * n + c) bs" by (rule take_add [symmetric])
  with Suc show ?case by (simp add: add.commute)
qed simp

lemma get_request_valid:
  assumes "object_ok ob" "sha256_Sum256 (ob_data ob) \<noteq> replicate 32 0" "ident \<noteq> replicate 16 0" "256 * k < length (ob_data ob)"
  shows "validate (get_request ident (ob_manifest ob) k)" "unat (of_nat (256 * k) :: uint32) = 256 * k"
proof -
  have "256 * k < 65536" using assms(1,4) by (auto simp: object_ok_def)
  then show u: "unat (of_nat (256 * k) :: uint32) = 256 * k" by (simp add: unat_of_nat del: of_nat_mult)
  have sz: "unat (mf_Size (ob_manifest ob)) = length (ob_data ob)" by (rule object_size [OF assms(1)])
  have lt: "(of_nat (256 * k) :: uint32) < mf_Size (ob_manifest ob)" unfolding word_less_nat_alt u sz by (rule assms(4))
  then have "ob_manifest ob \<noteq> zero_manifest" by (auto simp: zero_manifest_def)
  then show "validate (get_request ident (ob_manifest ob) k)"
    using object_manifest_valid [OF assms(1,2)] assms(3) lt u
    by (simp add: validate_def get_request_def zero_message_def del: of_nat_mult)
qed

lemma transfer_chunk:
  assumes "object_ok ob" "sha256_Sum256 (ob_data ob) \<noteq> replicate 32 0" "ident \<noteq> replicate 16 0" "256 * k < length (ob_data ob)"
  shows "reply_data (Reply (Some (get_request ident (ob_manifest ob) k)) (Some ob)) = take 256 (drop (256 * k) (ob_data ob))"
  using Reply_Get [OF get_request_valid(1) [OF assms] _ assms(1)] get_request_valid(2) [OF assms]
  by (simp add: reply_data_def get_request_def del: of_nat_mult)

lemma transfer_all:
  assumes "object_ok ob" "sha256_Sum256 (ob_data ob) \<noteq> replicate 32 0" "ident \<noteq> replicate 16 0"
  shows "concat (map (\<lambda>k. reply_data (Reply (Some (get_request ident (ob_manifest ob) k)) (Some ob)))
           [0..<(length (ob_data ob) + 255) div 256]) = ob_data ob"
proof -
  let ?n = "(length (ob_data ob) + 255) div 256"
  have n: "length (ob_data ob) + 255 = 256 * ?n + (length (ob_data ob) + 255) mod 256" "(length (ob_data ob) + 255) mod 256 < 256"
    by simp_all
  have "256 * k < length (ob_data ob)" if "k < ?n" for k using that n by linarith
  then have m: "map (\<lambda>k. reply_data (Reply (Some (get_request ident (ob_manifest ob) k)) (Some ob))) [0..<?n] =
      map (\<lambda>k. take 256 (drop (256 * k) (ob_data ob))) [0..<?n]"
    using transfer_chunk [OF assms] by simp
  have "length (ob_data ob) \<le> 256 * ?n" using n by linarith
  then show ?thesis unfolding m using concat_chunks [of 256 "ob_data ob" ?n] by simp
qed

section \<open>Properties\<close>

text \<open>C22: The decoder accepts exactly what the encoder writes: a region of extension fields yields a message if and only if it
  is a chain of well-framed fields of other types with, once among them, the bytes the encoder appends for
  that message. There is one encoding of every message, and no second field of this type.\<close>
theorem DecodeFields_exactly_AppendTo:
  "DecodeFields flds = Inr (Some m) \<longleftrightarrow>
   (\<exists>pre post bs. list_all other_field pre \<and> list_all other_field post \<and> message_shape m \<and>
     message_AppendTo m (concat pre) = Inr bs \<and> flds = bs @ concat post)"
  unfolding DecodeFields_iff message_AppendTo_def by auto

text \<open>C23: A client that asks for the chunks of a list one after the other, 256 bytes each, and joins the replies gets exactly
  the bytes of the file, for every list a server can hold (unless the SHA-256 of the file is all zeros,
  which the protocol reserves).\<close>
theorem transfer_reassembles:
  assumes "NewObject bs = Inr ob" "ident \<noteq> replicate 16 0"
  shows "sha256_Sum256 bs = replicate 32 0 \<or>
    concat (map (\<lambda>k. reply_data (Reply (Some (get_request ident (ob_manifest ob) k)) (Some ob)))
      [0..<(length bs + 255) div 256]) = bs"
  using NewObject_ok [OF assms(1)] transfer_all [OF _ _ assms(2), of ob] by auto

theorem transfer_reassembles_witness:
  "sha256_Sum256 (bytes_of sample_leap_file) = replicate 32 0 \<or>
   concat (map (\<lambda>k. reply_data (Reply (Some (get_request (replicate 16 7) (ob_manifest (sample_object sample_leap_file sample_leap_table)) k))
        (Some (sample_object sample_leap_file sample_leap_table)))) [0..<(length (bytes_of sample_leap_file) + 255) div 256])
     = bytes_of sample_leap_file"
proof -
  have "replicate 16 7 \<noteq> replicate 16 (0::byte)" by simp
  from transfer_reassembles [OF sample_objects(1) this] show ?thesis .
qed

end
