(* ===== verification/Leap_Distributor.thy ===== *)
theory Leap_Distributor
  imports Leap_Wire
begin

text \<open>
  \<^verbatim>\<open>internal/leap/distributor.go\<close>: the budgets that bound how often leap-second lists are served, and the
  distributor every listener shares. A budget is one atomic 64-bit word that goroutines update with
  compare-and-swap; \<open>budget_run\<close> interleaves any number of calls at the grain of the atomic operations, and \<open>allow\<close>
  is a call with no other in between.
\<close>

section \<open>Budgets\<close>

datatype call_phase = Loading nat | Swapping nat int | Returned bool
  \<comment> \<open>with the number of tries used and, before the swap, the value loaded\<close>

definition budget_next :: "int \<Rightarrow> duration \<Rightarrow> int \<Rightarrow> int" where
  "budget_next now interval old = int64_wrap (max old now + interval)"

definition over_budget :: "int \<Rightarrow> duration \<Rightarrow> int \<Rightarrow> int \<Rightarrow> bool" where
  "over_budget now interval burst nxt \<longleftrightarrow> int64_wrap (nxt - now) > int64_wrap (burst * interval)"

fun call_step :: "duration \<Rightarrow> int \<Rightarrow> int \<Rightarrow> int \<Rightarrow> call_phase \<Rightarrow> int \<times> call_phase" where
  \<comment> \<open>one atomic action of a call on the shared word\<close>
  "call_step interval burst now end' (Loading tries) =
     (if \<not> tries < 8 then (end', Returned False)
      else if over_budget now interval burst (budget_next now interval end') then (end', Returned False)
      else (end', Swapping tries end'))"
| "call_step interval burst now end' (Swapping tries old) =
     (if end' = old then (budget_next now interval old, Returned True) else (end', Loading (tries + 1)))"
| "call_step interval burst now end' (Returned r) = (end', Returned r)"

definition allow :: "int \<Rightarrow> int \<Rightarrow> duration \<Rightarrow> int \<Rightarrow> bool \<times> int" where
  \<comment> \<open>a call that runs alone: the answer and the new word\<close>
  "allow end' now interval burst =
     (let nxt = budget_next now interval end'
      in if over_budget now interval burst nxt then (False, end') else (True, nxt))"

record budget_run =
  br_end :: int
  br_calls :: "(int \<times> call_phase) list"
  br_grants :: "(int \<times> int) list"
    \<comment> \<open>the time of every granted call and the word it stored, the latest first\<close>

definition budget_start :: budget_run where
  "budget_start = \<lparr>br_end = 0, br_calls = [], br_grants = []\<rparr>"

inductive budget_reach :: "duration \<Rightarrow> int \<Rightarrow> budget_run \<Rightarrow> bool" for interval burst where
  start: "budget_reach interval burst budget_start"
| call: "budget_reach interval burst s \<Longrightarrow> 0 \<le> now \<Longrightarrow> now < 2 ^ 62 \<Longrightarrow>
    budget_reach interval burst (s\<lparr>br_calls := br_calls s @ [(now, Loading 0)]\<rparr>)"
| step: "budget_reach interval burst s \<Longrightarrow> i < length (br_calls s) \<Longrightarrow> br_calls s ! i = (now, ph) \<Longrightarrow>
    call_step interval burst now (br_end s) ph = (e, ph') \<Longrightarrow>
    budget_reach interval burst (s\<lparr>br_end := e, br_calls := (br_calls s)[i := (now, ph')],
      br_grants := (if ph \<noteq> Returned True \<and> ph' = Returned True then (now, e) # br_grants s else br_grants s)\<rparr>)"

section \<open>The distributor\<close>

record distributor =
  ds_keys :: "uint32 \<rightharpoonup> int"
    \<comment> \<open>the budget of every key\<close>
  ds_global :: int
  ds_epoch :: gtime
  ds_RateLimited :: nat
  ds_Served :: nat

definition NewDistributor :: "uint32 list \<Rightarrow> gtime \<Rightarrow> distributor" where
  \<comment> \<open>at the given time\<close>
  "NewDistributor keys now =
     \<lparr>ds_keys = foldl (\<lambda>m k. if k \<noteq> 0 then m(k \<mapsto> 0) else m) Map.empty keys, ds_global = 0, ds_epoch = now,
      ds_RateLimited = 0, ds_Served = 0\<rparr>"

definition Authorized :: "distributor option \<Rightarrow> uint32 \<Rightarrow> bool" where
  "Authorized d k = (case d of None \<Rightarrow> False | Some ds \<Rightarrow> ds_keys ds k \<noteq> None)"

definition current_object :: "leap_object option \<Rightarrow> gtime \<Rightarrow> leap_object option" where
  \<comment> \<open>the object while it covers the time\<close>
  "current_object ob wall =
     (case ob of None \<Rightarrow> None
      | Some obj \<Rightarrow> if \<not> wall < tb_Expiry (ob_table obj) \<or> wall < tb_Baseline (ob_table obj) then None else Some obj)"

definition Respond :: "leap_object option \<Rightarrow> distributor \<Rightarrow> message option \<Rightarrow> uint32 \<Rightarrow> gtime \<Rightarrow> gtime \<Rightarrow>
    (distributor \<times> (leap_error + message)) option" where
  \<comment> \<open>the first argument is what \<^verbatim>\<open>d.current()\<close> returns\<close>
  "Respond cur d req k wall mono_now =
     (case ds_keys d k of
        None \<Rightarrow> Some (d, Inl (Rejection ''auth''))
      | Some budget \<Rightarrow>
          (let now = time_sub mono_now (ds_epoch d);
               limited = (\<lambda>d. Some (d\<lparr>ds_RateLimited := ds_RateLimited d + 1\<rparr>, Inl (Rejection ''rate'')))
           in if now < 0 then limited d
              else (let (ok, budget') = allow budget now (4 * second_ns) 2;
                        d = d\<lparr>ds_keys := (ds_keys d)(k \<mapsto> budget')\<rparr>
                    in if \<not> ok then limited d
                       else (let (ok, global) = allow (ds_global d) now (second_ns div 32) 32;
                                 d = d\<lparr>ds_global := global\<rparr>
                             in if \<not> ok then limited d
                                else case Reply req (current_object cur wall) of
                                    None \<Rightarrow> None
                                  | Some (Inl e) \<Rightarrow> Some (d, Inl e)
                                  | Some (Inr r) \<Rightarrow> Some (d\<lparr>ds_Served := ds_Served d + 1\<rparr>, Inr r)))))"

section \<open>What a budget promises\<close>

definition gcra_params :: "duration \<Rightarrow> int \<Rightarrow> bool" where
  "gcra_params interval burst \<longleftrightarrow> 0 < interval \<and> 0 \<le> burst \<and> burst * interval < 2 ^ 61 \<and> interval < 2 ^ 61"

fun grants_ok :: "duration \<Rightarrow> int \<Rightarrow> int \<Rightarrow> (int \<times> int) list \<Rightarrow> bool" where
  \<comment> \<open>the word and the grants that led to it\<close>
  "grants_ok interval burst e [] \<longleftrightarrow> e = 0"
| "grants_ok interval burst e ((now, e') # gs) \<longleftrightarrow>
     e = e' \<and> 0 \<le> now \<and> now + interval \<le> e \<and> e \<le> now + burst * interval \<and>
     (\<exists>e0. grants_ok interval burst e0 gs \<and> e0 + interval \<le> e)"

lemma grants_ok_nonneg: "grants_ok interval burst e gs \<Longrightarrow> gcra_params interval burst \<Longrightarrow> 0 \<le> e"
  by (cases gs) (auto simp: gcra_params_def)

lemma grant_step:
  assumes "gcra_params interval burst" "0 \<le> now" "now < 2 ^ 62" "0 \<le> e" "e < 2 ^ 62 + 2 ^ 61"
    "\<not> over_budget now interval burst (budget_next now interval e)"
  shows "budget_next now interval e = max e now + interval" "max e now + interval \<le> now + burst * interval"
proof -
  have g: "0 < interval" "interval < 2 ^ 61" "0 \<le> burst * interval" "burst * interval < 2 ^ 61"
    using assms(1) by (simp_all add: gcra_params_def)
  show n: "budget_next now interval e = max e now + interval"
    unfolding budget_next_def by (rule int64_wrap_id) (use assms g in auto)
  have "int64_wrap (max e now + interval - now) = max e now + interval - now"
    by (rule int64_wrap_id) (use assms g in auto)
  moreover have "int64_wrap (burst * interval) = burst * interval" by (rule int64_wrap_id) (use g in auto)
  ultimately show "max e now + interval \<le> now + burst * interval" using assms(6) unfolding over_budget_def n by simp
qed

lemma grants_ok_bound: "grants_ok interval burst e gs \<Longrightarrow> gcra_params interval burst \<Longrightarrow> \<forall>g \<in> set gs. fst g < 2 ^ 62 \<Longrightarrow> e < 2 ^ 62 + 2 ^ 61"
  by (cases gs) (auto simp: gcra_params_def)

definition call_ok :: "duration \<Rightarrow> int \<Rightarrow> int \<times> call_phase \<Rightarrow> bool" where
  "call_ok interval burst c \<longleftrightarrow> 0 \<le> fst c \<and> fst c < 2 ^ 62 \<and>
     (case snd c of Swapping tries old \<Rightarrow> tries < 8 \<and> \<not> over_budget (fst c) interval burst (budget_next (fst c) interval old)
      | Loading tries \<Rightarrow> tries \<le> 8 | Returned r \<Rightarrow> True)"

definition run_ok :: "duration \<Rightarrow> int \<Rightarrow> budget_run \<Rightarrow> bool" where
  "run_ok interval burst s \<longleftrightarrow> list_all (call_ok interval burst) (br_calls s) \<and>
     grants_ok interval burst (br_end s) (br_grants s) \<and> (\<forall>g \<in> set (br_grants s). 0 \<le> fst g \<and> fst g < 2 ^ 62)"

lemma budget_invariant:
  assumes "gcra_params interval burst" "budget_reach interval burst s"
  shows "run_ok interval burst s"
  using assms(2)
proof (induction rule: budget_reach.induct)
  case start
  then show ?case by (simp add: run_ok_def budget_start_def)
next
  case (call s now)
  then show ?case by (simp add: run_ok_def call_ok_def)
next
  case (step s i now ph e ph')
  have c: "call_ok interval burst (now, ph)" using step(2,3,5) by (metis list_all_length run_ok_def)
  have g: "grants_ok interval burst (br_end s) (br_grants s)" "\<forall>g \<in> set (br_grants s). 0 \<le> fst g \<and> fst g < 2 ^ 62"
    using step(5) by (simp_all add: run_ok_def)
  have e0: "0 \<le> br_end s" "br_end s < 2 ^ 62 + 2 ^ 61"
    using grants_ok_nonneg [OF g(1) assms(1)] grants_ok_bound [OF g(1) assms(1)] g(2) by auto
  have upd: "list_all (call_ok interval burst) ((br_calls s)[i := (now, ph')])" if "call_ok interval burst (now, ph')"
    using step(5) that by (auto simp: run_ok_def list_all_iff dest: set_update_subset_insert [THEN subsetD])
  show ?case
  proof (cases "ph \<noteq> Returned True \<and> ph' = Returned True")
    case True
    then obtain tries where ph: "ph = Swapping tries (br_end s)" and e: "e = budget_next now interval (br_end s)"
      using step(4) by (cases ph) (auto split: if_splits)
    have "0 \<le> now" "now < 2 ^ 62" "\<not> over_budget now interval burst (budget_next now interval (br_end s))"
      using c by (simp_all add: call_ok_def ph)
    note n = this grant_step [OF assms(1) this(1,2) e0 this(3)]
    have "grants_ok interval burst e ((now, e) # br_grants s)"
      using n g(1) by (auto simp: e intro!: exI [of _ "br_end s"])
    then show ?thesis using True upd c g(2) by (simp add: run_ok_def call_ok_def)
  next
    case False
    then have "e = br_end s" "call_ok interval burst (now, ph')"
      using step(4) c by (cases ph; auto simp: call_ok_def split: if_splits)+
    then show ?thesis using upd g unfolding if_not_P [OF False] by (simp add: run_ok_def)
  qed
qed

lemma grants_window:
  assumes "gcra_params interval burst" "grants_ok interval burst e gs" "\<forall>g \<in> set gs. 0 \<le> fst g"
    "filter (\<lambda>g. t0 \<le> fst g \<and> fst g \<le> t1) gs \<noteq> []"
  shows "int (length (filter (\<lambda>g. t0 \<le> fst g \<and> fst g \<le> t1) gs)) * interval \<le> e - t0"
  using assms(2-4)
proof (induction gs arbitrary: e)
  case (Cons g gs)
  obtain now e' where g: "g = (now, e')" by (cases g)
  obtain e0 where e0: "grants_ok interval burst e0 gs" "e0 + interval \<le> e" and n: "now + interval \<le> e"
    using Cons.prems(1) by (auto simp: g)
  let ?f = "filter (\<lambda>g. t0 \<le> fst g \<and> fst g \<le> t1) gs"
  show ?case
  proof (cases "?f = []")
    case True
    then show ?thesis using Cons.prems(3) n by (auto simp: g split: if_splits)
  next
    case False
    have "int (length ?f) * interval \<le> e0 - t0" using Cons.IH [OF e0(1) _ False] Cons.prems(2) by simp
    moreover have "0 < interval" using assms(1) by (simp add: gcra_params_def)
    ultimately show ?thesis using e0(2) by (auto simp: algebra_simps)
  qed
qed simp

lemma grants_last:
  assumes "gcra_params interval burst" "grants_ok interval burst e gs" "t0 \<le> t1"
    "\<forall>g \<in> set gs. 0 \<le> fst g"
  shows "int (length (filter (\<lambda>g. t0 \<le> fst g \<and> fst g \<le> t1) gs)) * interval \<le> t1 - t0 + burst * interval"
  using assms(2,4)
proof (induction gs arbitrary: e)
  case (Cons g gs)
  obtain now e' where g: "g = (now, e')" by (cases g)
  obtain e0 where e0: "grants_ok interval burst e0 gs" and n: "e \<le> now + burst * interval"
    using Cons.prems(1) by (auto simp: g)
  show ?case
  proof (cases "t0 \<le> now \<and> now \<le> t1")
    case True
    then have "filter (\<lambda>g. t0 \<le> fst g \<and> fst g \<le> t1) (g # gs) \<noteq> []" by (simp add: g)
    from grants_window [OF assms(1) Cons.prems this] True n show ?thesis by linarith
  next
    case False
    then show ?thesis using Cons.IH [OF e0] Cons.prems(2) by (auto simp: g)
  qed
qed (use assms(1,3) in \<open>simp add: gcra_params_def\<close>)

text \<open>A call that runs alone needs two actions and gives the answer of \<open>allow\<close>.\<close>

lemma allow_alone:
  "call_step interval burst now e (Loading 0) = (e, ph) \<Longrightarrow> call_step interval burst now e ph = (e', ph') \<Longrightarrow>
   ph' = Returned (fst (allow e now interval burst)) \<and> e' = snd (allow e now interval burst)"
  by (auto simp: allow_def Let_def split: if_splits)

text \<open>Every action brings an unfinished call closer to its end, whatever the others do.\<close>

fun call_rank :: "call_phase \<Rightarrow> nat" where
  "call_rank (Loading tries) = 2 * (8 - tries) + 1"
| "call_rank (Swapping tries old) = 2 * (8 - tries)"
| "call_rank (Returned r) = 0"

lemma call_step_rank:
  assumes "call_ok interval burst (now, ph)" "call_step interval burst now e ph = (e', ph')" "\<forall>r. ph \<noteq> Returned r"
  shows "call_rank ph' < call_rank ph"
  using assms by (cases ph) (auto simp: call_ok_def split: if_splits)

section \<open>What the distributor returns\<close>

lemma current_object_cases: "current_object ob wall = None \<or> current_object ob wall = ob"
  by (auto simp: current_object_def split: option.split)

lemma Respond_fits:
  assumes "validate q" "message_shape q" "\<forall>obj. cur = Some obj \<longrightarrow> object_ok obj"
  obtains d' out where "Respond cur d (Some q) k wall mono_now = Some (d', out)"
    "case out of Inl e \<Rightarrow> True | Inr r \<Rightarrow> reply_to q cur r"
proof -
  have "\<forall>obj. current_object cur wall = Some obj \<longrightarrow> object_ok obj" using assms(3) current_object_cases [of cur wall] by auto
  from Reply_fits [OF assms(1,2) this] obtain o' where r: "Reply (Some q) (current_object cur wall) = Some o'"
    "case o' of Inl e \<Rightarrow> True | Inr r \<Rightarrow> reply_to q (current_object cur wall) r"
    by (auto split: if_splits)
  then have r2: "case o' of Inl e \<Rightarrow> True | Inr r \<Rightarrow> reply_to q cur r"
    using current_object_cases [of cur wall] by (auto simp: reply_to_def split: sum.splits)
  have "\<exists>d' out. Respond cur d (Some q) k wall mono_now = Some (d', out) \<and> (case out of Inl e \<Rightarrow> True | Inr r \<Rightarrow> reply_to q cur r)"
    using r(1) r2 by (cases o') (auto simp: Respond_def Let_def split: option.split prod.split)
  then show ?thesis using that by blast
qed

section \<open>Properties\<close>

definition sample_budget_run :: budget_run where
  \<comment> \<open>two calls at one instant; the second to load loses the swap and is granted on its second try\<close>
  "sample_budget_run = \<lparr>br_end = 8000000005, br_calls = [(5, Returned True), (5, Returned True)],
     br_grants = [(5, 8000000005), (5, 4000000005)]\<rparr>"

lemma sample_budget_reach: "budget_reach (4 * second_ns) 2 sample_budget_run"
proof -
  note w = int64_wrap_def budget_next_def over_budget_def
  let ?R = "budget_reach (4 * second_ns) 2"
  have "?R \<lparr>br_end = 0, br_calls = [(5, Loading 0)], br_grants = []\<rparr>"
    using budget_reach.call [OF budget_reach.start, of 5 "4 * second_ns" 2] by (simp add: budget_start_def)
  from budget_reach.call [OF this, of 5] have "?R \<lparr>br_end = 0, br_calls = [(5, Loading 0), (5, Loading 0)], br_grants = []\<rparr>" by simp
  from budget_reach.step [OF this, of 0 5 "Loading 0"] have "?R \<lparr>br_end = 0, br_calls = [(5, Swapping 0 0), (5, Loading 0)], br_grants = []\<rparr>"
    by (simp add: w)
  from budget_reach.step [OF this, of 1 5 "Loading 0"] have "?R \<lparr>br_end = 0, br_calls = [(5, Swapping 0 0), (5, Swapping 0 0)], br_grants = []\<rparr>"
    by (simp add: w)
  from budget_reach.step [OF this, of 0 5 "Swapping 0 0"]
  have "?R \<lparr>br_end = 4000000005, br_calls = [(5, Returned True), (5, Swapping 0 0)], br_grants = [(5, 4000000005)]\<rparr>"
    by (simp add: w)
  from budget_reach.step [OF this, of 1 5 "Swapping 0 0"]
  have "?R \<lparr>br_end = 4000000005, br_calls = [(5, Returned True), (5, Loading 1)], br_grants = [(5, 4000000005)]\<rparr>"
    by (simp add: w)
  from budget_reach.step [OF this, of 1 5 "Loading 1"]
  have "?R \<lparr>br_end = 4000000005, br_calls = [(5, Returned True), (5, Swapping 1 4000000005)], br_grants = [(5, 4000000005)]\<rparr>"
    by (simp add: w)
  from budget_reach.step [OF this, of 1 5 "Swapping 1 4000000005"] show ?thesis by (simp add: w sample_budget_run_def)
qed

text \<open>C20: A budget holds under every interleaving of its callers: among the calls whose times lie in one window, no more are
  granted than the burst and one per interval of the window, for any number of concurrent calls, in
  whatever order their times are.\<close>
theorem budget_bound:
  assumes "gcra_params interval burst" "budget_reach interval burst s" "t0 \<le> t1"
  shows "int (length (filter (\<lambda>g. t0 \<le> fst g \<and> fst g \<le> t1) (br_grants s))) * interval \<le> t1 - t0 + burst * interval"
  using budget_invariant [OF assms(1,2)] grants_last [OF assms(1) _ assms(3), of "br_end s" "br_grants s"] by (simp add: run_ok_def)

theorem budget_bound_witness:
  "budget_reach (4 * second_ns) 2 sample_budget_run \<and>
   int (length (filter (\<lambda>g. 5 \<le> fst g \<and> fst g \<le> 5) (br_grants sample_budget_run))) * (4 * second_ns) \<le> 5 - 5 + 2 * (4 * second_ns)"
proof -
  have "gcra_params (4 * second_ns) 2" by (simp add: gcra_params_def)
  from budget_bound [OF this sample_budget_reach, of 5 5] show ?thesis using sample_budget_reach by simp
qed

end
