(* ===== verification/Responder.thy ===== *)
theory Responder
  imports Server_Stats Rate_Limit Leap_Distributor NTP_Auth
begin

text \<open>
  \<^verbatim>\<open>internal/server/martian.go\<close> and \<^verbatim>\<open>internal/server/responder.go\<close>: what happens to one datagram, from the checks
  of its source through authentication and rate limiting to the reply. The engine's status, the two readings
  of the clock and the leap-second list in force are arguments; a run-time panic is \<open>None\<close>.
\<close>

section \<open>Sources that cannot be answered\<close>

definition v4Broadcast :: ipaddr where
  "v4Broadcast = Addr4 0xffffffff"

fun first_octet :: "ipaddr \<Rightarrow> nat" where
  "first_octet (Addr4 a) = unat (drop_bit 24 a)"
| "first_octet _ = 0"

definition martianSource :: "addr_port \<Rightarrow> bool" where
  \<comment> \<open>link-local and interface-local multicast addresses are multicast\<close>
  "martianSource from' =
     (let addr = addr_unmap (ap_addr from')
      in if addr = AddrNone then True
         else if ap_port from' = 0 then True
         else if addr_is_unspecified addr \<or> addr_is_multicast addr then True
         else if addr = v4Broadcast then True
         else addr_is4 addr \<and> first_octet addr = 0)"

definition martianDestination :: "ipaddr \<Rightarrow> bool" where
  "martianDestination dst =
     (let dst = addr_unmap dst
      in if dst = AddrNone then False
         else addr_is_unspecified dst \<or> addr_is_multicast dst \<or> dst = v4Broadcast)"

section \<open>The handler\<close>

record system_status =
  sv_Synced :: bool
  sv_Leap :: leap
  sv_Stratum :: uint8
  sv_Precision :: int8
  sv_RootDelay :: f64
  sv_RootDispersion :: f64
  sv_ReferenceID :: refid
  sv_ReferenceTime :: gtime

record server_config =
  sc_Allow :: "ip_prefix list"
  sc_Deny :: "ip_prefix list"
  sc_RequireKey :: "(ip_prefix \<times> uint32) list"
    \<comment> \<open>the map in the order the runtime iterates it\<close>
  sc_Keys :: keys
  sc_RateLimitPPS :: f64
  sc_RateBurst :: f64
  sc_MaxClients :: int
  sc_RateLimitV6Prefix :: int
  sc_KoD :: bool
  sc_MinPoll :: int8
  sc_hasStatus :: bool
  sc_hasNow :: bool
  sc_Stats :: "server_stats option"
  sc_Leap :: "distributor option"

datatype config_error = NoAllow | BadRate f64 | BadBurst f64 | BadMaxClients int | NilStatus | NilClock

record handler =
  h_allow :: "ip_prefix list"
  h_deny :: "ip_prefix list"
  h_requireKey :: "(ip_prefix \<times> uint32) list"
  h_keys :: keys
  h_limiter :: rate_limiter
  h_kod :: bool
  h_minPoll :: int8
  h_stats :: server_stats
  h_leap :: "distributor option"
  h_publishedClients :: int

record handler_env =
  he_status :: system_status
  he_current :: "leap_object option"
  he_respond_now :: gtime
  he_transmit_now :: gtime

definition maskedPrefixes :: "ip_prefix list \<Rightarrow> ip_prefix list" where
  "maskedPrefixes ps = map prefix_masked ps"

definition config_errors :: "server_config \<Rightarrow> config_error list" where
  "config_errors cfg =
     (if sc_Allow cfg = [] then [NoAllow] else []) @
     (if \<not> (sc_RateLimitPPS cfg > 0 \<and> sc_RateLimitPPS cfg \<le> maxRateLimit) then [BadRate (sc_RateLimitPPS cfg)] else []) @
     (if \<not> (sc_RateBurst cfg \<ge> 1 \<and> sc_RateBurst cfg \<le> maxRateLimit) then [BadBurst (sc_RateBurst cfg)] else []) @
     (if sc_MaxClients cfg < 0 then [BadMaxClients (sc_MaxClients cfg)] else []) @
     (if \<not> sc_hasStatus cfg then [NilStatus] else []) @
     (if \<not> sc_hasNow cfg then [NilClock] else [])"

definition NewHandler :: "server_config \<Rightarrow> config_error list + handler" where
  "NewHandler cfg =
     (if config_errors cfg \<noteq> [] then Inl (config_errors cfg)
      else Inr
        \<lparr>h_allow = maskedPrefixes (sc_Allow cfg), h_deny = maskedPrefixes (sc_Deny cfg),
         h_requireKey = go_sort (\<lambda>a b. pf_bits (fst a) > pf_bits (fst b)) (map (\<lambda>(p, k). (prefix_masked p, k)) (sc_RequireKey cfg)),
         h_keys = sc_Keys cfg,
         h_limiter = newRateLimiter (sc_RateLimitPPS cfg) (sc_RateBurst cfg)
           (if sc_MaxClients cfg = 0 then DefaultMaxClients else sc_MaxClients cfg) (sc_RateLimitV6Prefix cfg),
         h_kod = sc_KoD cfg, h_minPoll = (if sc_MinPoll cfg = 0 then 6 else sc_MinPoll cfg),
         h_stats = (case sc_Stats cfg of None \<Rightarrow> \<lparr>st_v4 = zero_counters, st_v6 = zero_counters\<rparr> | Some s \<Rightarrow> s),
         h_leap = sc_Leap cfg, h_publishedClients = 0\<rparr>)"

definition isClientRequest :: "packet \<Rightarrow> bool" where
  "isClientRequest p \<longleftrightarrow> p_Mode p = ModeClient \<or> (p_Mode p = ModeReserved \<and> p_Version p = 1)"

definition matches :: "ip_prefix list \<Rightarrow> ipaddr \<Rightarrow> bool" where
  "matches ps addr = list_ex (\<lambda>p. prefix_contains p addr) ps"

definition permitted :: "handler \<Rightarrow> ipaddr \<Rightarrow> bool" where
  "permitted h addr = (if matches (h_deny h) addr then False else matches (h_allow h) addr)"

definition requiredKey :: "handler \<Rightarrow> ipaddr \<Rightarrow> uint32" where
  "requiredKey h addr = (case List.find (\<lambda>r. prefix_contains (fst r) addr) (h_requireKey h) of None \<Rightarrow> 0 | Some r \<Rightarrow> snd r)"

definition keyIDOf :: "auth_key option \<Rightarrow> uint32" where
  "keyIDOf k = (case k of None \<Rightarrow> 0 | Some key \<Rightarrow> k_ID key)"

definition verify :: "handler \<Rightarrow> byte list \<Rightarrow> nat \<Rightarrow> mac_trailer option \<Rightarrow> (auth_key option \<times> bool) option" where
  "verify h request macOffset mac =
     (if mac = None \<or> IsCryptoNAK mac then Some (None, True)
      else case h_keys h (m_KeyID (the mac)) of
          None \<Rightarrow> Some (None, False)
        | Some key \<Rightarrow>
            (case Verify key (take macOffset request) mac of
               None \<Rightarrow> None
             | Some ok \<Rightarrow> Some (if ok then (Some key, True) else (None, False))))"

definition count :: "handler \<Rightarrow> ipaddr \<Rightarrow> (counters \<Rightarrow> counters) \<Rightarrow> handler" where
  "count h addr f = h\<lparr>h_stats := on_family (h_stats h) addr f\<rparr>"

definition publishClients :: "handler \<Rightarrow> ipaddr \<Rightarrow> handler" where
  "publishClients h addr =
     (let n = int (limiter_size (h_limiter h)); delta = n - h_publishedClients h
      in if delta \<noteq> 0 then (count h addr (\<lambda>c. c\<lparr>c_clients := int64_wrap (c_clients c + delta)\<rparr>))\<lparr>h_publishedClients := n\<rparr> else h)"

definition limit :: "handler \<Rightarrow> bucket_key \<Rightarrow> gtime \<Rightarrow> bool \<times> bool \<times> handler" where
  \<comment> \<open>\<^verbatim>\<open>h.limiter.allow\<close>\<close>
  "limit h k now = (let (allowed, sendKoD, l) = limiter_allow (h_limiter h) k now in (allowed, sendKoD, h\<lparr>h_limiter := l\<rparr>))"

definition reply_packet :: "handler \<Rightarrow> packet \<Rightarrow> gtime \<Rightarrow> system_status \<Rightarrow> refid \<Rightarrow> bool \<Rightarrow> packet" where
  "reply_packet h req receive st refID special =
     (let p = \<lparr>p_Leap = sv_Leap st, p_Version = p_Version req, p_Mode = ModeServer, p_Stratum = sv_Stratum st,
               p_Poll = p_Poll req, p_Precision = sv_Precision st, p_RootDelay = ShortFromSeconds (sv_RootDelay st),
               p_RootDispersion = ShortFromSeconds (sv_RootDispersion st), p_ReferenceID = refID,
               p_ReferenceTime = FromTime (sv_ReferenceTime st), p_OriginTime = p_TransmitTime req,
               p_ReceiveTime = FromTime receive, p_TransmitTime = 0\<rparr>
      in if special then
           (let p = p\<lparr>p_Leap := LeapUnsync, p_RootDelay := 0, p_ReferenceTime := 0\<rparr>
            in if refID = KissRATE then p\<lparr>p_Stratum := 0, p_Poll := h_minPoll h, p_RootDispersion := 0\<rparr>
               else p\<lparr>p_Stratum := 16, p_RootDispersion := ShortFromSeconds (Fin 16)\<rparr>)
         else p)"

definition reply :: "handler_env \<Rightarrow> handler \<Rightarrow> packet \<Rightarrow> gtime \<Rightarrow> refid \<Rightarrow> auth_key option \<Rightarrow> bool \<Rightarrow> message option \<Rightarrow>
    byte list option option" where
  \<comment> \<open>\<open>Some None\<close>: no reply\<close>
  "reply env h req receive refID key special extension =
     (let out = Marshal (reply_packet h req receive (he_status env) refID special);
          out = (case extension of None \<Rightarrow> Inr out | Some m \<Rightarrow> message_AppendTo m out)
      in case out of
           Inl e \<Rightarrow> Some None
         | Inr out \<Rightarrow>
             (let out = take 40 out @ put_uint64 (FromTime (he_transmit_now env)) @ drop 48 out
              in case key of None \<Rightarrow> Some (Some out) | Some k \<Rightarrow> map_option Some (Append k out)))"

definition status_refid :: "system_status \<Rightarrow> refid" where
  "status_refid st = (if \<not> sv_Synced st \<and> sv_ReferenceID st = zero_refid then KissINIT else sv_ReferenceID st)"

definition cryptoNAK :: "handler_env \<Rightarrow> handler \<Rightarrow> packet \<Rightarrow> byte list \<Rightarrow> mac_trailer option \<Rightarrow> gtime \<Rightarrow> byte list option option" where
  "cryptoNAK env h req request mac receive =
     (if mac = None \<or> IsCryptoNAK mac \<or> length request < HeaderSize + CryptoNAKSize then Some None
      else map_option (map_option (\<lambda>out. out @ put_uint32 0))
             (reply env h req receive (status_refid (he_status env)) None (\<not> sv_Synced (he_status env)) None))"

datatype auth_step = Finish "byte list option" handler | Proceed "auth_key option" handler

definition authenticate :: "handler_env \<Rightarrow> handler \<Rightarrow> byte list \<Rightarrow> ipaddr \<Rightarrow> packet \<Rightarrow> mac_trailer option \<Rightarrow> nat \<Rightarrow> gtime \<Rightarrow> gtime \<Rightarrow>
    auth_step option" where
  \<comment> \<open>from \<^verbatim>\<open>h.requiredKey\<close> to the choice of the service bucket\<close>
  "authenticate env h request addr pkt mac macOffset receive monotonicNow =
     (let required = requiredKey h addr
      in if \<not> (required \<noteq> 0 \<or> mac \<noteq> None) then Some (Proceed None h)
         else (let (allowed, h) = (if required = 0 then (let (a, _, h') = limit h (cryptoKey (h_limiter h) addr) monotonicNow in (a, h'))
                                   else (True, h))
               in if \<not> allowed then
                    Some (Finish None (publishClients (count h addr (\<lambda>c. c\<lparr>c_rateLimited := c_rateLimited c + 1\<rparr>)) addr))
                  else case verify h request macOffset mac of
                      None \<Rightarrow> None
                    | Some (replyKey, ok) \<Rightarrow>
                        if \<not> ok then
                          (let h = count h addr (\<lambda>c. c\<lparr>c_badAuth := c_badAuth c + 1\<rparr>);
                               (allowed, h) = (if required \<noteq> 0 then (let (a, _, h') = limit h (cryptoKey (h_limiter h) addr) monotonicNow in (a, h'))
                                               else (True, h))
                           in if \<not> allowed then Some (Finish None h)
                              else map_option (\<lambda>r. Finish r h) (cryptoNAK env h pkt request mac receive))
                        else if required \<noteq> 0 \<and> (replyKey = None \<or> keyIDOf replyKey \<noteq> required) then
                          Some (Finish None (count h addr (\<lambda>c. c\<lparr>c_badAuth := c_badAuth c + 1\<rparr>)))
                        else Some (Proceed replyKey h)))"

datatype leap_step = LeapDrop handler | LeapReply "message option" handler

definition leap_extension :: "handler_env \<Rightarrow> handler \<Rightarrow> byte list \<Rightarrow> ipaddr \<Rightarrow> packet \<Rightarrow> nat \<Rightarrow> auth_key option \<Rightarrow> gtime \<Rightarrow> leap_step option" where
  "leap_extension env h request addr pkt macOffset replyKey monotonicNow =
     (if \<not> (p_Version pkt = 4 \<and> p_Mode pkt = ModeClient \<and> replyKey \<noteq> None \<and> Authorized (h_leap h) (keyIDOf replyKey))
      then Some (LeapReply None h)
      else case DecodeFields (slice HeaderSize macOffset request) of
          Inl e \<Rightarrow>
            if e \<noteq> ErrUnsupported then Some (LeapDrop (count h addr (\<lambda>c. c\<lparr>c_malformed := c_malformed c + 1\<rparr>)))
            else Some (LeapReply None h)
        | Inr None \<Rightarrow> Some (LeapReply None h)
        | Inr (Some m) \<Rightarrow>
            (case Respond (he_current env) (the (h_leap h)) (Some m) (keyIDOf replyKey) (he_respond_now env) monotonicNow of
               None \<Rightarrow> None
             | Some (d, out) \<Rightarrow>
                 (let h = h\<lparr>h_leap := Some d\<rparr>
                  in case out of
                       Inl e \<Rightarrow>
                         if Reason e = ''rate'' then Some (LeapDrop (count h addr (\<lambda>c. c\<lparr>c_rateLimited := c_rateLimited c + 1\<rparr>)))
                         else Some (LeapDrop (count h addr (\<lambda>c. c\<lparr>c_malformed := c_malformed c + 1\<rparr>)))
                     | Inr r \<Rightarrow> Some (LeapReply (Some r) h))))"

definition note_request :: "packet \<Rightarrow> gtime \<Rightarrow> counters \<Rightarrow> counters" where
  "note_request pkt receive c =
     c\<lparr>c_versions := (c_versions c)[unat (p_Version pkt) := c_versions c ! unat (p_Version pkt) + 1],
       c_lastRequest := event_store (c_lastRequest c) receive\<rparr>"

definition note_served :: "bool \<Rightarrow> gtime \<Rightarrow> counters \<Rightarrow> counters" where
  "note_served synced receive c =
     (let c = c\<lparr>c_served := c_served c + 1, c_lastServed := event_store (c_lastServed c) receive\<rparr>
      in if \<not> synced then c\<lparr>c_unsynced := c_unsynced c + 1\<rparr> else c)"

definition serve :: "handler_env \<Rightarrow> handler \<Rightarrow> byte list \<Rightarrow> ipaddr \<Rightarrow> packet \<Rightarrow> nat \<Rightarrow> auth_key option \<Rightarrow> gtime \<Rightarrow> gtime \<Rightarrow>
    (byte list option \<times> handler) option" where
  \<comment> \<open>from the service bucket on\<close>
  "serve env h request addr pkt macOffset replyKey receive monotonicNow =
     (let (allowed, sendKoD, h) = limit h (service_key (h_limiter h) addr (keyIDOf replyKey)) monotonicNow;
          h = publishClients h addr
      in if \<not> allowed then
           (let h = count h addr (\<lambda>c. c\<lparr>c_rateLimited := c_rateLimited c + 1\<rparr>)
            in if \<not> h_kod h \<or> \<not> sendKoD then Some (None, h)
               else (let h = count h addr (\<lambda>c. c\<lparr>c_kod := c_kod c + 1\<rparr>)
                     in map_option (\<lambda>r. (r, h)) (reply env h pkt receive KissRATE replyKey True None)))
         else case leap_extension env h request addr pkt macOffset replyKey monotonicNow of
             None \<Rightarrow> None
           | Some (LeapDrop h) \<Rightarrow> Some (None, h)
           | Some (LeapReply extension h) \<Rightarrow>
               (let h = count h addr (note_request pkt receive); st = he_status env
                in case reply env h pkt receive (status_refid st) replyKey (\<not> sv_Synced st) extension of
                     None \<Rightarrow> None
                   | Some None \<Rightarrow> Some (None, h)
                   | Some (Some response) \<Rightarrow> Some (Some response, count h addr (note_served (sv_Synced st) receive))))"

definition Handle :: "handler_env \<Rightarrow> handler \<Rightarrow> byte list \<Rightarrow> addr_port \<Rightarrow> gtime \<Rightarrow> gtime \<Rightarrow> (byte list option \<times> handler) option" where
  "Handle env h request client receive monotonicNow =
     (let addr = addr_unmap (ap_addr client); drop = (\<lambda>f. Some (None, count h addr f))
      in case Decode request of
           Inl (ErrVersion v) \<Rightarrow> drop (\<lambda>c. c\<lparr>c_badVersion := c_badVersion c + 1\<rparr>)
         | Inl _ \<Rightarrow> drop (\<lambda>c. c\<lparr>c_malformed := c_malformed c + 1\<rparr>)
         | Inr (pkt, mac, macOffset) \<Rightarrow>
             if \<not> isClientRequest pkt then
               drop (\<lambda>c. c\<lparr>c_nonClient := c_nonClient c + 1,
                           c_modes := (c_modes c)[unat (mode_code (p_Mode pkt)) := c_modes c ! unat (mode_code (p_Mode pkt)) + 1]\<rparr>)
             else if martianSource client then drop (\<lambda>c. c\<lparr>c_martian := c_martian c + 1\<rparr>)
             else if \<not> permitted h addr then drop (\<lambda>c. c\<lparr>c_denied := c_denied c + 1\<rparr>)
             else case authenticate env h request addr pkt mac macOffset receive monotonicNow of
                 None \<Rightarrow> None
               | Some (Finish r h) \<Rightarrow> Some (r, h)
               | Some (Proceed replyKey h) \<Rightarrow> serve env h request addr pkt macOffset replyKey receive monotonicNow)"

section \<open>Replies\<close>

definition sent_packet :: "handler_env \<Rightarrow> handler \<Rightarrow> packet \<Rightarrow> gtime \<Rightarrow> refid \<Rightarrow> bool \<Rightarrow> packet" where
  "sent_packet env h req receive refID special =
     (reply_packet h req receive (he_status env) refID special)\<lparr>p_TransmitTime := FromTime (he_transmit_now env)\<rparr>"

definition extension_bytes :: "message option \<Rightarrow> byte list" where
  "extension_bytes ext = (case ext of None \<Rightarrow> [] | Some m \<Rightarrow> field_bytes m)"

definition extension_ok :: "message option \<Rightarrow> bool" where
  "extension_ok ext = (case ext of None \<Rightarrow> True | Some m \<Rightarrow> validate m)"

lemma extension_None [simp]: "extension_ok None" "extension_bytes None = []"
  by (simp_all add: extension_ok_def extension_bytes_def)

definition signed_as :: "auth_key option \<Rightarrow> byte list \<Rightarrow> byte list \<Rightarrow> bool" where
  "signed_as key body out = (case key of None \<Rightarrow> out = body | Some k \<Rightarrow> Append k body = Some out)"

lemma stamp_transmit: "Marshal (p\<lparr>p_TransmitTime := t\<rparr>) = take 40 (Marshal p) @ put_uint64 t"
  by (simp add: Marshal_def AppendTo_def)

lemma reply_packet_fields:
  "p_Mode (reply_packet h req receive st refID special) = ModeServer"
  "p_OriginTime (reply_packet h req receive st refID special) = p_TransmitTime req"
  "p_Version (reply_packet h req receive st refID special) = p_Version req"
  by (simp_all add: reply_packet_def Let_def)

lemma reply_outcome:
  assumes "\<forall>k. key = Some k \<longrightarrow> length (k_Secret k) = KeySize"
  shows "if extension_ok ext then \<exists>out. reply env h req receive refID key special ext = Some (Some out) \<and>
           signed_as key (Marshal (sent_packet env h req receive refID special) @ extension_bytes ext) out
         else reply env h req receive refID key special ext = Some None"
proof -
  let ?p = "reply_packet h req receive (he_status env) refID special"
  have m: "(case ext of None \<Rightarrow> Inr (Marshal ?p) | Some m \<Rightarrow> message_AppendTo m (Marshal ?p)) =
     (if extension_ok ext then Inr (Marshal ?p @ extension_bytes ext) else Inl (Rejection ''framing''))"
    by (simp add: extension_ok_def extension_bytes_def message_AppendTo_def split: option.split)
  show ?thesis
  proof (cases key)
    case None
    then show ?thesis unfolding reply_def Let_def m sent_packet_def by (simp add: stamp_transmit signed_as_def)
  next
    case (Some k)
    obtain out where "Append k (Marshal (sent_packet env h req receive refID special) @ extension_bytes ext) = Some out"
      using Append_total [of k] assms Some by blast
    then show ?thesis using Some unfolding reply_def Let_def m sent_packet_def by (simp add: stamp_transmit signed_as_def)
  qed
qed

lemma signed_length: "signed_as key body out \<Longrightarrow> length out = length body + (case key of None \<Rightarrow> 0 | Some k \<Rightarrow> MACSizeCMAC)"
  by (auto simp: signed_as_def Append_def CMAC_length split: option.splits)

lemma signed_prefix: "signed_as key body out \<Longrightarrow> \<exists>x. out = body @ x"
  by (cases key) (auto simp: signed_as_def Append_def split: option.splits)

section \<open>One stage at a time\<close>

definition handler_ok :: "handler \<Rightarrow> bool" where
  "handler_ok h \<longleftrightarrow> limiter_ok (h_limiter h) \<and> (\<forall>i k. h_keys h i = Some k \<longrightarrow> length (k_Secret k) = KeySize)"

definition same_rules :: "handler \<Rightarrow> handler \<Rightarrow> bool" where
  "same_rules h h' \<longleftrightarrow> h_allow h' = h_allow h \<and> h_deny h' = h_deny h \<and> h_requireKey h' = h_requireKey h \<and> h_keys h' = h_keys h \<and>
     h_kod h' = h_kod h \<and> h_minPoll h' = h_minPoll h"

definition spares :: "handler \<Rightarrow> handler \<Rightarrow> bucket_key \<Rightarrow> bool" where
  \<comment> \<open>the bucket is as it was, or forgotten\<close>
  "spares h h' k \<longleftrightarrow> bucket (h_limiter h') k = bucket (h_limiter h) k \<or> bucket (h_limiter h') k = None"

abbreviation total :: "handler \<Rightarrow> uint64" where "total h \<equiv> total_requests (h_stats h)"

lemma same_rules_refl [simp]: "same_rules h h"
  by (simp add: same_rules_def)

lemma same_rules_trans: "same_rules h h' \<Longrightarrow> same_rules h' h'' \<Longrightarrow> same_rules h h''"
  by (simp add: same_rules_def)

lemma spares_trans: "spares h h' k \<Longrightarrow> spares h' h'' k \<Longrightarrow> spares h h'' k"
  unfolding spares_def by auto

lemma spares_limiter: "h_limiter h' = h_limiter h \<Longrightarrow> spares h h' k"
  by (simp add: spares_def)

lemma rules_required: "same_rules h h' \<Longrightarrow> requiredKey h' addr = requiredKey h addr"
  by (simp add: same_rules_def requiredKey_def)

lemma count_fields [simp]:
  "h_limiter (count h addr f) = h_limiter h" "h_keys (count h addr f) = h_keys h" "h_leap (count h addr f) = h_leap h"
  "h_kod (count h addr f) = h_kod h" "same_rules h (count h addr f)" "handler_ok (count h addr f) = handler_ok h"
  by (simp_all add: count_def same_rules_def handler_ok_def)

lemma count_total:
  "(\<And>c. accounted (f c) = accounted c + 1) \<Longrightarrow> total (count h addr f) = total h + 1"
  "(\<And>c. accounted (f c) = accounted c) \<Longrightarrow> total (count h addr f) = total h"
  by (simp_all add: count_def total_one total_same)

lemma publish_fields [simp]:
  "h_limiter (publishClients h addr) = h_limiter h" "h_keys (publishClients h addr) = h_keys h" "h_leap (publishClients h addr) = h_leap h"
  "h_kod (publishClients h addr) = h_kod h" "same_rules h (publishClients h addr)" "handler_ok (publishClients h addr) = handler_ok h"
  "total (publishClients h addr) = total h"
  using count_total(2) [of "\<lambda>c. c\<lparr>c_clients := int64_wrap (c_clients c + (int (limiter_size (h_limiter h)) - h_publishedClients h))\<rparr>" h addr]
  by (simp_all add: publishClients_def Let_def same_rules_def handler_ok_def accounted_sum count_def)

lemma limit_effect:
  assumes "handler_ok h" "limit h k now = (a, s, h')"
  shows "handler_ok h'" "same_rules h h'" "h_stats h' = h_stats h" "h_leap h' = h_leap h" "k' \<noteq> k \<Longrightarrow> spares h h' k'"
proof -
  obtain l where l: "limiter_allow (h_limiter h) k now = (a, s, l)" "h' = h\<lparr>h_limiter := l\<rparr>"
    using assms(2) by (auto simp: limit_def split: prod.splits)
  have lo: "limiter_ok (h_limiter h)" using assms(1) by (simp add: handler_ok_def)
  show "handler_ok h'" using lim.allow_keeps [OF lo, of k now] assms(1) l by (simp add: handler_ok_def)
  show "k' \<noteq> k \<Longrightarrow> spares h h' k'" using lim.allow_frame [OF lo, of k' k now] l by (simp add: spares_def)
qed (use assms(2) in \<open>auto simp: limit_def same_rules_def split: prod.splits\<close>)

lemma verify_outcome:
  assumes "handler_ok h"
  obtains key ok where "verify h request off mac = Some (key, ok)"
    "ok \<and> key = None \<and> (mac = None \<or> IsCryptoNAK mac) \<or>
     ok \<and> (\<exists>m k. key = Some k \<and> mac = Some m \<and> h_keys h (m_KeyID m) = Some k \<and> Verify k (take off request) mac = Some True) \<or>
     \<not> ok \<and> mac \<noteq> None \<and> \<not> IsCryptoNAK mac"
proof (cases "mac = None \<or> IsCryptoNAK mac")
  case True
  then show ?thesis by (intro that [of None True]) (auto simp: verify_def)
next
  case False
  then obtain m where m: "mac = Some m" by auto
  show ?thesis
  proof (cases "h_keys h (m_KeyID m)")
    case None
    then show ?thesis using False m by (intro that [of None False]) (auto simp: verify_def)
  next
    case (Some k)
    have "length (k_Secret k) = KeySize" using assms Some by (simp add: handler_ok_def)
    then obtain ok where ok: "Verify k (take off request) mac = Some ok" using Verify_total [of k "take off request" mac] by auto
    then show ?thesis using False m Some by (cases ok) (auto simp: verify_def intro: that [of "Some k" True] that [of None False])
  qed
qed

lemma key_spaces [simp]: "bk_space (cryptoKey l addr) = spaceCrypto" "bk_space (service_key l addr i) = spaceService" "bk_keyID (service_key l addr i) = i"
  by (simp_all add: cryptoKey_def service_key_def spaceKey_def Let_def)

definition spares_service :: "handler \<Rightarrow> handler \<Rightarrow> bool" where
  "spares_service h h' \<longleftrightarrow> (\<forall>k. bk_space k = spaceService \<longrightarrow> spares h h' k)"

lemma spares_service_trans: "spares_service h h' \<Longrightarrow> spares_service h' h'' \<Longrightarrow> spares_service h h''"
  unfolding spares_service_def using spares_trans by blast

lemma crypto_budget:
  assumes "handler_ok h"
  obtains a h' where "(if c then (let (a, _, h') = limit h (cryptoKey (h_limiter h) addr) now in (a, h')) else (True, h)) = (a, h')"
    "handler_ok h'" "same_rules h h'" "h_stats h' = h_stats h" "spares_service h h'"
proof (cases c)
  case True
  obtain a s h' where l: "limit h (cryptoKey (h_limiter h) addr) now = (a, s, h')" by (cases "limit h (cryptoKey (h_limiter h) addr) now")
  note e = limit_effect [OF assms l]
  have "spares_service h h'"
  proof (unfold spares_service_def, intro allI impI)
    fix k :: bucket_key assume "bk_space k = spaceService"
    then have "k \<noteq> cryptoKey (h_limiter h) addr" using key_spaces(1) [of "h_limiter h" addr] by auto
    then show "spares h h' k" by (rule e(5))
  qed
  then show ?thesis using that [of a h'] True l e(1-3) by simp
next
  case False
  then show ?thesis using that [of True h] assms by (simp add: spares_service_def spares_def)
qed

definition nak_reply :: "packet \<Rightarrow> byte list \<Rightarrow> mac_trailer option \<Rightarrow> byte list \<Rightarrow> bool" where
  "nak_reply pkt request mac resp \<longleftrightarrow> mac \<noteq> None \<and> \<not> IsCryptoNAK mac \<and> HeaderSize + CryptoNAKSize \<le> length request \<and>
     (\<exists>p. resp = Marshal p @ put_uint32 0 \<and> p_Mode p = ModeServer \<and> p_OriginTime p = p_TransmitTime pkt)"

lemma cryptoNAK_outcome: "\<exists>r. cryptoNAK env h pkt request mac receive = Some r \<and> (\<forall>resp. r = Some resp \<longrightarrow> nak_reply pkt request mac resp)"
proof -
  let ?sp = "\<not> sv_Synced (he_status env)" and ?id = "status_refid (he_status env)"
  obtain out where r: "reply env h pkt receive ?id None ?sp None = Some (Some out)" "out = Marshal (sent_packet env h pkt receive ?id ?sp)"
    using reply_outcome [of None None env h pkt receive ?id ?sp] by (auto simp: signed_as_def)
  then show ?thesis by (auto simp: cryptoNAK_def nak_reply_def sent_packet_def reply_packet_fields)
qed

definition key_verified :: "handler \<Rightarrow> byte list \<Rightarrow> nat \<Rightarrow> mac_trailer option \<Rightarrow> ipaddr \<Rightarrow> auth_key option \<Rightarrow> bool" where
  "key_verified h request off mac addr key \<longleftrightarrow>
     (case key of
        None \<Rightarrow> requiredKey h addr = 0 \<and> (mac = None \<or> IsCryptoNAK mac)
      | Some k \<Rightarrow> (\<exists>m. mac = Some m \<and> h_keys h (m_KeyID m) = Some k \<and> Verify k (take off request) mac = Some True) \<and>
          (requiredKey h addr \<noteq> 0 \<longrightarrow> k_ID k = requiredKey h addr))"

lemma authenticate_outcome:
  assumes "handler_ok h"
  obtains (finish) r h' where "authenticate env h request addr pkt mac off receive now = Some (Finish r h')" "handler_ok h'" "same_rules h h'"
      "total h' = total h + 1" "spares_service h h'" "\<forall>resp. r = Some resp \<longrightarrow> nak_reply pkt request mac resp"
  | (proceed) key h' where "authenticate env h request addr pkt mac off receive now = Some (Proceed key h')" "handler_ok h'" "same_rules h h'"
      "total h' = total h" "spares_service h h'" "key_verified h request off mac addr key"
proof (cases "requiredKey h addr \<noteq> 0 \<or> mac \<noteq> None")
  case False
  then have "authenticate env h request addr pkt mac off receive now = Some (Proceed None h)" by (simp add: authenticate_def Let_def)
  then show ?thesis by (rule proceed) (use assms False in \<open>simp_all add: spares_service_def spares_def key_verified_def\<close>)
next
  case True
  let ?q = "requiredKey h addr"
  obtain a1 h1 where 1: "(if ?q = 0 then (let (a, _, h') = limit h (cryptoKey (h_limiter h) addr) now in (a, h')) else (True, h)) = (a1, h1)"
    "handler_ok h1" "same_rules h h1" "h_stats h1 = h_stats h" "spares_service h h1"
    by (rule crypto_budget [OF assms])
  note A = authenticate_def [of env h request addr pkt mac off receive now, unfolded Let_def [of ?q] not_not if_P [OF True] 1(1) prod.case]
  show ?thesis
  proof (cases a1)
    case False
    let ?c = "count h1 addr (\<lambda>c. c\<lparr>c_rateLimited := c_rateLimited c + 1\<rparr>)"
    have t: "total ?c = total h1 + 1" by (rule count_total) (simp add: accounted_sum)
    have "authenticate env h request addr pkt mac off receive now = Some (Finish None (publishClients ?c addr))"
      unfolding A using False True by simp
    moreover have "same_rules h (publishClients ?c addr)"
      by (rule same_rules_trans [OF 1(3) same_rules_trans [OF count_fields(5) publish_fields(5)]])
    moreover have "spares_service h (publishClients ?c addr)" using 1(5) by (simp add: spares_service_def spares_def)
    ultimately show ?thesis using finish [of None "publishClients ?c addr"] 1(2,4) t by simp
  next
    case al: True
    obtain key ok where v: "verify h1 request off mac = Some (key, ok)" and vo:
      "ok \<and> key = None \<and> (mac = None \<or> IsCryptoNAK mac) \<or>
       ok \<and> (\<exists>m k. key = Some k \<and> mac = Some m \<and> h_keys h1 (m_KeyID m) = Some k \<and> Verify k (take off request) mac = Some True) \<or>
       \<not> ok \<and> mac \<noteq> None \<and> \<not> IsCryptoNAK mac"
      by (rule verify_outcome [OF 1(2)])
    have keys: "h_keys h1 = h_keys h" using 1(3) by (simp add: same_rules_def)
    let ?c = "count h1 addr (\<lambda>c. c\<lparr>c_badAuth := c_badAuth c + 1\<rparr>)"
    have t: "total ?c = total h1 + 1" by (rule count_total) (simp add: accounted_sum)
    have okc: "handler_ok ?c" using 1(2) by simp
    have sc: "spares_service h ?c" using 1(5) by (simp add: spares_service_def spares_def)
    consider (bad) "\<not> ok" | (wrong) "ok" "?q \<noteq> 0 \<and> (key = None \<or> keyIDOf key \<noteq> ?q)" | (good) "ok" "\<not> (?q \<noteq> 0 \<and> (key = None \<or> keyIDOf key \<noteq> ?q))"
      by blast
    then show ?thesis
    proof cases
      case bad
      obtain a2 h2 where 2: "(if ?q \<noteq> 0 then (let (a, _, h') = limit ?c (cryptoKey (h_limiter ?c) addr) now in (a, h')) else (True, ?c)) = (a2, h2)"
        "handler_ok h2" "same_rules ?c h2" "h_stats h2 = h_stats ?c" "spares_service ?c h2"
        by (rule crypto_budget [OF okc])
      obtain r where r: "cryptoNAK env h2 pkt request mac receive = Some r" "\<forall>resp. r = Some resp \<longrightarrow> nak_reply pkt request mac resp"
        using cryptoNAK_outcome by blast
      have "authenticate env h request addr pkt mac off receive now = Some (Finish (if a2 then r else None) h2)"
        unfolding A using True al v bad 2(1) r(1) by (simp add: Let_def)
      then show ?thesis
        by (rule finish) (use 2 r t 1 same_rules_trans [OF same_rules_trans [OF 1(3)] 2(3)] spares_service_trans [OF sc 2(5)] in simp_all)
    next
      case wrong
      have "authenticate env h request addr pkt mac off receive now = Some (Finish None ?c)"
        unfolding A using True al v wrong by (simp add: Let_def)
      then show ?thesis by (rule finish) (use okc t 1 sc same_rules_trans [OF 1(3)] in simp_all)
    next
      case good
      have "authenticate env h request addr pkt mac off receive now = Some (Proceed key h1)"
        unfolding A using True al v good by (simp add: Let_def)
      moreover have "key_verified h request off mac addr key" using vo good keys by (auto simp: key_verified_def keyIDOf_def split: option.split)
      ultimately show ?thesis using proceed 1 by simp
    qed
  qed
qed

definition env_ok :: "handler_env \<Rightarrow> bool" where
  \<comment> \<open>the list in force was built by \<open>NewObject\<close>\<close>
  "env_ok env \<longleftrightarrow> (\<forall>obj. he_current env = Some obj \<longrightarrow> object_ok obj)"

definition zero_digest :: "handler_env \<Rightarrow> bool" where
  "zero_digest env \<longleftrightarrow> (\<exists>obj. he_current env = Some obj \<and> sha256_Sum256 (ob_data obj) = replicate 32 0)"

lemma leap_extension_outcome:
  assumes "handler_ok h" "env_ok env" "HeaderSize \<le> off" "off \<le> length request"
  obtains (drop) h' where "leap_extension env h request addr pkt off key now = Some (LeapDrop h')" "handler_ok h'" "same_rules h h'"
      "h_limiter h' = h_limiter h" "total h' = total h + 1"
  | (ext) ext h' where "leap_extension env h request addr pkt off key now = Some (LeapReply ext h')" "handler_ok h'" "same_rules h h'"
      "h_limiter h' = h_limiter h" "total h' = total h" "extension_ok ext \<or> zero_digest env"
      "extension_ok ext \<longrightarrow> HeaderSize + length (extension_bytes ext) \<le> off"
proof (cases "p_Version pkt = 4 \<and> p_Mode pkt = ModeClient \<and> key \<noteq> None \<and> Authorized (h_leap h) (keyIDOf key)")
  case False
  then have "leap_extension env h request addr pkt off key now = Some (LeapReply None h)" by (simp only: leap_extension_def simp_thms if_True)
  then show ?thesis by (rule ext) (use assms in simp_all)
next
  case True
  let ?flds = "slice HeaderSize off request"
  note L = leap_extension_def [of env h request addr pkt off key now, unfolded not_not]
  have none: "leap_extension env h request addr pkt off key now = Some (LeapReply None h) \<Longrightarrow> thesis"
    by (rule ext, assumption) (use assms in simp_all)
  show ?thesis
  proof (cases "DecodeFields ?flds")
    case (Inl e)
    let ?c = "count h addr (\<lambda>c. c\<lparr>c_malformed := c_malformed c + 1\<rparr>)"
    have t: "total ?c = total h + 1" by (rule count_total) (simp add: accounted_sum)
    show ?thesis
    proof (cases "e = ErrUnsupported")
      case True
      with Inl \<open>p_Version pkt = 4 \<and> _\<close> show ?thesis by (intro none) (simp add: L)
    next
      case False
      with Inl True have "leap_extension env h request addr pkt off key now = Some (LeapDrop ?c)" by (simp add: L)
      then show ?thesis by (rule drop) (use assms t in simp_all)
    qed
  next
    case (Inr mo)
    show ?thesis
    proof (cases mo)
      case None
      with Inr True show ?thesis by (intro none) (simp add: L)
    next
      case (Some q)
      then have dq: "DecodeFields ?flds = Inr (Some q)" using Inr by simp
      then obtain pre post where q: "validate q" "message_shape q" "?flds = concat pre @ field_bytes q @ concat post"
        unfolding DecodeFields_iff by blast
      have "field_length q \<le> length ?flds" using length_field_bytes [OF q(1,2)] q(3) by simp
      then have fit: "HeaderSize + field_length q \<le> off" using assms(3,4) by simp
      obtain ds where ds: "h_leap h = Some ds" using True by (auto simp: Authorized_def split: option.splits)
      obtain d out where r: "Respond (he_current env) ds (Some q) (keyIDOf key) (he_respond_now env) now = Some (d, out)"
        "case out of Inl e \<Rightarrow> True | Inr r \<Rightarrow> reply_to q (he_current env) r"
        by (rule Respond_fits [OF q(1,2)]) (use assms(2) in \<open>auto simp: env_ok_def\<close>)
      let ?h = "h\<lparr>h_leap := Some d\<rparr>"
      have hk: "handler_ok ?h" "same_rules h ?h" "h_limiter ?h = h_limiter h" "total ?h = total h"
        using assms(1) by (simp_all add: handler_ok_def same_rules_def)
      show ?thesis
      proof (cases out)
        case (Inl e)
        let ?f = "if Reason e = ''rate'' then (\<lambda>c. c\<lparr>c_rateLimited := c_rateLimited c + 1\<rparr>) else (\<lambda>c. c\<lparr>c_malformed := c_malformed c + 1\<rparr>)"
        have t: "total (count ?h addr ?f) = total ?h + 1" by (rule count_total) (simp add: accounted_sum)
        have "leap_extension env h request addr pkt off key now = Some (LeapDrop (count ?h addr ?f))"
          using True dq ds r(1) Inl by (simp add: L Let_def)
        then show ?thesis by (rule drop) (use hk t same_rules_trans [OF hk(2) count_fields(5)] in simp_all)
      next
        case (Inr r')
        have "leap_extension env h request addr pkt off key now = Some (LeapReply (Some r') ?h)"
          using True dq ds r(1) Inr by (simp add: L Let_def)
        moreover have "reply_to q (he_current env) r'" using r(2) Inr by simp
        ultimately show ?thesis using ext [of "Some r'" ?h] hk fit length_field_bytes [of r']
          by (auto simp: reply_to_def extension_ok_def extension_bytes_def zero_digest_def)
      qed
    qed
  qed
qed

definition time_reply :: "packet \<Rightarrow> nat \<Rightarrow> auth_key option \<Rightarrow> byte list \<Rightarrow> bool" where
  \<comment> \<open>a server packet for the request, with an extension that fits where the request's fields were, signed with the key if there is one\<close>
  "time_reply pkt off key resp \<longleftrightarrow> (\<exists>p body. signed_as key (Marshal p @ body) resp \<and> p_Mode p = ModeServer \<and>
     p_OriginTime p = p_TransmitTime pkt \<and> p_Version p = p_Version pkt \<and> HeaderSize + length body \<le> off)"

lemma reply_time:
  assumes "\<forall>k. key = Some k \<longrightarrow> length (k_Secret k) = KeySize" "extension_ok ext \<longrightarrow> HeaderSize + length (extension_bytes ext) \<le> off"
  shows "if extension_ok ext then \<exists>out. reply env h req receive refID key special ext = Some (Some out) \<and> time_reply req off key out
         else reply env h req receive refID key special ext = Some None"
proof (cases "extension_ok ext")
  case True
  then obtain out where "reply env h req receive refID key special ext = Some (Some out)"
    "signed_as key (Marshal (sent_packet env h req receive refID special) @ extension_bytes ext) out"
    using reply_outcome [OF assms(1), of ext env h req receive refID special] by auto
  then show ?thesis using True assms(2) unfolding time_reply_def
    by (auto simp: sent_packet_def reply_packet_fields intro!: exI [of _ "sent_packet env h req receive refID special"] exI [of _ "extension_bytes ext"])
next
  case False
  then show ?thesis using reply_outcome [OF assms(1), of ext env h req receive refID special] by simp
qed

lemma serve_outcome:
  assumes "handler_ok h" "env_ok env" "HeaderSize \<le> off" "off \<le> length request" "\<forall>k. key = Some k \<longrightarrow> length (k_Secret k) = KeySize"
  obtains r h' where "serve env h request addr pkt off key receive now = Some (r, h')" "handler_ok h'" "same_rules h h'"
    "total h' = total h + 1 \<or> zero_digest env" "\<forall>k. k \<noteq> service_key (h_limiter h) addr (keyIDOf key) \<longrightarrow> spares h h' k"
    "\<forall>resp. r = Some resp \<longrightarrow> time_reply pkt off key resp"
proof -
  let ?k = "service_key (h_limiter h) addr (keyIDOf key)"
  obtain a kd h1 where l: "limit h ?k now = (a, kd, h1)" by (cases "limit h ?k now")
  note e = limit_effect [OF assms(1) l]
  let ?p = "publishClients h1 addr"
  have p: "handler_ok ?p" "same_rules h ?p" "total ?p = total h" using e same_rules_trans [OF e(2) publish_fields(5)] by simp_all
  have sp: "spares h h' k" if "h_limiter h' = h_limiter ?p" "k \<noteq> ?k" for h' k
    using e(5) [OF that(2)] that(1) by (simp add: spares_def)
  have S: "serve env h request addr pkt off key receive now = (if \<not> a then
           (let h = count ?p addr (\<lambda>c. c\<lparr>c_rateLimited := c_rateLimited c + 1\<rparr>)
            in if \<not> h_kod h \<or> \<not> kd then Some (None, h)
               else (let h = count h addr (\<lambda>c. c\<lparr>c_kod := c_kod c + 1\<rparr>)
                     in map_option (\<lambda>r. (r, h)) (reply env h pkt receive KissRATE key True None)))
         else case leap_extension env ?p request addr pkt off key now of
             None \<Rightarrow> None
           | Some (LeapDrop h) \<Rightarrow> Some (None, h)
           | Some (LeapReply extension h) \<Rightarrow>
               (let h = count h addr (note_request pkt receive); st = he_status env
                in case reply env h pkt receive (status_refid st) key (\<not> sv_Synced st) extension of
                     None \<Rightarrow> None
                   | Some None \<Rightarrow> Some (None, h)
                   | Some (Some response) \<Rightarrow> Some (Some response, count h addr (note_served (sv_Synced st) receive))))"
    by (simp only: serve_def l prod.case Let_def [of ?p] Let_def [of "(a, kd, h1)"])
  show ?thesis
  proof (cases a)
    case False
    let ?c = "count ?p addr (\<lambda>c. c\<lparr>c_rateLimited := c_rateLimited c + 1\<rparr>)"
    let ?d = "count ?c addr (\<lambda>c. c\<lparr>c_kod := c_kod c + 1\<rparr>)"
    have t: "total ?c = total ?p + 1" "total ?d = total ?c" by (rule count_total, simp add: accounted_sum)+
    have rules: "same_rules h ?c" "same_rules h ?d" using same_rules_trans [OF p(2) count_fields(5)] same_rules_trans [OF _ count_fields(5)] by blast+
    show ?thesis
    proof (cases "\<not> h_kod ?c \<or> \<not> kd")
      case True
      have "serve env h request addr pkt off key receive now = Some (None, ?c)" unfolding S Let_def using False True by simp
      then show ?thesis by (rule that) (use p t rules sp in simp_all)
    next
      case kod: False
      obtain out where o: "reply env ?d pkt receive KissRATE key True None = Some (Some out)" "time_reply pkt off key out"
        using reply_time [OF assms(5), of None off env ?d pkt receive KissRATE True] assms(3) by auto
      then have "serve env h request addr pkt off key receive now = Some (Some out, ?d)"
        unfolding S Let_def using False kod by simp
      then show ?thesis by (rule that) (use o(2) p t rules sp in simp_all)
    qed
  next
    case True
    from p(1) assms(2-4) show ?thesis
    proof (cases rule: leap_extension_outcome [where addr = addr and pkt = pkt and key = key and now = now])
      case (drop h2)
      have "serve env h request addr pkt off key receive now = Some (None, h2)" unfolding S using True drop(1) by simp
      then show ?thesis by (rule that) (use drop p sp same_rules_trans [OF p(2) drop(3)] in simp_all)
    next
      case (ext x h2)
      let ?n = "count h2 addr (note_request pkt receive)" and ?st = "he_status env"
      let ?s = "count ?n addr (note_served (sv_Synced ?st) receive)"
      have "total ?n = total h2" by (rule count_total) (simp add: accounted_sum note_request_def)
      moreover have "total ?s = total ?n + 1" by (rule count_total) (simp add: accounted_sum note_served_def Let_def)
      ultimately have t: "total ?s = total h + 1" using ext(5) p(3) by simp
      have rules: "same_rules h ?n" "same_rules h ?s"
        using same_rules_trans [OF same_rules_trans [OF p(2) ext(3)] count_fields(5)] same_rules_trans [OF _ count_fields(5)] by blast+
      note r = reply_time [OF assms(5) ext(7), of env ?n pkt receive "status_refid ?st" "\<not> sv_Synced ?st"]
      show ?thesis
      proof (cases "extension_ok x")
        case ok: True
        then obtain out where o: "reply env ?n pkt receive (status_refid ?st) key (\<not> sv_Synced ?st) x = Some (Some out)" "time_reply pkt off key out"
          using r by auto
        then have "serve env h request addr pkt off key receive now = Some (Some out, ?s)" unfolding S Let_def using True ext(1) by simp
        then show ?thesis by (rule that) (use o(2) ext t rules sp in simp_all)
      next
        case False
        then have "serve env h request addr pkt off key receive now = Some (None, ?n)" unfolding S Let_def using True ext(1) r by simp
        then show ?thesis by (rule that) (use False ext rules sp in simp_all)
      qed
    qed
  qed
qed

section \<open>One datagram\<close>

definition answered :: "handler \<Rightarrow> byte list \<Rightarrow> addr_port \<Rightarrow> byte list \<Rightarrow> bool" where
  \<comment> \<open>what is true of every response\<close>
  "answered h request client resp \<longleftrightarrow>
     (\<exists>pkt mac off. Decode request = Inr (pkt, mac, off) \<and> isClientRequest pkt \<and> \<not> martianSource client \<and>
        permitted h (addr_unmap (ap_addr client)) \<and>
        (nak_reply pkt request mac resp \<or>
         (\<exists>key. key_verified h request off mac (addr_unmap (ap_addr client)) key \<and> time_reply pkt off key resp)))"

definition not_verified :: "handler \<Rightarrow> byte list \<Rightarrow> addr_port \<Rightarrow> uint32 \<Rightarrow> bool" where
  "not_verified h request client i \<longleftrightarrow>
     (\<forall>pkt mac off key. Decode request = Inr (pkt, mac, off) \<longrightarrow> key_verified h request off mac (addr_unmap (ap_addr client)) key \<longrightarrow> keyIDOf key \<noteq> i)"

lemma Decode_offsets: "Decode b = Inr (p, mac, off) \<Longrightarrow> HeaderSize \<le> off \<and> off \<le> length b"
proof -
  assume "Decode b = Inr (p, mac, off)"
  then obtain n where len: "HeaderSize \<le> length b" and s: "skip_fields b HeaderSize = Some n" and t: "decode_trailer b n = Some (mac, off)"
    by (auto simp: Decode_def Let_def split: if_splits option.splits prod.splits)
  note sb = skip_fields_bounds [OF s len]
  then show ?thesis using decode_trailer_bounds [OF t] by simp
qed

lemma verified_key: "key_verified h request off mac addr key \<Longrightarrow> handler_ok h \<Longrightarrow> \<forall>k. key = Some k \<longrightarrow> length (k_Secret k) = KeySize"
  by (auto simp: key_verified_def handler_ok_def)

lemma Handle_outcome:
  assumes "handler_ok h" "env_ok env"
  obtains r h' where "Handle env h request client receive now = Some (r, h')" "handler_ok h'" "same_rules h h'"
    "total h' = total h + 1 \<or> zero_digest env" "\<forall>resp. r = Some resp \<longrightarrow> answered h request client resp"
    "\<forall>k. bk_space k = spaceService \<and> not_verified h request client (bk_keyID k) \<longrightarrow> spares h h' k"
proof -
  let ?addr = "addr_unmap (ap_addr client)"
  note outcome = that
  have dropped: thesis if "Handle env h request client receive now = Some (None, count h ?addr f)" "\<And>c. accounted (f c) = accounted c + 1" for f
    by (rule outcome [OF that(1)]) (use assms count_total(1) [OF that(2)] in \<open>simp_all add: spares_def\<close>)
  show ?thesis
  proof (cases "Decode request")
    case (Inl e)
    show ?thesis
    proof (cases e)
      case (ErrVersion v)
      show ?thesis by (rule dropped [of "\<lambda>c. c\<lparr>c_badVersion := c_badVersion c + 1\<rparr>"])
        (simp_all add: Handle_def Inl ErrVersion accounted_sum)
    qed (rule dropped [of "\<lambda>c. c\<lparr>c_malformed := c_malformed c + 1\<rparr>"], simp_all add: Handle_def Inl accounted_sum)+
  next
    case (Inr d)
    obtain pkt mac off where d: "Decode request = Inr (pkt, mac, off)" using Inr by (cases d) auto
    consider "\<not> isClientRequest pkt" | "isClientRequest pkt" "martianSource client"
      | "isClientRequest pkt" "\<not> martianSource client" "\<not> permitted h ?addr"
      | (ok) "isClientRequest pkt" "\<not> martianSource client" "permitted h ?addr" by blast
    then show ?thesis
    proof cases
      case 1
      show ?thesis by (rule dropped [of "\<lambda>c. c\<lparr>c_nonClient := c_nonClient c + 1,
          c_modes := (c_modes c)[unat (mode_code (p_Mode pkt)) := c_modes c ! unat (mode_code (p_Mode pkt)) + 1]\<rparr>"])
        (simp_all add: Handle_def d 1 accounted_sum)
    next
      case 2
      show ?thesis by (rule dropped [of "\<lambda>c. c\<lparr>c_martian := c_martian c + 1\<rparr>"]) (simp_all add: Handle_def d 2 accounted_sum)
    next
      case 3
      show ?thesis by (rule dropped [of "\<lambda>c. c\<lparr>c_denied := c_denied c + 1\<rparr>"]) (simp_all add: Handle_def d 3 accounted_sum)
    next
      case ok
      note H = Handle_def [of env h request client receive now, unfolded d Let_def sum.case prod.case]
      from assms(1) show ?thesis
      proof (cases rule: authenticate_outcome [where env = env and request = request and addr = ?addr and pkt = pkt and mac = mac
            and off = off and receive = receive and now = now])
        case (finish r h')
        have "Handle env h request client receive now = Some (r, h')" unfolding H using ok finish(1) by simp
        then show ?thesis by (rule outcome) (use finish ok d in \<open>auto simp: answered_def spares_service_def\<close>)
      next
        case (proceed key h1)
        have offs: "HeaderSize \<le> off" "off \<le> length request" using Decode_offsets [OF d] by simp_all
        obtain r h' where s: "serve env h1 request ?addr pkt off key receive now = Some (r, h')" "handler_ok h'" "same_rules h1 h'"
          "total h' = total h1 + 1 \<or> zero_digest env" "\<forall>k. k \<noteq> service_key (h_limiter h1) ?addr (keyIDOf key) \<longrightarrow> spares h1 h' k"
          "\<forall>resp. r = Some resp \<longrightarrow> time_reply pkt off key resp"
          by (rule serve_outcome [OF proceed(2) assms(2) offs verified_key [OF proceed(6) assms(1)]])
        have sp: "spares h h' k" if "bk_space k = spaceService" "not_verified h request client (bk_keyID k)" for k :: bucket_key
        proof -
          have "bk_keyID k \<noteq> keyIDOf key" using that(2) d proceed(6) unfolding not_verified_def by metis
          then have "k \<noteq> service_key (h_limiter h1) ?addr (keyIDOf key)" using key_spaces(3) by metis
          then have "spares h1 h' k" using s(5) by blast
          moreover have "spares h h1 k" using proceed(5) that(1) unfolding spares_service_def by blast
          ultimately show ?thesis by (rule spares_trans [rotated])
        qed
        have an: "answered h request client resp" if "r = Some resp" for resp
          unfolding answered_def using d ok proceed(6) s(6) that by blast
        have "Handle env h request client receive now = Some (r, h')" unfolding H using ok proceed(1) s(1) by simp
        then show ?thesis by (rule outcome) (use s proceed sp an same_rules_trans [OF proceed(3) s(3)] in simp_all)
      qed
    qed
  qed
qed

section \<open>Runs\<close>

definition config_ok :: "server_config \<Rightarrow> bool" where
  \<comment> \<open>the two numbers are \<^verbatim>\<open>float64\<close> values and the keys come from a keys file\<close>
  "config_ok cfg \<longleftrightarrow> wf_f64 (sc_RateLimitPPS cfg) \<and> wf_f64 (sc_RateBurst cfg) \<and> valid_keys (sc_Keys cfg)"

inductive handler_reach :: "server_config \<Rightarrow> handler \<Rightarrow> bool" for cfg where
  new: "NewHandler cfg = Inr h \<Longrightarrow> handler_reach cfg h"
| handle: "handler_reach cfg h \<Longrightarrow> env_ok env \<Longrightarrow> Handle env h request client receive now = Some (r, h') \<Longrightarrow> handler_reach cfg h'"

lemma NewHandler_ok:
  assumes "config_ok cfg" "NewHandler cfg = Inr h"
  shows "handler_ok h" "h_keys h = sc_Keys cfg"
proof -
  have e: "config_errors cfg = []" using assms(2) by (simp add: NewHandler_def split: if_splits)
  have c: "sc_RateLimitPPS cfg > 0" "sc_RateLimitPPS cfg \<le> maxRateLimit" "sc_RateBurst cfg \<ge> 1" "sc_RateBurst cfg \<le> maxRateLimit"
    using e by (simp_all add: config_errors_def split: if_splits)
  have h: "h_keys h = sc_Keys cfg" "\<exists>n. h_limiter h = newRateLimiter (sc_RateLimitPPS cfg) (sc_RateBurst cfg) n (sc_RateLimitV6Prefix cfg)"
    using assms(2) e by (auto simp: NewHandler_def)
  show "h_keys h = sc_Keys cfg" by (rule h(1))
  obtain n where n: "h_limiter h = newRateLimiter (sc_RateLimitPPS cfg) (sc_RateBurst cfg) n (sc_RateLimitV6Prefix cfg)" using h(2) by blast
  have "limiter_ok (h_limiter h)" unfolding n
    by (rule new_limiter_ok(1)) (use assms(1) c in \<open>simp_all add: config_ok_def f64_zero_fin f64_one_fin\<close>)
  then show "handler_ok h" using assms(1) h(1) by (auto simp: handler_ok_def config_ok_def valid_keys_def)
qed

lemma handler_reach_ok:
  assumes "config_ok cfg" "handler_reach cfg h"
  shows "handler_ok h \<and> h_keys h = sc_Keys cfg"
  using assms(2)
proof (induction rule: handler_reach.induct)
  case (new h)
  then show ?case using NewHandler_ok [OF assms(1)] by simp
next
  case (handle h env request client receive now r h')
  have ok: "handler_ok h" using handle(4) by simp
  obtain r2 h2 where o: "Handle env h request client receive now = Some (r2, h2)" "handler_ok h2" "same_rules h h2"
    by (rule Handle_outcome [OF ok handle(2)])
  then show ?case using handle(3,4) by (simp add: same_rules_def)
qed

lemma answered_length:
  assumes "answered h request client resp"
  shows "length resp \<le> length request"
proof -
  obtain pkt mac off where d: "Decode request = Inr (pkt, mac, off)"
    and a: "nak_reply pkt request mac resp \<or> (\<exists>key. key_verified h request off mac (addr_unmap (ap_addr client)) key \<and> time_reply pkt off key resp)"
    using assms by (auto simp: answered_def)
  have offs: "HeaderSize \<le> off" "off \<le> length request" using Decode_offsets [OF d] by simp_all
  show ?thesis using a
  proof (elim disjE exE conjE)
    assume "nak_reply pkt request mac resp"
    then show ?thesis by (auto simp: nak_reply_def)
  next
    fix key assume kv: "key_verified h request off mac (addr_unmap (ap_addr client)) key" and tr: "time_reply pkt off key resp"
    obtain p body where p: "signed_as key (Marshal p @ body) resp" "HeaderSize + length body \<le> off" using tr by (auto simp: time_reply_def)
    show ?thesis
    proof (cases key)
      case None
      then show ?thesis using signed_length [OF p(1)] p(2) offs by simp
    next
      case (Some k)
      then obtain m where m: "mac = Some m" "Verify k (take off request) mac = Some True" using kv by (auto simp: key_verified_def)
      have "Append k (take off request) = Some request" using Verify_iff_Append [of request pkt m off k] d m by simp
      then have sg: "signed_as (Some k) (take off request) request" by (simp add: signed_as_def)
      have "length (take off request) = off" using offs(2) by simp
      then have "length request = off + MACSizeCMAC" using signed_length [OF sg] by (simp only: option.case)
      then show ?thesis using signed_length [OF p(1)] p(2) Some by simp
    qed
  qed
qed

definition signed_under :: "handler \<Rightarrow> byte list \<Rightarrow> uint32 \<Rightarrow> bool" where
  \<comment> \<open>the datagram is one that the holder of the key produces\<close>
  "signed_under h request i \<longleftrightarrow>
     (\<exists>pkt m off k. Decode request = Inr (pkt, Some m, off) \<and> h_keys h i = Some k \<and> Append k (take off request) = Some request)"

lemma verified_signed:
  assumes "Decode request = Inr (pkt, mac, off)" "key_verified h request off mac addr (Some k)"
  shows "signed_under h request (k_ID k)"
proof -
  obtain m where m: "mac = Some m" "h_keys h (m_KeyID m) = Some k" "Verify k (take off request) mac = Some True"
    using assms(2) by (auto simp: key_verified_def)
  have "m_KeyID m = k_ID k" using m(1,3) Verify_Some_True [of k "take off request" mac] by auto
  moreover have "Append k (take off request) = Some request" using Verify_iff_Append [of request pkt m off k] assms(1) m by simp
  ultimately show ?thesis using assms(1) m by (auto simp: signed_under_def)
qed

lemma unsigned_not_verified: "i \<noteq> 0 \<Longrightarrow> \<not> signed_under h request i \<Longrightarrow> not_verified h request client i"
  unfolding not_verified_def keyIDOf_def using verified_signed by (auto split: option.splits)

section \<open>A sample server\<close>

definition sample_prefix :: ip_prefix where
  "sample_prefix = \<lparr>pf_addr = Addr4 0, pf_bits = 0\<rparr>"

definition sample_server_config :: server_config where
  \<comment> \<open>everyone may ask and has to hold key 7\<close>
  "sample_server_config = \<lparr>sc_Allow = [sample_prefix], sc_Deny = [], sc_RequireKey = [(sample_prefix, 7)], sc_Keys = Map.empty,
     sc_RateLimitPPS = Fin 1, sc_RateBurst = Fin 8, sc_MaxClients = 0, sc_RateLimitV6Prefix = 0, sc_KoD = True, sc_MinPoll = 0,
     sc_hasStatus = True, sc_hasNow = True, sc_Stats = None, sc_Leap = None\<rparr>"

definition sample_handler :: handler where
  "sample_handler = \<lparr>h_allow = [sample_prefix], h_deny = [], h_requireKey = [(sample_prefix, 7)], h_keys = Map.empty,
     h_limiter = newRateLimiter (Fin 1) (Fin 8) 65536 0, h_kod = True, h_minPoll = 6,
     h_stats = \<lparr>st_v4 = zero_counters, st_v6 = zero_counters\<rparr>, h_leap = None, h_publishedClients = 0\<rparr>"

definition sample_env :: handler_env where
  "sample_env = \<lparr>he_status = \<lparr>sv_Synced = True, sv_Leap = LeapNone, sv_Stratum = 2, sv_Precision = 0, sv_RootDelay = Fin 0,
       sv_RootDispersion = Fin 0, sv_ReferenceID = KissINIT, sv_ReferenceTime = 0\<rparr>,
     he_current = None, he_respond_now = 5, he_transmit_now = 6\<rparr>"

definition sample_client :: addr_port where
  "sample_client = \<lparr>ap_addr = Addr4 0x0a000001, ap_port = 123\<rparr>"

lemma sample_reach: "handler_reach sample_server_config sample_handler"
proof (rule handler_reach.new)
  have m: "prefix_masked sample_prefix = sample_prefix" by (simp add: prefix_masked_def sample_prefix_def)
  have e: "config_errors sample_server_config = []"
    by (simp add: config_errors_def sample_server_config_def f64_zero_fin f64_one_fin)
  show "NewHandler sample_server_config = Inr sample_handler"
    unfolding NewHandler_def e by (simp add: sample_server_config_def sample_handler_def maskedPrefixes_def m go_sort_def)
qed

lemma sample_config_ok: "config_ok sample_server_config" "env_ok sample_env"
  using wf_f64_int [of 1] wf_f64_int [of 8]
  by (simp_all add: config_ok_def sample_server_config_def valid_keys_def env_ok_def sample_env_def)

lemma sample_required: "requiredKey sample_handler (addr_unmap (ap_addr sample_client)) = 7"
  by (simp add: requiredKey_def sample_handler_def sample_client_def sample_prefix_def)

lemma sample_short:
  "Handle sample_env sample_handler [] sample_client 0 0 =
   Some (None, count sample_handler (Addr4 0x0a000001) (\<lambda>c. c\<lparr>c_malformed := c_malformed c + 1\<rparr>))"
  by (simp add: Handle_def Decode_def sample_client_def)

section \<open>Properties\<close>

text \<open>C10: The server cannot be used to amplify: in every state a handler can reach, every datagram is handled without a panic,
  and a response, if there is one, is no longer than the datagram, goes only to a permitted unicast source
  that sent a client request, and is a server packet that echoes the transmit time of the request.\<close>
theorem handle_never_amplifies:
  assumes "config_ok cfg" "handler_reach cfg h" "env_ok env"
  shows "\<exists>r h'. Handle env h request client receive now = Some (r, h') \<and>
    (\<forall>resp. r = Some resp \<longrightarrow> length resp \<le> length request \<and> \<not> martianSource client \<and> permitted h (addr_unmap (ap_addr client)) \<and>
      (\<exists>pkt mac off p rest. Decode request = Inr (pkt, mac, off) \<and> isClientRequest pkt \<and> resp = Marshal p @ rest \<and>
        p_Mode p = ModeServer \<and> p_OriginTime p = p_TransmitTime pkt))"
proof -
  have ok: "handler_ok h" using handler_reach_ok [OF assms(1,2)] by simp
  obtain r h' where o: "Handle env h request client receive now = Some (r, h')" "\<forall>resp. r = Some resp \<longrightarrow> answered h request client resp"
    by (rule Handle_outcome [OF ok assms(3)])
  have "\<exists>p rest. resp = Marshal p @ rest \<and> p_Mode p = ModeServer \<and> p_OriginTime p = p_TransmitTime pkt"
    if "nak_reply pkt request mac resp \<or> (\<exists>key. key_verified h request off mac addr key \<and> time_reply pkt off key resp)" for pkt mac off resp addr
    using that
  proof (elim disjE exE conjE)
    fix key assume "time_reply pkt off key resp"
    then obtain p body where p: "signed_as key (Marshal p @ body) resp" "p_Mode p = ModeServer" "p_OriginTime p = p_TransmitTime pkt"
      unfolding time_reply_def by blast
    obtain x where "resp = (Marshal p @ body) @ x" using signed_prefix [OF p(1)] by blast
    then show ?thesis using p(2,3) by (intro exI [of _ p] exI [of _ "body @ x"]) simp
  qed (auto simp: nak_reply_def)
  then have "length resp \<le> length request \<and> \<not> martianSource client \<and> permitted h (addr_unmap (ap_addr client)) \<and>
      (\<exists>pkt mac off p rest. Decode request = Inr (pkt, mac, off) \<and> isClientRequest pkt \<and> resp = Marshal p @ rest \<and>
        p_Mode p = ModeServer \<and> p_OriginTime p = p_TransmitTime pkt)" if "answered h request client resp" for resp
    using answered_length [OF that] that unfolding answered_def by blast
  then show ?thesis using o by blast
qed

theorem handle_never_amplifies_witness:
  "\<exists>r h'. Handle sample_env sample_handler (Marshal sample_packet) sample_client 0 0 = Some (r, h') \<and>
     (\<forall>resp. r = Some resp \<longrightarrow> length resp \<le> 48)"
  using handle_never_amplifies [OF sample_config_ok(1) sample_reach sample_config_ok(2), of "Marshal sample_packet" sample_client 0 0]
  unfolding length_Marshal by blast

text \<open>C13: Every datagram is accounted for exactly once: handling it raises the total of the requests served and dropped, over both
  address families, by one (unless the list in force has an all-zero SHA-256, which its reply cannot carry).\<close>
theorem handle_counts_once:
  assumes "config_ok cfg" "handler_reach cfg h" "env_ok env" "Handle env h request client receive now = Some (r, h')"
  shows "Requests (sn_Total (Snapshot (h_stats h'))) = Requests (sn_Total (Snapshot (h_stats h))) + 1 \<or>
    (\<exists>obj. he_current env = Some obj \<and> sha256_Sum256 (ob_data obj) = replicate 32 0)"
proof -
  have ok: "handler_ok h" using handler_reach_ok [OF assms(1,2)] by simp
  obtain r2 h2 where "Handle env h request client receive now = Some (r2, h2)" "total h2 = total h + 1 \<or> zero_digest env"
    by (rule Handle_outcome [OF ok assms(3)])
  then show ?thesis using assms(4) by (simp add: total_requests_def zero_digest_def)
qed

theorem handle_counts_once_witness:
  "Requests (sn_Total (Snapshot (h_stats (count sample_handler (Addr4 0x0a000001) (\<lambda>c. c\<lparr>c_malformed := c_malformed c + 1\<rparr>))))) =
   Requests (sn_Total (Snapshot (h_stats sample_handler))) + 1"
  using handle_counts_once [OF sample_config_ok(1) sample_reach sample_config_ok(2) sample_short] by (simp add: sample_env_def)

text \<open>C11: Where the configuration requires a key, nothing but a crypto-NAK is sent to anyone who does not hold it: a response to a
  source under a required key is a header with a zero key id, or the request is exactly a datagram signed
  under that key and the response is signed under it too.\<close>
theorem handle_requires_key:
  assumes "config_ok cfg" "handler_reach cfg h" "env_ok env" "requiredKey h (addr_unmap (ap_addr client)) \<noteq> 0"
  shows "\<exists>r h'. Handle env h request client receive now = Some (r, h') \<and>
    (\<forall>resp. r = Some resp \<longrightarrow>
      (\<exists>p. resp = Marshal p @ put_uint32 0) \<or>
      (\<exists>pkt m off k body. Decode request = Inr (pkt, Some m, off) \<and> sc_Keys cfg (requiredKey h (addr_unmap (ap_addr client))) = Some k \<and>
         Append k (take off request) = Some request \<and> Append k body = Some resp))"
proof -
  let ?addr = "addr_unmap (ap_addr client)"
  have ok: "handler_ok h" and keys: "h_keys h = sc_Keys cfg" using handler_reach_ok [OF assms(1,2)] by simp_all
  obtain r h' where o: "Handle env h request client receive now = Some (r, h')" "\<forall>resp. r = Some resp \<longrightarrow> answered h request client resp"
    by (rule Handle_outcome [OF ok assms(3)])
  have "(\<exists>p. resp = Marshal p @ put_uint32 0) \<or>
      (\<exists>pkt m off k body. Decode request = Inr (pkt, Some m, off) \<and> sc_Keys cfg (requiredKey h ?addr) = Some k \<and>
         Append k (take off request) = Some request \<and> Append k body = Some resp)" if an: "answered h request client resp" for resp
  proof -
    obtain pkt mac off where d: "Decode request = Inr (pkt, mac, off)"
      and a: "nak_reply pkt request mac resp \<or> (\<exists>key. key_verified h request off mac ?addr key \<and> time_reply pkt off key resp)"
      using an by (auto simp: answered_def)
    show ?thesis using a
    proof (elim disjE exE conjE)
      fix key assume kv: "key_verified h request off mac ?addr key" and tr: "time_reply pkt off key resp"
      obtain k m where k: "key = Some k" "mac = Some m" "h_keys h (m_KeyID m) = Some k" "Verify k (take off request) mac = Some True"
        "k_ID k = requiredKey h ?addr"
        using kv assms(4) by (auto simp: key_verified_def split: option.splits)
      have "m_KeyID m = k_ID k" using k(2,4) Verify_Some_True [of k "take off request" mac] by auto
      moreover have "Append k (take off request) = Some request" using Verify_iff_Append [of request pkt m off k] d k by simp
      moreover obtain body where "Append k body = Some resp" using tr k(1) by (auto simp: time_reply_def signed_as_def)
      ultimately show ?thesis using d k keys by auto
    qed (auto simp: nak_reply_def)
  qed
  then show ?thesis using o by blast
qed

theorem handle_requires_key_witness:
  "\<exists>r h'. Handle sample_env sample_handler (Marshal sample_packet) sample_client 0 0 = Some (r, h') \<and>
     (\<forall>resp. r = Some resp \<longrightarrow> (\<exists>p. resp = Marshal p @ put_uint32 0))"
proof -
  have "requiredKey sample_handler (addr_unmap (ap_addr sample_client)) \<noteq> 0" by (simp add: sample_required)
  from handle_requires_key [OF sample_config_ok(1) sample_reach sample_config_ok(2) this, of "Marshal sample_packet" 0 0]
  show ?thesis by (simp add: sample_server_config_def)
qed

text \<open>C12: A forger cannot spend the tokens of an authenticated client: a datagram that is not signed under a key leaves every
  service bucket of that key as it was, or forgotten by expiry or eviction, whatever address it claims.\<close>
theorem handle_spoof_spends_nothing:
  assumes "config_ok cfg" "handler_reach cfg h" "env_ok env" "i \<noteq> 0" "\<not> signed_under h request i"
    "Handle env h request client receive now = Some (r, h')" "bk_space k = spaceService" "bk_keyID k = i"
  shows "bucket (h_limiter h') k = bucket (h_limiter h) k \<or> bucket (h_limiter h') k = None"
proof -
  have ok: "handler_ok h" using handler_reach_ok [OF assms(1,2)] by simp
  obtain r2 h2 where "Handle env h request client receive now = Some (r2, h2)"
    "\<forall>k. bk_space k = spaceService \<and> not_verified h request client (bk_keyID k) \<longrightarrow> spares h h2 k"
    by (rule Handle_outcome [OF ok assms(3)])
  moreover have "not_verified h request client i" by (rule unsigned_not_verified [OF assms(4,5)])
  ultimately have "spares h h' k" using assms(6-8) by simp
  then show ?thesis by (simp add: spares_def)
qed

theorem handle_spoof_spends_nothing_witness:
  "bucket (h_limiter (count sample_handler (Addr4 0x0a000001) (\<lambda>c. c\<lparr>c_malformed := c_malformed c + 1\<rparr>)))
     (service_key (h_limiter sample_handler) (Addr4 0x0a000001) 7) = None"
proof -
  have "\<not> signed_under sample_handler [] 7" by (simp add: signed_under_def Decode_def)
  from handle_spoof_spends_nothing [OF sample_config_ok(1) sample_reach sample_config_ok(2) _ this sample_short,
      of "service_key (h_limiter sample_handler) (Addr4 0x0a000001) 7"]
  show ?thesis by (simp add: bucket_def sample_handler_def newRateLimiter_def)
qed

end
