(* ===== verification/Interoperation.thy ===== *)
theory Interoperation
  imports NTP_Exchange Responder
begin

text \<open>
  The client and the server together: the request \<^verbatim>\<open>exchange\<close> of \<^verbatim>\<open>internal/source/ntp.go\<close> sends is handled by
  \<^verbatim>\<open>Handle\<close> of \<^verbatim>\<open>internal/server/responder.go\<close>, and the datagram that returns is read by the same \<^verbatim>\<open>exchange\<close>.
\<close>

section \<open>The request as the server sees it\<close>

lemma request_fields:
  "p_Version (request_packet p nonce) = 4" "p_Mode (request_packet p nonce) = ModeClient"
  "p_TransmitTime (request_packet p nonce) = get_uint64 nonce"
  by (simp_all add: request_packet_def)

lemma signed_decode:
  assumes "signed_as key (Marshal q) b" "p_Version q = 4"
  shows "\<exists>mac. Decode b = Inr (q, mac, HeaderSize) \<and> (case key of None \<Rightarrow> mac = None
    | Some k \<Rightarrow> (\<exists>m. mac = Some m \<and> m_KeyID m = k_ID k \<and> \<not> IsCryptoNAK mac \<and> Verify k (take HeaderSize b) mac = Some True))"
proof (cases key)
  case None
  then have "b = Marshal q" using assms(1) by (simp add: signed_as_def)
  then show ?thesis using Decode_Marshal_plain [of q] assms(2) None by simp
next
  case (Some k)
  then obtain d where d: "CMAC (k_Secret k) (Marshal q) = Some d" "b = Marshal q @ put_uint32 (k_ID k) @ d"
    using assms(1) by (auto simp: signed_as_def Append_def split: option.splits)
  have l: "length d = 16" using d(1) by (rule CMAC_length)
  have "Decode b = Inr (q, Some \<lparr>m_KeyID = k_ID k, m_Digest = d\<rparr>, HeaderSize)"
    unfolding d(2) by (rule Decode_signed) (use assms(2) l in simp_all)
  moreover have "Verify k (take HeaderSize b) (Some \<lparr>m_KeyID = k_ID k, m_Digest = d\<rparr>) = Some True"
    unfolding Verify_Some_True d(2) using d(1) by simp
  ultimately show ?thesis using Some l by (auto simp: IsCryptoNAK_def)
qed

lemma request_signed: "request_bytes p req = Some b \<longleftrightarrow> signed_as (xp_key p) (Marshal req) b"
  by (auto simp: request_bytes_def signed_as_def split: option.splits)

section \<open>The reply as the client sees it\<close>

lemma limit_keys: "limit h k now = (a, kd, h') \<Longrightarrow> h_keys h' = h_keys h"
  by (auto simp: limit_def Let_def split: prod.splits)

lemma verified_no_nak:
  assumes "mac = Some m" "\<not> IsCryptoNAK mac" "h_keys h (m_KeyID m) = Some k" "Verify k (take off request) mac = Some True"
    "authenticate env h request addr pkt mac off receive now = Some (Finish r h')"
  shows "r = None"
proof -
  have v: "verify g request off mac = Some (Some k, True)" if "h_keys g = h_keys h" for g
    using assms(1-4) that by (simp add: verify_def)
  obtain a kd h1 where l: "limit h (cryptoKey (h_limiter h) addr) now = (a, kd, h1)" by (cases "limit h (cryptoKey (h_limiter h) addr) now")
  show ?thesis
    using assms(5) v [OF refl] v [OF limit_keys [OF l]] assms(1)
    unfolding authenticate_def Let_def l by (auto split: if_splits)
qed

lemma Handle_served:
  assumes "handler_ok h" "env_ok env" "Decode request = Inr (pkt, mac, off)" "Handle env h request client receive now = Some (Some resp, h')"
    "mac = None \<or> (\<exists>m k. mac = Some m \<and> \<not> IsCryptoNAK mac \<and> h_keys h (m_KeyID m) = Some k \<and> Verify k (take off request) mac = Some True)"
  shows "\<exists>key. key_verified h request off mac (addr_unmap (ap_addr client)) key \<and> time_reply pkt off key resp"
proof -
  let ?addr = "addr_unmap (ap_addr client)"
  have H: "(case authenticate env h request ?addr pkt mac off receive now of None \<Rightarrow> None | Some (Finish r h) \<Rightarrow> Some (r, h)
      | Some (Proceed key h) \<Rightarrow> serve env h request ?addr pkt off key receive now) = Some (Some resp, h')"
    using assms(4) unfolding Handle_def Let_def assms(3) by (auto split: if_splits)
  from assms(1) show ?thesis
  proof (cases rule: authenticate_outcome [where env = env and request = request and addr = ?addr and pkt = pkt and mac = mac
        and off = off and receive = receive and now = now])
    case (finish r h1)
    then have "r = Some resp" using H by simp
    then have "mac \<noteq> None" using finish(6) by (simp add: nak_reply_def)
    then obtain m k where m: "mac = Some m" "\<not> IsCryptoNAK mac" "h_keys h (m_KeyID m) = Some k" "Verify k (take off request) mac = Some True"
      using assms(5) by blast
    from verified_no_nak [OF m finish(1)] \<open>r = Some resp\<close> show ?thesis by simp
  next
    case (proceed key h1)
    have offs: "HeaderSize \<le> off" "off \<le> length request" using Decode_offsets [OF assms(3)] by simp_all
    obtain r2 h2 where s: "serve env h1 request ?addr pkt off key receive now = Some (r2, h2)" "\<forall>resp. r2 = Some resp \<longrightarrow> time_reply pkt off key resp"
      by (rule serve_outcome [OF proceed(2) assms(2) offs verified_key [OF proceed(6) assms(1)]])
    then show ?thesis using H proceed(1,6) by auto
  qed
qed

definition strangers :: "addr_port \<Rightarrow> read_event list \<Rightarrow> bool" where
  \<comment> \<open>datagrams from elsewhere\<close>
  "strangers addr evs \<longleftrightarrow> list_all (\<lambda>e. case e of Datagram bs src t kt \<Rightarrow> \<not> sameEndpoint src addr | ReadError c e \<Rightarrow> False) evs"

lemma strangers_skipped:
  "strangers (xp_addr p) evs \<Longrightarrow>
   exchange_reads p (dial_addr (xp_addr p)) req res c (evs @ rest) = exchange_reads p (dial_addr (xp_addr p)) req res c rest"
proof (induction evs)
  case (Cons e evs)
  then show ?case by (cases e) (simp_all add: strangers_def split_beta)
qed simp

text \<open>A server packet that echoes the nonce and is signed as the client expects decides the exchange.\<close>

lemma server_packet_read:
  assumes "signed_as (xp_key p) (Marshal q) resp" "p_Mode q = ModeServer" "p_OriginTime q = get_uint64 nonce" "p_Version q = 4"
    "request_bytes p (request_packet p nonce) = Some request" "strangers (xp_addr p) before" "sameEndpoint src (xp_addr p)"
  shows "\<exists>res err. exchange p \<lparr>xe_nonce = Some nonce, xe_socket = True, xe_deadline = True, xe_t1 = t1, xe_write = None,
      xe_reads = before @ Datagram resp src t4 None # after, xe_cancelled = c\<rparr> = Some (res, err) \<and>
    Decode resp = Inr (er_Packet res, er_MAC res, HeaderSize) \<and> er_Authenticated res = (xp_key p \<noteq> None) \<and>
    err = (case check_reply p t1 t4 (er_Packet res) (xp_key p \<noteq> None) of Inl e \<Rightarrow> Some e | Inr od \<Rightarrow> None)"
proof -
  obtain rmac where rd: "Decode resp = Inr (q, rmac, HeaderSize)" and rm: "case xp_key p of None \<Rightarrow> rmac = None
    | Some k \<Rightarrow> (\<exists>m. rmac = Some m \<and> m_KeyID m = k_ID k \<and> \<not> IsCryptoNAK rmac \<and> Verify k (take HeaderSize resp) rmac = Some True)"
    using signed_decode [OF assms(1,4)] by blast
  have "length resp \<le> 68" using signed_length [OF assms(1)] by (auto split: option.splits)
  then have tk: "take ntp_MaxPacketSize resp = resp" by simp
  have au: "authentic (xp_key p) resp rmac HeaderSize = Some True"
    using rm by (auto simp: authentic_def split: option.splits)
  let ?r0 = "(zero_result\<lparr>er_Sent := True, er_T1 := t1\<rparr>)\<lparr>er_Packet := q, er_MAC := rmac, er_T4 := t4, er_KernelTS := False\<rparr>"
  let ?res = "?r0\<lparr>er_Authenticated := (xp_key p \<noteq> None)\<rparr>"
  let ?env = "\<lparr>xe_nonce = Some nonce, xe_socket = True, xe_deadline = True, xe_t1 = t1, xe_write = None,
      xe_reads = before @ Datagram resp src t4 None # after, xe_cancelled = c\<rparr>"
  have "exchange p ?env = exchange_reads p (dial_addr (xp_addr p)) (request_packet p nonce)
      (zero_result\<lparr>er_Sent := True, er_T1 := t1\<rparr>) c (before @ Datagram resp src t4 None # after)"
    by (simp add: exchange_def assms(5))
  also have "\<dots> = take_reply p ?r0 t1 resp q rmac HeaderSize"
    unfolding strangers_skipped [OF assms(6)] exchange_reads.simps Let_def tk rd
    using assms(3,7) by (simp add: request_fields)
  also have "\<dots> = (case check_reply p t1 t4 q (xp_key p \<noteq> None) of Inl e \<Rightarrow> Some (?res, Some e)
     | Inr (offset, delay) \<Rightarrow> Some (?res\<lparr>er_Offset := offset, er_Delay := delay\<rparr>, None))"
    unfolding take_reply_def au Let_def by (simp add: assms(2) zero_result_def)
  finally show ?thesis using rd by (auto split: sum.split)
qed

section \<open>Properties\<close>

text \<open>C19: Client and server speak the same protocol. Whatever the server of this program sends in response to a request of
  its client, signed with a key both hold or not signed, is read by that client as the reply to this request, however many
  datagrams of others arrive before: it is well framed, verifies under the key, echoes the nonce and is in mode server, so the outcome
  is decided by the values in the reply alone.\<close>
theorem client_reads_server:
  assumes "config_ok cfg" and "handler_reach cfg h" and "env_ok env"
    and "\<forall>k. xp_key p = Some k \<longrightarrow> h_keys h (k_ID k) = Some k"
    and "request_bytes p (request_packet p nonce) = Some request"
    and "Handle env h request client receive now = Some (Some resp, h')"
    and "strangers (xp_addr p) before" and "sameEndpoint src (xp_addr p)"
  shows "\<exists>res err. exchange p \<lparr>xe_nonce = Some nonce, xe_socket = True, xe_deadline = True, xe_t1 = t1, xe_write = None,
      xe_reads = before @ Datagram resp src t4 None # after, xe_cancelled = c\<rparr> = Some (res, err) \<and>
    Decode resp = Inr (er_Packet res, er_MAC res, HeaderSize) \<and> er_Authenticated res = (xp_key p \<noteq> None) \<and>
    err = (case check_reply p t1 t4 (er_Packet res) (xp_key p \<noteq> None) of Inl e \<Rightarrow> Some e | Inr od \<Rightarrow> None)"
proof -
  let ?req = "request_packet p nonce"
  have ok: "handler_ok h" using handler_reach_ok [OF assms(1,2)] by simp
  obtain mac where d: "Decode request = Inr (?req, mac, HeaderSize)" and mac: "case xp_key p of None \<Rightarrow> mac = None
    | Some k \<Rightarrow> (\<exists>m. mac = Some m \<and> m_KeyID m = k_ID k \<and> \<not> IsCryptoNAK mac \<and> Verify k (take HeaderSize request) mac = Some True)"
    using signed_decode [OF iffD1 [OF request_signed assms(5)] request_fields(1)] by blast
  have "mac = None \<or> (\<exists>m k. mac = Some m \<and> \<not> IsCryptoNAK mac \<and> h_keys h (m_KeyID m) = Some k \<and> Verify k (take HeaderSize request) mac = Some True)"
    using mac assms(4) by (auto split: option.splits)
  from Handle_served [OF ok assms(3) d assms(6) this] obtain key where
    kv: "key_verified h request HeaderSize mac (addr_unmap (ap_addr client)) key" and tr: "time_reply ?req HeaderSize key resp" by blast
  have key: "key = xp_key p" using kv mac assms(4) by (auto simp: key_verified_def split: option.splits)
  obtain q where q: "signed_as (xp_key p) (Marshal q) resp" "p_Mode q = ModeServer" "p_OriginTime q = get_uint64 nonce" "p_Version q = 4"
    using tr unfolding time_reply_def key by (auto simp: request_fields)
  from server_packet_read [OF q assms(5,7,8)] show ?thesis .
qed

definition open_config :: server_config where
  "open_config = sample_server_config\<lparr>sc_RequireKey := []\<rparr>"

definition open_handler :: handler where
  "open_handler = sample_handler\<lparr>h_requireKey := []\<rparr>"

lemma open_reach: "handler_reach open_config open_handler" "config_ok open_config"
proof -
  have m: "prefix_masked sample_prefix = sample_prefix" by (simp add: prefix_masked_def sample_prefix_def)
  have e: "config_errors open_config = []"
    by (simp add: config_errors_def open_config_def sample_server_config_def f64_zero_fin f64_one_fin)
  have "NewHandler open_config = Inr open_handler"
    unfolding NewHandler_def e
    by (simp add: open_config_def open_handler_def sample_server_config_def sample_handler_def maskedPrefixes_def m go_sort_def)
  then show "handler_reach open_config open_handler" by (rule handler_reach.new)
  show "config_ok open_config" using sample_config_ok(1) by (simp add: config_ok_def open_config_def)
qed

lemma open_limit: "\<exists>l. limiter_allow (newRateLimiter (Fin 1) (Fin 8) 65536 0) k now = (True, False, l)"
  by (simp add: limiter_allow_def expire.simps newRateLimiter_def new_bucket_def limiter_size_def spend_def Let_def f64_one_fin)

lemma open_answers:
  "\<exists>resp h'. Handle sample_env open_handler (Marshal (request_packet sample_params [1, 2, 3, 4, 5, 6, 7, 8])) sample_client 0 0 =
     Some (Some resp, h')"
proof -
  let ?req = "request_packet sample_params [1, 2, 3, 4, 5, 6, 7, 8]" and ?addr = "Addr4 0x0a000001"
  have d: "Decode (Marshal ?req) = Inr (?req, None, HeaderSize)"
    by (rule Decode_Marshal_plain) (simp_all add: request_fields)
  have c: "isClientRequest ?req" by (simp add: isClientRequest_def request_fields)
  have m: "\<not> martianSource sample_client" by (simp add: martianSource_def sample_client_def v4Broadcast_def Let_def)
  have p: "permitted open_handler ?addr"
    by (simp add: permitted_def matches_def open_handler_def sample_handler_def sample_prefix_def)
  have a: "authenticate sample_env open_handler (Marshal ?req) ?addr ?req None HeaderSize 0 0 = Some (Proceed None open_handler)"
    by (simp add: authenticate_def requiredKey_def open_handler_def sample_handler_def)
  let ?k = "service_key (h_limiter open_handler) ?addr (keyIDOf None)"
  obtain h1 where l: "limit open_handler ?k 0 = (True, False, h1)"
    using open_limit [of ?k 0] by (auto simp: limit_def open_handler_def sample_handler_def)
  have x: "leap_extension env g (Marshal ?req) ?addr ?req HeaderSize None t = Some (LeapReply None g)" for env g t
    by (simp add: leap_extension_def)
  have r: "\<exists>out. reply sample_env g ?req 0 i None b None = Some (Some out)" for g i b
    using reply_outcome [of None None sample_env g ?req 0 i b] by auto
  have "\<exists>resp h'. serve sample_env open_handler (Marshal ?req) ?addr ?req HeaderSize None 0 0 = Some (Some resp, h')"
    unfolding serve_def l Let_def x using r
      [of "count (publishClients h1 ?addr) ?addr (note_request ?req 0)" "status_refid (he_status sample_env)" "\<not> sv_Synced (he_status sample_env)"]
    by (auto simp: x)
  then show ?thesis unfolding Handle_def Let_def d using c m p a by (simp add: sample_client_def)
qed

theorem client_reads_server_witness:
  "\<exists>resp h' res err.
     Handle sample_env open_handler (Marshal (request_packet sample_params [1, 2, 3, 4, 5, 6, 7, 8])) sample_client 0 0 = Some (Some resp, h') \<and>
     exchange sample_params \<lparr>xe_nonce = Some [1, 2, 3, 4, 5, 6, 7, 8], xe_socket = True, xe_deadline = True, xe_t1 = 0, xe_write = None,
       xe_reads = [] @ Datagram resp (xp_addr sample_params) 9 None # [], xe_cancelled = False\<rparr> = Some (res, err) \<and>
     Decode resp = Inr (er_Packet res, er_MAC res, HeaderSize)"
proof -
  obtain resp h' where h: "Handle sample_env open_handler (Marshal (request_packet sample_params [1, 2, 3, 4, 5, 6, 7, 8])) sample_client 0 0 =
      Some (Some resp, h')"
    using open_answers by blast
  have k: "\<forall>k. xp_key sample_params = Some k \<longrightarrow> h_keys open_handler (k_ID k) = Some k" by (simp add: sample_params_def)
  have r: "request_bytes sample_params (request_packet sample_params [1, 2, 3, 4, 5, 6, 7, 8]) =
      Some (Marshal (request_packet sample_params [1, 2, 3, 4, 5, 6, 7, 8]))"
    by (simp add: request_bytes_def sample_params_def)
  have s: "strangers (xp_addr sample_params) []" "sameEndpoint (xp_addr sample_params) (xp_addr sample_params)"
    by (simp_all add: strangers_def sameEndpoint_def)
  from client_reads_server [OF open_reach(2,1) sample_config_ok(2) k r h s] h show ?thesis by blast
qed

end
