(* ===== verification/NMEA_Sentence.thy ===== *)
theory NMEA_Sentence
  imports Go_Text Go_Calendar Prelude
begin

text \<open>
  \<^verbatim>\<open>internal/refclock/nmea_sentence.go\<close>: the parser of the sentences of a GPS receiver. Text is a list of bytes;
  an error is a value that says which check failed.
\<close>

section \<open>The parser\<close>

abbreviation (input) maxNMEALine :: nat where "maxNMEALine \<equiv> 1024"

record nmeaSentence =
  ns_Kind :: string
  ns_Timestamp :: gtime
  ns_Valid :: bool
  ns_FixQuality :: int
  ns_Satellites :: int
  ns_Fractional :: bool

datatype clock_error = ClockForm | HourInvalid | MinuteInvalid | SecondInvalid | LeapSecondInstant | SecondSixty | FractionInvalid

datatype nmea_error =
    BadLength | NoDollar | NoChecksum | BadChecksum | ChecksumMismatch byte nat | BadIdentifier | BadTalker string
  | Truncated string | BadClock string clock_error | BadRange string string | BadDateForm | NotCalendar string
  | BadStatus string | UnsupportedSentence string

definition last_index :: "string \<Rightarrow> char \<Rightarrow> nat option" where
  \<comment> \<open>\<^verbatim>\<open>strings.LastIndexByte\<close>\<close>
  "last_index s c =
     (if c \<in> set s then Some (length s - 1 - length (takeWhile (\<lambda>x. x \<noteq> c) (rev s))) else None)"

definition nmea_checksum :: "string \<Rightarrow> byte" where
  "nmea_checksum s = foldl (\<lambda>got c. got XOR of_nat (char_code c)) 0 s"

definition parseDigits :: "string \<Rightarrow> int option" where
  "parseDigits raw = (if list_all (\<lambda>c. 48 \<le> char_code c \<and> char_code c \<le> 57) raw then strconv_Atoi raw else None)"

definition parseRange :: "string \<Rightarrow> int \<Rightarrow> int \<Rightarrow> string \<Rightarrow> nmea_error + int" where
  "parseRange raw low high field =
     (case strconv_Atoi raw of
        None \<Rightarrow> Inl (BadRange field raw)
      | Some n \<Rightarrow> if n < low \<or> n > high then Inl (BadRange field raw) else Inr n)"

definition pad_fraction :: "string \<Rightarrow> string" where
  \<comment> \<open>cut or filled with zeros to nine digits\<close>
  "pad_fraction fr = take 9 fr @ replicate (9 - length fr) CHR ''0''"

definition parseNMEAClock :: "string \<Rightarrow> clock_error + (int \<times> int \<times> int \<times> int \<times> bool)" where
  "parseNMEAClock raw =
     (let (whole, fr) = strings_Cut raw CHR ''.''
      in if length whole \<noteq> 6 then Inl ClockForm
         else case parseDigits (slice 0 2 whole) of
             None \<Rightarrow> Inl HourInvalid
           | Some hour \<Rightarrow>
               if hour > 23 then Inl HourInvalid
               else case parseDigits (slice 2 4 whole) of
                   None \<Rightarrow> Inl MinuteInvalid
                 | Some minute \<Rightarrow>
                     if minute > 59 then Inl MinuteInvalid
                     else case parseDigits (slice 4 6 whole) of
                         None \<Rightarrow> Inl SecondInvalid
                       | Some second \<Rightarrow>
                           if second > 60 then Inl SecondInvalid
                           else if second = 60 then
                             (if hour = 23 \<and> minute = 59 then Inl LeapSecondInstant else Inl SecondSixty)
                           else if fr = [] then Inr (hour, minute, second, 0, False)
                           else if parseDigits fr = None then Inl FractionInvalid
                           else case parseDigits (pad_fraction fr) of
                               None \<Rightarrow> Inl FractionInvalid
                             | Some nsec \<Rightarrow> Inr (hour, minute, second, nsec, nsec \<noteq> 0))"

definition clock_time :: "int \<Rightarrow> int \<Rightarrow> int \<Rightarrow> int \<Rightarrow> int \<Rightarrow> int \<Rightarrow> int \<Rightarrow> gtime" where
  \<comment> \<open>\<^verbatim>\<open>time.Date\<close> with a time of day\<close>
  "clock_time year month day hour minute second nsec =
     time_of_date year (nat month) day (hour * 3600 + minute * 60 + second) nsec"

definition is_date :: "gtime \<Rightarrow> int \<Rightarrow> int \<Rightarrow> int \<Rightarrow> bool" where
  \<comment> \<open>the comparison of \<^verbatim>\<open>Day\<close>, \<^verbatim>\<open>Month\<close> and \<^verbatim>\<open>Year\<close> of a time with what it was made from\<close>
  "is_date stamp year month day \<longleftrightarrow> time_date stamp = (year, nat month, day)"

definition parseRMCDate :: "string \<Rightarrow> nmea_error + (int \<times> int \<times> int)" where
  \<comment> \<open>day, month and year\<close>
  "parseRMCDate raw =
     (if length raw \<noteq> 6 then Inl BadDateForm
      else case parseRange (slice 0 2 raw) 1 31 ''RMC day'' of
          Inl e \<Rightarrow> Inl e
        | Inr day \<Rightarrow>
            (case parseRange (slice 2 4 raw) 1 12 ''RMC month'' of
               Inl e \<Rightarrow> Inl e
             | Inr month \<Rightarrow>
                 (case parseRange (drop 4 raw) 0 99 ''RMC year'' of
                    Inl e \<Rightarrow> Inl e
                  | Inr yy \<Rightarrow>
                      (let year = 2000 + yy
                       in if \<not> is_date (clock_time year month day 0 0 0 0) year month day then Inl (NotCalendar ''RMC'')
                          else Inr (day, month, year)))))"

definition zero_sentence :: nmeaSentence where
  "zero_sentence = \<lparr>ns_Kind = [], ns_Timestamp = zero_time, ns_Valid = False, ns_FixQuality = 0, ns_Satellites = 0,
     ns_Fractional = False\<rparr>"

definition parse_RMC :: "string list \<Rightarrow> nmea_error + nmeaSentence" where
  "parse_RMC fs =
     (if length fs < 10 then Inl (Truncated ''RMC'')
      else case parseNMEAClock (fs ! 1) of
          Inl e \<Rightarrow> Inl (BadClock ''RMC'' e)
        | Inr (hour, minute, second, nsec, fractional) \<Rightarrow>
            (case parseRMCDate (fs ! 9) of
               Inl e \<Rightarrow> Inl e
             | Inr (day, month, year) \<Rightarrow>
                 if fs ! 2 \<noteq> ''A'' \<and> fs ! 2 \<noteq> ''V'' then Inl (BadStatus (fs ! 2))
                 else Inr (zero_sentence\<lparr>ns_Kind := ''RMC'',
                        ns_Timestamp := clock_time year month day hour minute second nsec,
                        ns_Valid := (fs ! 2 = ''A''), ns_Fractional := fractional\<rparr>)))"

definition parse_ZDA :: "string list \<Rightarrow> nmea_error + nmeaSentence" where
  "parse_ZDA fs =
     (if length fs < 5 then Inl (Truncated ''ZDA'')
      else case parseNMEAClock (fs ! 1) of
          Inl e \<Rightarrow> Inl (BadClock ''ZDA'' e)
        | Inr (hour, minute, second, nsec, fractional) \<Rightarrow>
            (case parseRange (fs ! 2) 1 31 ''ZDA day'' of
               Inl e \<Rightarrow> Inl e
             | Inr day \<Rightarrow>
                 (case parseRange (fs ! 3) 1 12 ''ZDA month'' of
                    Inl e \<Rightarrow> Inl e
                  | Inr month \<Rightarrow>
                      (case parseRange (fs ! 4) 2000 9999 ''ZDA year'' of
                         Inl e \<Rightarrow> Inl e
                       | Inr year \<Rightarrow>
                           (let stamp = clock_time year month day hour minute second nsec
                            in if \<not> is_date stamp year month day then Inl (NotCalendar ''ZDA'')
                               else Inr (zero_sentence\<lparr>ns_Kind := ''ZDA'', ns_Timestamp := stamp, ns_Valid := True,
                                      ns_Fractional := fractional\<rparr>))))))"

definition parse_GGA :: "string list \<Rightarrow> nmea_error + nmeaSentence" where
  "parse_GGA fs =
     (if length fs < 8 then Inl (Truncated ''GGA'')
      else case parseRange (fs ! 6) 0 8 ''GGA fix quality'' of
          Inl e \<Rightarrow> Inl e
        | Inr quality \<Rightarrow>
            (case parseRange (fs ! 7) 0 99 ''GGA satellites'' of
               Inl e \<Rightarrow> Inl e
             | Inr satellites \<Rightarrow>
                 Inr (zero_sentence\<lparr>ns_Kind := ''GGA'', ns_Valid := quality > 0, ns_FixQuality := quality,
                   ns_Satellites := satellites\<rparr>)))"

definition parse_fields :: "string list \<Rightarrow> nmea_error + nmeaSentence" where
  "parse_fields fs =
     (if length fs = 0 \<or> length (fs ! 0) \<noteq> 5 then Inl BadIdentifier
      else (let talker = slice 0 2 (fs ! 0); kind = drop 2 (fs ! 0)
            in if talker \<notin> {''GP'', ''GN'', ''GL'', ''GA'', ''BD''} then Inl (BadTalker talker)
               else if kind = ''RMC'' then parse_RMC fs
               else if kind = ''ZDA'' then parse_ZDA fs
               else if kind = ''GGA'' then parse_GGA fs
               else Inl (UnsupportedSentence kind)))"

definition parseNMEA :: "string \<Rightarrow> nmea_error + nmeaSentence" where
  "parseNMEA raw =
     (let line = strings_TrimSpace raw
      in if length line = 0 \<or> length line > maxNMEALine then Inl BadLength
         else if line ! 0 \<noteq> CHR ''$'' then Inl NoDollar
         else case last_index line CHR ''*'' of
             None \<Rightarrow> Inl NoChecksum
           | Some star \<Rightarrow>
               if star + 3 \<noteq> length line then Inl NoChecksum
               else case parse_uint 16 8 (drop (star + 1) line) of
                   None \<Rightarrow> Inl BadChecksum
                 | Some want \<Rightarrow>
                     (let got = nmea_checksum (slice 1 star line)
                      in if got \<noteq> of_nat want then Inl (ChecksumMismatch got want)
                         else parse_fields (strings_Split (slice 1 star line) CHR '','')))"

section \<open>Dates\<close>

text \<open>A day past the end of its month is a day of the next one, so the comparison of the date with the day, month and
  year it was made from rejects exactly the dates that are not in the calendar.\<close>

lemma days_in_month_31: "1 \<le> m \<Longrightarrow> m \<le> 12 \<Longrightarrow> days_in_month y m \<le> 31" "1 \<le> m \<Longrightarrow> m \<le> 12 \<Longrightarrow> 28 \<le> days_in_month y m"
  by (cases m rule: month_cases; simp add: days_in_month_def)+

lemma overflowing_day:
  assumes "1 \<le> m" "m \<le> 12" "days_in_month y m < d" "d \<le> 31"
  shows "valid_date y (m + 1) (d - days_in_month y m)"
    "time_of_date y m d sec nsec = time_of_date y (m + 1) (d - days_in_month y m) sec nsec"
proof -
  have m: "m \<in> {2, 4, 6, 9, 11}"
    using assms(1,2) by (cases m rule: month_cases) (use assms(3,4) in \<open>simp_all add: days_in_month_def\<close>)
  show "valid_date y (m + 1) (d - days_in_month y m)"
    using m assms(3,4) by (auto simp: valid_date_def days_in_month_def)
  have "day_number y m d = day_number y (m + 1) (d - days_in_month y m)"
    using m by (auto simp: day_number_def year_day_def days_before_month_def days_in_month_def)
  then show "time_of_date y m d sec nsec = time_of_date y (m + 1) (d - days_in_month y m) sec nsec"
    by (simp add: time_of_date_def)
qed

lemma is_date_valid:
  assumes "1 \<le> month" "month \<le> 12" "1 \<le> day" "day \<le> 31" "0 \<le> sec" "sec < 86400" "0 \<le> nsec" "nsec < second_ns"
  shows "is_date (time_of_date year (nat month) day sec nsec) year month day \<longleftrightarrow> valid_date year (nat month) day"
proof
  assume d: "is_date (time_of_date year (nat month) day sec nsec) year month day"
  have m: "1 \<le> nat month" "nat month \<le> 12" using assms by auto
  show "valid_date year (nat month) day"
  proof (rule ccontr)
    assume "\<not> valid_date year (nat month) day"
    then have over: "days_in_month year (nat month) < day" using m assms(3) by (simp add: valid_date_def)
    note o = overflowing_day [OF m over assms(4)]
    from d show False
      unfolding is_date_def o(2) time_date_of_date(1) [OF o(1) assms(5-8)] by simp
  qed
next
  assume "valid_date year (nat month) day"
  from time_date_of_date(1) [OF this assms(5-8)]
  show "is_date (time_of_date year (nat month) day sec nsec) year month day" unfolding is_date_def .
qed

section \<open>Fields\<close>

definition all_digits :: "string \<Rightarrow> bool" where
  "all_digits s \<longleftrightarrow> (\<forall>c \<in> set s. 48 \<le> char_code c \<and> char_code c \<le> 57)"

definition dec_value :: "string \<Rightarrow> nat" where
  \<comment> \<open>a decimal number, most significant digit first\<close>
  "dec_value s = foldl (\<lambda>n c. 10 * n + (char_code c - 48)) 0 s"

lemma dec_value_from: "foldl (\<lambda>n c. 10 * n + (char_code c - 48)) a s = a * 10 ^ length s + dec_value s"
  unfolding dec_value_def
proof (induction s arbitrary: a)
  case (Cons c s)
  obtain d where d: "char_code c - 48 = d" by simp
  show ?case using Cons [of "10 * a + d"] Cons [of d] by (simp add: d add_mult_distrib)
qed simp

lemma dec_value_append: "dec_value (a @ b) = dec_value a * 10 ^ length b + dec_value b"
  using dec_value_from [of "dec_value a" b] by (simp add: dec_value_def)

lemma dec_value_zeros [simp]: "dec_value (replicate k CHR ''0'') = 0"
  by (induction k) (simp_all add: dec_value_def char_code_def)

lemma dec_value_bound: "all_digits s \<Longrightarrow> dec_value s < 10 ^ length s"
proof (induction s rule: rev_induct)
  case (snoc c s)
  have "dec_value s + 1 \<le> 10 ^ length s" "char_code c - 48 \<le> 9" using snoc by (auto simp: all_digits_def)
  then have "10 * dec_value s + (char_code c - 48) < 10 * 10 ^ length s" by linarith
  then show ?case by (simp add: dec_value_def)
qed (simp add: dec_value_def)

lemma digits_val_dec: "all_digits s \<Longrightarrow> digits_val 10 a s = Some (a * 10 ^ length s + dec_value s)"
proof (induction s arbitrary: a)
  case (Cons c s)
  obtain d where d: "char_code c - 48 = d" by simp
  have c: "digit_val c = Some d" "d < 10" using Cons.prems d by (auto simp: all_digits_def digit_val_def Let_def)
  have "dec_value (c # s) = d * 10 ^ length s + dec_value s" using dec_value_append [of "[c]" s] by (simp add: dec_value_def d)
  then show ?case using Cons.IH [of "a * 10 + d"] Cons.prems c by (simp add: all_digits_def add_mult_distrib)
qed (simp add: dec_value_def)

lemma parseDigits_value:
  assumes "parseDigits raw = Some n"
  shows "all_digits raw" "n = int (dec_value raw)"
proof -
  have a: "strconv_Atoi raw = Some n" using assms by (simp add: parseDigits_def split: if_splits)
  show d: "all_digits raw" using assms by (simp add: parseDigits_def all_digits_def list_all_iff split: if_splits)
  have "\<not> has_prefix ''-'' raw" "\<not> has_prefix ''+'' raw"
    using d by (cases raw; auto simp: all_digits_def has_prefix_def char_code_def)+
  then show "n = int (dec_value raw)"
    using a digits_val_dec [OF d, of 0] by (simp add: strconv_Atoi_def Let_def split: if_splits)
qed

text \<open>Cut or filled to nine digits, a decimal fraction is its value in nanoseconds, rounded down.\<close>

lemma pad_fraction_value:
  assumes "all_digits f"
  shows "dec_value (pad_fraction f) = dec_value f * 10 ^ 9 div 10 ^ length f"
proof (cases "length f \<le> 9")
  case True
  have "dec_value f * 10 ^ 9 = (dec_value f * 10 ^ (9 - length f)) * 10 ^ length f"
    using True by (simp only: mult.assoc power_add [symmetric] le_add_diff_inverse2)
  then have "dec_value f * 10 ^ 9 div 10 ^ length f = dec_value f * 10 ^ (9 - length f)" by (simp only:) simp
  then show ?thesis using True by (simp add: pad_fraction_def dec_value_append)
next
  case False
  let ?k = "length f - 9"
  have "all_digits (drop 9 f)" using assms by (auto simp: all_digits_def dest: in_set_dropD)
  then have small: "dec_value (drop 9 f) < 10 ^ ?k" using dec_value_bound by fastforce
  have v: "dec_value f = dec_value (take 9 f) * 10 ^ ?k + dec_value (drop 9 f)"
    using dec_value_append [of "take 9 f" "drop 9 f"] by simp
  have "(10::nat) ^ length f = 10 ^ ?k * 10 ^ 9" using False by (simp only: power_add [symmetric] le_add_diff_inverse2 nat_le_linear)
  then have "dec_value f * 10 ^ 9 div 10 ^ length f = dec_value f div 10 ^ ?k" by (simp only:) simp
  also have "\<dots> = dec_value (take 9 f)" unfolding v using small by simp
  finally show ?thesis using False by (simp add: pad_fraction_def)
qed

definition names_time :: "string \<Rightarrow> int \<Rightarrow> int \<Rightarrow> bool" where
  \<comment> \<open>a text is six digits hhmmss, with at most hour 23, minute 59 and second 59, and an optional decimal fraction: the second of
     the day and the nanosecond it names\<close>
  "names_time raw sec nsec \<longleftrightarrow>
     (let (whole, fr) = strings_Cut raw CHR ''.'';
          hour = dec_value (take 2 whole); minute = dec_value (take 2 (drop 2 whole)); second = dec_value (drop 4 whole)
      in length whole = 6 \<and> all_digits whole \<and> all_digits fr \<and> hour \<le> 23 \<and> minute \<le> 59 \<and> second \<le> 59 \<and>
         sec = int (hour * 3600 + minute * 60 + second) \<and> nsec = int (dec_value fr * 10 ^ 9 div 10 ^ length fr))"

lemma all_digits_append: "all_digits (a @ b) \<longleftrightarrow> all_digits a \<and> all_digits b"
  by (auto simp: all_digits_def)

lemma parseNMEAClock_names:
  assumes "parseNMEAClock raw = Inr (hour, minute, second, nsec, fractional)"
  shows "names_time raw (hour * 3600 + minute * 60 + second) nsec" "fractional = (nsec \<noteq> 0)"
proof -
  obtain whole fr where cut: "strings_Cut raw CHR ''.'' = (whole, fr)" by (cases "strings_Cut raw CHR ''.''")
  have p: "length whole = 6" "parseDigits (slice 0 2 whole) = Some hour" "hour \<le> 23" "parseDigits (slice 2 4 whole) = Some minute"
    "minute \<le> 59" "parseDigits (slice 4 6 whole) = Some second" "second \<le> 60" "second \<noteq> 60"
    "fr = [] \<and> nsec = 0 \<or> parseDigits fr \<noteq> None \<and> parseDigits (pad_fraction fr) = Some nsec" "fractional = (nsec \<noteq> 0)"
    using assms unfolding parseNMEAClock_def cut by (auto simp: Let_def split: if_splits option.splits)
  have parts: "slice 0 2 whole = take 2 whole" "slice 2 4 whole = take 2 (drop 2 whole)" "slice 4 6 whole = drop 4 whole"
    using p(1) by (simp_all add: slice_def)
  have "whole = take 2 whole @ take 2 (drop 2 whole) @ drop 4 whole"
    by (metis append_take_drop_id drop_drop numeral_Bit0)
  then have "all_digits whole"
    using parseDigits_value(1) [OF p(2)] parseDigits_value(1) [OF p(4)] parseDigits_value(1) [OF p(6)]
    unfolding parts by (metis all_digits_append)
  moreover have "all_digits fr" "nsec = int (dec_value fr * 10 ^ 9 div 10 ^ length fr)"
    using p(9) parseDigits_value [of "pad_fraction fr" nsec] parseDigits_value(1) [of fr] pad_fraction_value [of fr]
    by (auto simp: all_digits_def dec_value_def)
  ultimately show "names_time raw (hour * 3600 + minute * 60 + second) nsec"
    using p(1,3,5,7,8) parseDigits_value(2) [OF p(2)] parseDigits_value(2) [OF p(4)] parseDigits_value(2) [OF p(6)]
    unfolding names_time_def cut parts Let_def by simp
  show "fractional = (nsec \<noteq> 0)" by (rule p(10))
qed

lemma names_time_range:
  assumes "names_time raw sec nsec"
  shows "0 \<le> sec" "sec < 86400" "0 \<le> nsec" "nsec < second_ns"
proof -
  obtain whole fr where cut: "strings_Cut raw CHR ''.'' = (whole, fr)" by (cases "strings_Cut raw CHR ''.''")
  note n = assms [unfolded names_time_def cut Let_def prod.case]
  then show "0 \<le> sec" "sec < 86400" "0 \<le> nsec" by auto
  have "dec_value fr < 10 ^ length fr" using n dec_value_bound by blast
  then have "dec_value fr * 10 ^ 9 div 10 ^ length fr < 10 ^ 9" by (simp add: less_mult_imp_div_less mult.commute)
  then show "nsec < second_ns" using n by auto
qed

lemma parseRange_eq: "parseRange raw low high field = Inr n \<longleftrightarrow> strconv_Atoi raw = Some n \<and> low \<le> n \<and> n \<le> high"
  by (auto simp: parseRange_def split: option.splits if_splits)

definition date_texts :: "string \<Rightarrow> string list \<Rightarrow> string \<times> string \<times> string \<times> int" where
  \<comment> \<open>the texts of day, month and year in a sentence, and the year the last of them counts from\<close>
  "date_texts kind fs =
     (if kind = ''RMC'' then (slice 0 2 (fs ! 9), slice 2 4 (fs ! 9), drop 4 (fs ! 9), 2000) else (fs ! 2, fs ! 3, fs ! 4, 0))"

definition sentence_time :: "string \<Rightarrow> string list \<Rightarrow> gtime \<Rightarrow> bool" where
  \<comment> \<open>an instant is the one the date and time fields of a sentence name\<close>
  "sentence_time kind fs t \<longleftrightarrow>
     names_time (fs ! 1) (time_clock t) (time_nanosecond t) \<and>
     (let (dd, mm, yy, base) = date_texts kind fs
      in case (strconv_Atoi dd, strconv_Atoi mm, strconv_Atoi yy) of
           (Some day, Some month, Some year) \<Rightarrow>
             valid_date (base + year) (nat month) day \<and> time_date t = (base + year, nat month, day) \<and> 2000 \<le> base + year
         | _ \<Rightarrow> False)"

lemma time_nanosecond_of_unix: "0 \<le> nsec \<Longrightarrow> nsec < second_ns \<Longrightarrow> time_nanosecond (time_of_unix sec nsec) = nsec"
  by (simp add: time_nanosecond_def time_of_unix_def)

lemma sentence_timeI:
  assumes "parseNMEAClock (fs ! 1) = Inr (hour, minute, second, nsec, fractional)"
    and "date_texts kind fs = (dd, mm, yy, base)" "strconv_Atoi dd = Some day" "strconv_Atoi mm = Some month"
    and "strconv_Atoi yy = Some y" "1 \<le> day" "day \<le> 31" "1 \<le> month" "month \<le> 12" "2000 \<le> base + y"
    and "valid_date (base + y) (nat month) day"
  shows "sentence_time kind fs (clock_time (base + y) month day hour minute second nsec)"
proof -
  note t = parseNMEAClock_names(1) [OF assms(1)]
  note r = names_time_range [OF t]
  note d = time_date_of_date [OF assms(11) r]
  have "time_nanosecond (clock_time (base + y) month day hour minute second nsec) = nsec"
    unfolding clock_time_def time_of_date_def by (rule time_nanosecond_of_unix [OF r(3,4)])
  with t d assms show ?thesis by (simp add: sentence_time_def clock_time_def)
qed

lemma clock_time_is_date:
  assumes "parseNMEAClock raw = Inr (hour, minute, second, nsec, fractional)" "1 \<le> day" "day \<le> 31" "1 \<le> month" "month \<le> 12"
  shows "is_date (clock_time year month day hour minute second nsec) year month day \<longleftrightarrow> valid_date year (nat month) day"
  unfolding clock_time_def using assms by (intro is_date_valid names_time_range [OF parseNMEAClock_names(1) [OF assms(1)]])

lemma parseRMCDate_cases:
  assumes "parseRMCDate raw = Inr (day, month, year)"
  shows "strconv_Atoi (slice 0 2 raw) = Some day" "strconv_Atoi (slice 2 4 raw) = Some month" "1 \<le> day" "day \<le> 31" "1 \<le> month"
    "month \<le> 12" "\<exists>yy. strconv_Atoi (drop 4 raw) = Some yy \<and> 0 \<le> yy \<and> year = 2000 + yy" "valid_date year (nat month) day"
proof -
  have all: "strconv_Atoi (slice 0 2 raw) = Some day \<and> strconv_Atoi (slice 2 4 raw) = Some month \<and> 1 \<le> day \<and> day \<le> 31 \<and>
      1 \<le> month \<and> month \<le> 12 \<and> (\<exists>yy. strconv_Atoi (drop 4 raw) = Some yy \<and> 0 \<le> yy \<and> year = 2000 + yy) \<and>
      is_date (clock_time year month day 0 0 0 0) year month day"
    using assms unfolding parseRMCDate_def
    by (auto simp: Let_def parseRange_eq split: if_splits sum.splits)
  then show "strconv_Atoi (slice 0 2 raw) = Some day" "strconv_Atoi (slice 2 4 raw) = Some month" "1 \<le> day" "day \<le> 31" "1 \<le> month"
    "month \<le> 12" "\<exists>yy. strconv_Atoi (drop 4 raw) = Some yy \<and> 0 \<le> yy \<and> year = 2000 + yy" by blast+
  show "valid_date year (nat month) day" using all is_date_valid [of month day 0 0 year] by (simp add: clock_time_def)
qed

lemma parse_RMC_time:
  assumes "parse_RMC fs = Inr s"
  shows "ns_Kind s = ''RMC'' \<and> sentence_time ''RMC'' fs (ns_Timestamp s) \<and> (ns_Valid s \<longleftrightarrow> fs ! 2 = ''A'')"
proof -
  obtain hour minute second nsec fractional day month year where
    clock: "parseNMEAClock (fs ! 1) = Inr (hour, minute, second, nsec, fractional)"
    and date: "parseRMCDate (fs ! 9) = Inr (day, month, year)"
    and s: "s = zero_sentence\<lparr>ns_Kind := ''RMC'', ns_Timestamp := clock_time year month day hour minute second nsec,
                        ns_Valid := (fs ! 2 = ''A''), ns_Fractional := fractional\<rparr>"
    using assms unfolding parse_RMC_def by (auto split: if_splits sum.splits prod.splits)
  note d = parseRMCDate_cases [OF date]
  from d(7) obtain yy where yy: "strconv_Atoi (drop 4 (fs ! 9)) = Some yy" "0 \<le> yy" "year = 2000 + yy" by blast
  have "sentence_time ''RMC'' fs (clock_time (2000 + yy) month day hour minute second nsec)"
    using d yy by (intro sentence_timeI [OF clock]) (simp_all add: date_texts_def)
  then show ?thesis unfolding s using yy(3) by simp
qed

lemma parse_ZDA_time:
  assumes "parse_ZDA fs = Inr s"
  shows "ns_Kind s = ''ZDA'' \<and> sentence_time ''ZDA'' fs (ns_Timestamp s) \<and> ns_Valid s"
proof -
  obtain hour minute second nsec fractional day month year where
    clock: "parseNMEAClock (fs ! 1) = Inr (hour, minute, second, nsec, fractional)"
    and f: "parseRange (fs ! 2) 1 31 ''ZDA day'' = Inr day" "parseRange (fs ! 3) 1 12 ''ZDA month'' = Inr month"
      "parseRange (fs ! 4) 2000 9999 ''ZDA year'' = Inr year"
    and date: "is_date (clock_time year month day hour minute second nsec) year month day"
    and s: "s = zero_sentence\<lparr>ns_Kind := ''ZDA'', ns_Timestamp := clock_time year month day hour minute second nsec,
                        ns_Valid := True, ns_Fractional := fractional\<rparr>"
    using assms unfolding parse_ZDA_def by (auto simp: Let_def split: if_splits sum.splits prod.splits)
  note f = f [unfolded parseRange_eq]
  have "valid_date year (nat month) day" using date clock_time_is_date [OF clock] f by simp
  then have "sentence_time ''ZDA'' fs (clock_time (0 + year) month day hour minute second nsec)"
    using f by (intro sentence_timeI [OF clock, of "''ZDA''" "fs ! 2" "fs ! 3" "fs ! 4"]) (simp_all add: date_texts_def)
  then show ?thesis unfolding s by simp
qed

lemma parse_GGA_fix:
  "parse_GGA fs = Inr s \<Longrightarrow>
    ns_Kind s = ''GGA'' \<and> ns_Timestamp s = zero_time \<and> strconv_Atoi (fs ! 6) = Some (ns_FixQuality s) \<and>
    strconv_Atoi (fs ! 7) = Some (ns_Satellites s) \<and> 0 \<le> ns_FixQuality s \<and> (ns_Valid s \<longleftrightarrow> 0 < ns_FixQuality s)"
  unfolding parse_GGA_def by (auto simp: zero_sentence_def parseRange_eq split: if_splits sum.splits)

definition sentence_fields :: "string list \<Rightarrow> nmeaSentence \<Rightarrow> bool" where
  \<comment> \<open>what a sentence says is what its fields say\<close>
  "sentence_fields fs s \<longleftrightarrow>
     (if ns_Kind s = ''GGA'' then
        ns_Timestamp s = zero_time \<and> strconv_Atoi (fs ! 6) = Some (ns_FixQuality s) \<and>
        strconv_Atoi (fs ! 7) = Some (ns_Satellites s) \<and> (ns_Valid s \<longleftrightarrow> 0 < ns_FixQuality s)
      else sentence_time (ns_Kind s) fs (ns_Timestamp s) \<and>
        (ns_Valid s \<longleftrightarrow> ns_Kind s = ''ZDA'' \<or> fs ! 2 = ''A''))"

lemma parse_fields_sound:
  assumes "parse_fields fs = Inr s"
  shows "ns_Kind s \<in> {''RMC'', ''ZDA'', ''GGA''}" "drop 2 (fs ! 0) = ns_Kind s" "sentence_fields fs s"
proof -
  let ?k = "drop 2 (fs ! 0)"
  consider "?k = ''RMC''" "parse_RMC fs = Inr s" | "?k = ''ZDA''" "parse_ZDA fs = Inr s" | "?k = ''GGA''" "parse_GGA fs = Inr s"
    using assms by (auto simp: parse_fields_def Let_def split: if_splits)
  then have "ns_Kind s \<in> {''RMC'', ''ZDA'', ''GGA''} \<and> ?k = ns_Kind s \<and> sentence_fields fs s"
    by cases (auto dest!: parse_RMC_time parse_ZDA_time parse_GGA_fix simp: sentence_fields_def)
  then show "ns_Kind s \<in> {''RMC'', ''ZDA'', ''GGA''}" "drop 2 (fs ! 0) = ns_Kind s" "sentence_fields fs s" by blast+
qed

section \<open>Framing and checksum\<close>

lemma takeWhile_rev: "c \<notin> set b \<Longrightarrow> takeWhile (\<lambda>x. x \<noteq> c) (rev (a @ c # b)) = rev b"
  by (induction b rule: rev_induct) auto

lemma last_index_split:
  assumes "last_index s c = Some i"
  shows "i < length s" "s = take i s @ c # drop (i + 1) s" "c \<notin> set (drop (i + 1) s)"
proof -
  have c: "c \<in> set s" and i: "i = length s - 1 - length (takeWhile (\<lambda>x. x \<noteq> c) (rev s))"
    using assms by (auto simp: last_index_def split: if_splits)
  obtain a b where s: "s = a @ c # b" and b: "c \<notin> set b" using split_list_last [OF c] by blast
  have "takeWhile (\<lambda>x. x \<noteq> c) (rev s) = rev b" unfolding s by (rule takeWhile_rev [OF b])
  then have "i = length a" unfolding i by (simp add: s)
  then show "i < length s" "s = take i s @ c # drop (i + 1) s" "c \<notin> set (drop (i + 1) s)" using s b by simp_all
qed

lemma last_index_append:
  "c \<notin> set b \<Longrightarrow> last_index (a @ c # b) c = Some (length a)"
  unfolding last_index_def by (simp add: takeWhile_rev [simplified])

lemma checksum_from: "foldl (\<lambda>got c. got XOR of_nat (char_code c)) x s = x XOR nmea_checksum s"
  unfolding nmea_checksum_def
proof (induction s arbitrary: x)
  case (Cons c s)
  show ?case by (simp add: Cons [of "x XOR of_nat (char_code c)"] Cons [of "of_nat (char_code c)"] xor.assoc)
qed simp

lemma checksum_append: "nmea_checksum (a @ c # b) = (nmea_checksum a XOR of_nat (char_code c)) XOR nmea_checksum b"
  using checksum_from [of "nmea_checksum a XOR of_nat (char_code c)" b] by (simp add: nmea_checksum_def)

lemma xor_right_cancel: "x XOR z = y XOR z \<Longrightarrow> x = y" for x y z :: byte
proof -
  assume "x XOR z = y XOR z"
  then have "(x XOR z) XOR z = (y XOR z) XOR z" by (rule arg_cong)
  then show "x = y" by (simp add: xor.assoc)
qed

lemma checksum_changes:
  assumes "c \<noteq> d"
  shows "nmea_checksum (a @ c # b) \<noteq> nmea_checksum (a @ d # b)"
proof
  assume "nmea_checksum (a @ c # b) = nmea_checksum (a @ d # b)"
  then have "nmea_checksum a XOR of_nat (char_code c) = nmea_checksum a XOR of_nat (char_code d)"
    unfolding checksum_append by (rule xor_right_cancel)
  then have "(of_nat (char_code c) :: byte) = of_nat (char_code d)"
    unfolding xor.commute [of "nmea_checksum a"] by (rule xor_right_cancel)
  then have "unat (of_nat (char_code c) :: byte) = unat (of_nat (char_code d) :: byte)" by simp
  moreover have "char_code c < 256" "char_code d < 256" by (simp_all add: char_code_def)
  ultimately have "char_code c = char_code d" by (simp add: unat_of_nat)
  then show False using assms by (simp add: char_code_def)
qed

lemma hex_text_not_space:
  assumes "parse_uint 16 8 ck = Some n"
  shows "ck \<noteq> []" "\<forall>c\<in>set ck. char_code c < 128 \<and> \<not> ascii_space c \<and> c \<noteq> CHR ''*''"
proof -
  have ne: "ck \<noteq> []" and d: "digits_val 16 0 ck \<noteq> None"
    using assms by (auto simp: parse_uint_def split: if_splits option.splits)
  have one: "char_code c < 128 \<and> \<not> ascii_space c \<and> c \<noteq> CHR ''*''" if "digit_val c \<noteq> None" for c
    using that by (auto simp: digit_val_def ascii_space_def char_code_def Let_def split: if_splits)
  have "\<forall>c\<in>set ck. digit_val c \<noteq> None" if "digits_val b acc ck \<noteq> None" for b acc
    using that by (induction ck arbitrary: acc) (auto split: option.splits if_splits)
  from this [OF d] one show "\<forall>c\<in>set ck. char_code c < 128 \<and> \<not> ascii_space c \<and> c \<noteq> CHR ''*''" by blast
  show "ck \<noteq> []" by (rule ne)
qed

lemma trim_left_stays:
  assumes "\<not> ascii_space c" "\<forall>w\<in>set wide. w \<noteq> [] \<and> 128 \<le> char_code (hd w)" "char_code c < 128"
  shows "trim_left wide (c # s) = c # s"
proof -
  have "List.find (\<lambda>w. has_prefix w (c # s)) wide = None"
  proof (rule find_None_iff [THEN iffD2], rule notI)
    assume "\<exists>w. w \<in> set wide \<and> has_prefix w (c # s)"
    then obtain w where w: "w \<in> set wide" "has_prefix w (c # s)" by blast
    then have "w \<noteq> []" "128 \<le> char_code (hd w)" using assms(2) by blast+
    then have "hd w = c" using w(2) by (cases w) (simp_all add: has_prefix_def)
    then show False using assms(3) \<open>128 \<le> char_code (hd w)\<close> by simp
  qed
  then have "space_len wide (c # s) = 0" using assms(1) by (simp add: space_len_def)
  then show ?thesis by (simp add: trim_left.simps)
qed

lemma TrimSpace_stays:
  assumes "\<not> ascii_space c" "char_code c < 128" "\<not> ascii_space d" "char_code d < 128"
  shows "strings_TrimSpace (c # s @ [d]) = c # s @ [d]"
proof -
  have "trim_left wide_spaces (c # s @ [d]) = c # s @ [d]"
    by (rule trim_left_stays [OF assms(1) _ assms(2)]) (simp add: wide_spaces_def char_code_def)
  moreover have "trim_left (map rev wide_spaces) (d # rev s @ [c]) = d # rev s @ [c]"
    by (rule trim_left_stays [OF assms(3) _ assms(4)]) (simp add: wide_spaces_def char_code_def)
  ultimately show ?thesis by (simp add: strings_TrimSpace_def)
qed

definition sentence_text :: "string \<Rightarrow> string \<Rightarrow> string" where
  \<comment> \<open>a sentence from its body and the two digits of its checksum\<close>
  "sentence_text body ck = CHR ''$'' # body @ CHR ''*'' # ck"

lemma sentence_text_trimmed:
  assumes "parse_uint 16 8 ck = Some want"
  shows "strings_TrimSpace (sentence_text body ck) = sentence_text body ck"
proof -
  note h = hex_text_not_space [OF assms]
  have l: "last ck \<in> set ck" using h(1) by simp
  have "sentence_text body ck = CHR ''$'' # (body @ CHR ''*'' # butlast ck) @ [last ck]" using h(1) by (simp add: sentence_text_def)
  moreover have "\<not> ascii_space CHR ''$''" "char_code CHR ''$'' < 128" by (simp_all add: ascii_space_def char_code_def)
  ultimately show ?thesis using TrimSpace_stays [of "CHR ''$''" "last ck" "body @ CHR ''*'' # butlast ck"] h(2) l by simp
qed

lemma parseNMEA_framed:
  assumes "length ck = 2" "parse_uint 16 8 ck = Some want" "length body \<le> maxNMEALine - 4"
  shows "parseNMEA (sentence_text body ck) =
    (if nmea_checksum body \<noteq> of_nat want then Inl (ChecksumMismatch (nmea_checksum body) want)
     else parse_fields (strings_Split body CHR '',''))"
proof -
  let ?line = "sentence_text body ck"
  have "CHR ''*'' \<notin> set ck" using hex_text_not_space(2) [OF assms(2)] by blast
  from last_index_append [OF this, of "CHR ''$'' # body"]
  have star: "last_index ?line CHR ''*'' = Some (Suc (length body))" by (simp add: sentence_text_def)
  have len: "length ?line = length body + 4" using assms(1) by (simp add: sentence_text_def)
  have rest: "drop (Suc (length body) + 1) ?line = ck" "slice 1 (Suc (length body)) ?line = body" "?line ! 0 = CHR ''$''"
    by (simp_all add: sentence_text_def slice_def)
  show ?thesis
    unfolding parseNMEA_def sentence_text_trimmed [OF assms(2)] Let_def star option.case rest assms(2) len
    using assms(3) by simp
qed

lemma parseNMEA_framing:
  assumes "parseNMEA raw = Inr s"
  obtains body ck where "strings_TrimSpace raw = sentence_text body ck" "length ck = 2" "length body \<le> maxNMEALine - 4"
    "parse_uint 16 8 ck = Some (unat (nmea_checksum body))" "parse_fields (strings_Split body CHR '','') = Inr s"
proof -
  let ?line = "strings_TrimSpace raw"
  obtain star want where l: "?line \<noteq> []" "length ?line \<le> maxNMEALine" "?line ! 0 = CHR ''$''"
      "last_index ?line CHR ''*'' = Some star" "star + 3 = length ?line"
      "parse_uint 16 8 (drop (star + 1) ?line) = Some want" "nmea_checksum (slice 1 star ?line) = of_nat want"
      "parse_fields (strings_Split (slice 1 star ?line) CHR '','') = Inr s"
    using assms unfolding parseNMEA_def by (auto simp: Let_def split: if_splits option.splits)
  note i = last_index_split [OF l(4)]
  have "star \<noteq> 0"
  proof
    assume "star = 0"
    with i(2) have "?line = CHR ''*'' # drop 1 ?line" by simp
    then have "?line ! 0 = CHR ''*''" by (metis nth_Cons_0)
    with l(3) show False by simp
  qed
  then obtain k where k: "star = Suc k" by (cases star) auto
  have "take star ?line = CHR ''$'' # slice 1 star ?line"
    using l(1,3) k by (cases ?line) (simp_all add: slice_def)
  with i(2) have line: "?line = sentence_text (slice 1 star ?line) (drop (star + 1) ?line)"
    by (simp add: sentence_text_def)
  have "want < 2 ^ 8" by (rule parse_uint_bound [OF l(6)])
  then have "unat (of_nat want :: byte) = want" by (simp add: unat_of_nat)
  with l(6,7) have "parse_uint 16 8 (drop (star + 1) ?line) = Some (unat (nmea_checksum (slice 1 star ?line)))" by simp
  then show thesis using that [OF line] l k by simp
qed

lemma accepted_checksum:
  assumes "parseNMEA (sentence_text body ck) = Inr s" "length ck = 2" "parse_uint 16 8 ck = Some want"
  shows "nmea_checksum body = of_nat want" "length body \<le> maxNMEALine - 4"
proof -
  have "length (sentence_text body ck) \<le> maxNMEALine"
    using assms(1) unfolding parseNMEA_def sentence_text_trimmed [OF assms(3)] by (auto simp: Let_def split: if_splits)
  then show len: "length body \<le> maxNMEALine - 4" using assms(2) by (simp add: sentence_text_def)
  show "nmea_checksum body = of_nat want"
    using assms(1) unfolding parseNMEA_framed [OF assms(2,3) len] by (auto split: if_splits)
qed

section \<open>What the parser guarantees\<close>

text \<open>C27: whatever \<^verbatim>\<open>parseNMEA\<close> accepts is, between white space, a sentence of at most 1024 bytes of the form
  \<open>$body*ck\<close> whose two hexadecimal digits are the exclusive or of the bytes of the body. An RMC or ZDA sentence gives
  exactly the instant its fields name: the date fields are a date of the calendar from the year 2000 on, the instant has
  that civil date, and the time field is six digits hhmmss, the second at most 59, with an optional fraction, whose value is the time
  of day of the instant, rounded down to nanoseconds;
  an RMC sentence is valid exactly when its status is A. A GGA sentence carries no time, the fix quality and the number
  of satellites of its fields, and is valid exactly when it has a fix.\<close>
theorem parseNMEA_sound:
  assumes "parseNMEA raw = Inr s"
  shows "\<exists>body ck. strings_TrimSpace raw = sentence_text body ck \<and> length ck = 2 \<and> length (sentence_text body ck) \<le> 1024 \<and>
    parse_uint 16 8 ck = Some (unat (nmea_checksum body)) \<and> ns_Kind s \<in> {''RMC'', ''ZDA'', ''GGA''} \<and>
    drop 2 (strings_Split body CHR '','' ! 0) = ns_Kind s \<and> sentence_fields (strings_Split body CHR '','') s"
proof -
  obtain body ck where f: "strings_TrimSpace raw = sentence_text body ck" "length ck = 2" "length body \<le> maxNMEALine - 4"
    "parse_uint 16 8 ck = Some (unat (nmea_checksum body))" "parse_fields (strings_Split body CHR '','') = Inr s"
    by (rule parseNMEA_framing [OF assms])
  have "length (sentence_text body ck) \<le> 1024" using f(2,3) by (simp add: sentence_text_def)
  with f parse_fields_sound [OF f(5)] show ?thesis by blast
qed

definition sample_body :: string where
  "sample_body = ''GPZDA,201530.50,04,07,2002,00,00''"

definition sample_fields :: "string list" where
  "sample_fields = [''GPZDA'', ''201530.50'', ''04'', ''07'', ''2002'', ''00'', ''00'']"

lemma sample_split: "strings_Split sample_body CHR '','' = sample_fields"
  by (simp add: sample_body_def sample_fields_def strings_Split.simps)

lemma sample_checksum: "nmea_checksum sample_body = 0x65"
  by (simp add: sample_body_def nmea_checksum_def char_code_def)

lemma replicate_7: "replicate 7 c = [c, c, c, c, c, c, c]"
  by (simp add: numeral_eq_Suc)

lemma sample_clock: "parseNMEAClock ''201530.50'' = Inr (20, 15, 30, 500000000, True)"
  by (simp add: parseNMEAClock_def strings_Cut_def parseDigits_def slice_def pad_fraction_def strconv_Atoi_def has_prefix_def
      digit_val_def char_code_def replicate_7)

definition sample_sentence :: nmeaSentence where
  "sample_sentence = zero_sentence\<lparr>ns_Kind := ''ZDA'', ns_Timestamp := clock_time 2002 7 4 20 15 30 500000000, ns_Valid := True,
     ns_Fractional := True\<rparr>"

lemma sample_parsed: "parse_fields sample_fields = Inr sample_sentence"
proof -
  have v: "valid_date 2002 7 4" by (simp add: valid_date_def days_in_month_def)
  have r: "parseRange ''04'' 1 31 ''ZDA day'' = Inr 4" "parseRange ''07'' 1 12 ''ZDA month'' = Inr 7"
    "parseRange ''2002'' 2000 9999 ''ZDA year'' = Inr 2002"
    by (simp_all add: parseRange_def strconv_Atoi_def has_prefix_def digit_val_def char_code_def)
  have "is_date (clock_time 2002 7 4 20 15 30 500000000) 2002 7 4" using clock_time_is_date [OF sample_clock] v by simp
  then have "parse_ZDA sample_fields = Inr sample_sentence"
    by (simp add: parse_ZDA_def sample_fields_def sample_clock r sample_sentence_def)
  moreover have "parse_fields sample_fields = parse_ZDA sample_fields"
    by (simp add: parse_fields_def sample_fields_def slice_def)
  ultimately show ?thesis by simp
qed

lemma sample_ck: "parse_uint 16 8 ''65'' = Some 0x65"
  by (simp add: parse_uint_def digit_val_def char_code_def)

lemma sample_accepted: "parseNMEA (sentence_text sample_body ''65'') = Inr sample_sentence"
proof -
  have "length sample_body \<le> maxNMEALine - 4" by (simp add: sample_body_def)
  then show ?thesis using parseNMEA_framed [OF _ sample_ck] sample_checksum sample_split sample_parsed by simp
qed

theorem parseNMEA_sound_witness:
  "parseNMEA (sentence_text sample_body ''65'') = Inr sample_sentence \<and>
   (\<exists>body ck. strings_TrimSpace (sentence_text sample_body ''65'') = sentence_text body ck \<and> length ck = 2 \<and>
    length (sentence_text body ck) \<le> 1024 \<and> parse_uint 16 8 ck = Some (unat (nmea_checksum body)) \<and>
    ns_Kind sample_sentence \<in> {''RMC'', ''ZDA'', ''GGA''} \<and>
    drop 2 (strings_Split body CHR '','' ! 0) = ns_Kind sample_sentence \<and>
    sentence_fields (strings_Split body CHR '','') sample_sentence)"
  using parseNMEA_sound [OF sample_accepted] sample_accepted by blast

text \<open>C28: the checksum detects every corruption of one byte. When a sentence is accepted, the same sentence with any one
  byte of its body replaced by any other, under the same two checksum digits, is refused with a checksum mismatch, so no digit of a time or a date, and no
  separator, can be misread.\<close>
theorem parseNMEA_detects_corruption:
  assumes "parseNMEA (sentence_text body ck) = Inr s" "length ck = 2" "parse_uint 16 8 ck = Some want"
    and "i < length body" "c \<noteq> body ! i"
  shows "\<exists>got. parseNMEA (sentence_text (body[i := c]) ck) = Inl (ChecksumMismatch got want) \<and> unat got \<noteq> want"
proof -
  note a = accepted_checksum [OF assms(1-3)]
  have split: "body = take i body @ body ! i # drop (Suc i) body" by (rule id_take_nth_drop [OF assms(4)])
  have diff: "nmea_checksum (body[i := c]) \<noteq> nmea_checksum body"
    using checksum_changes [OF assms(5), of "take i body" "drop (Suc i) body"] split upd_conv_take_nth_drop [OF assms(4), of c] by simp
  then have ne: "nmea_checksum (body[i := c]) \<noteq> of_nat want" using a(1) by simp
  then have "unat (nmea_checksum (body[i := c])) \<noteq> want" by auto
  then show ?thesis using parseNMEA_framed [OF assms(2,3), of "body[i := c]"] a(2) ne by simp
qed

theorem parseNMEA_detects_corruption_witness:
  "parseNMEA (sentence_text sample_body ''65'') = Inr sample_sentence \<and>
   (\<exists>got. parseNMEA (sentence_text (sample_body[6 := CHR ''1'']) ''65'') = Inl (ChecksumMismatch got 0x65) \<and> unat got \<noteq> 0x65)"
  using parseNMEA_detects_corruption [OF sample_accepted _ sample_ck, of 6 "CHR ''1''"] sample_accepted by (simp add: sample_body_def)

text \<open>The fields of an RMC date are read as signed numbers, so a sign may stand for the first digit of each.\<close>

lemma signed_rmc_date: "parseRMCDate ''+1+1+9'' = Inr (1, 1, 2009)"
proof -
  have v: "valid_date 2009 1 1" by (simp add: valid_date_def days_in_month_def)
  have "is_date (clock_time 2009 1 1 0 0 0 0) 2009 1 1" using is_date_valid [of 1 1 0 0 2009] v by (simp add: clock_time_def)
  then show ?thesis
    by (simp add: parseRMCDate_def parseRange_def slice_def strconv_Atoi_def has_prefix_def digit_val_def char_code_def)
qed

end
