(* ===== verification/Spec2Isabelle.thy ===== *)
theory Spec2Isabelle
  imports System_Correct Client_Correct Interoperation NMEA_Sentence
begin

text \<open>
  Verification of \<^bold>\<open>carillon\<close>, an NTP daemon written in Go.

  \<^bold>\<open>The program.\<close> The daemon polls servers and reads reference clocks (\<^verbatim>\<open>internal/source\<close>,
  \<^verbatim>\<open>internal/refclock\<close>), each source filtering its own samples (\<^verbatim>\<open>internal/discipline/filter.go\<close>)
  and sending measurements to the engine (\<^verbatim>\<open>internal/engine\<close>). The engine feeds them to the discipline
  system (\<^verbatim>\<open>internal/discipline/system.go\<close>), which selects the sources to believe
  (\<^verbatim>\<open>select.go\<close>) and drives the feedback loop on the kernel clock (\<^verbatim>\<open>loop.go\<close>). The status the system
  publishes is what the server (\<^verbatim>\<open>internal/server\<close>) tells its clients; the server answers datagrams,
  authenticates them (\<^verbatim>\<open>internal/ntp/auth\<close>), limits their rate, and can carry pieces of the
  leap-second list (\<^verbatim>\<open>internal/leap\<close>) in an extension field. Packets and timestamps are those of
  \<^verbatim>\<open>internal/ntp\<close>.

  \<^bold>\<open>The language and its library.\<close> \<open>Prelude\<close> has byte orders, slices, truncating division
  and a stable sort with the collections of rewrite rules used throughout. \<open>Float64\<close> is IEEE binary64:
  NaN, the infinities and the reals, every operation the exact result rounded to nearest even and
  overflowing to an infinity; the sign of zero is not kept, which no comparison of the program sees. \<open>Go_Std\<close> is
  \<^verbatim>\<open>time\<close> (an instant is a count of nanoseconds) and \<^verbatim>\<open>net/netip\<close>; \<open>Go_Text\<close> the functions of
  \<^verbatim>\<open>strings\<close>, \<^verbatim>\<open>strconv\<close>, \<^verbatim>\<open>encoding/hex\<close> and \<^verbatim>\<open>bufio\<close> the parsers call; \<open>Go_Calendar\<close> the civil
  calendar; \<open>Go_Crypto\<close> AES-128, MD5 and SHA-256. Integers are words of their width where they
  can wrap. A panic is \<open>None\<close>, an error return a value of a sum type, a pointer an index into a list.

  \<^bold>\<open>Packets and keys.\<close> \<open>NTP_Time\<close> models \<^verbatim>\<open>ntp/time.go\<close>: the 64-bit timestamp recovers its era and
  differences are right across an era boundary. \<open>NTP_Packet\<close> models
  \<^verbatim>\<open>ntp/packet.go\<close>: decoding inverts encoding, and what it accepts is a header, a chain of extension fields and a trailer.
  \<open>NTP_Auth\<close> models \<^verbatim>\<open>auth/cmac.go\<close> and \<^verbatim>\<open>auth/keys.go\<close>: the code is the CMAC of RFC 4493, a verifier
  accepts exactly what a signer with its key appends, a keys file means exactly what its lines spell.

  \<^bold>\<open>Discipline.\<close> \<open>Measurement\<close> has the types of \<^verbatim>\<open>measurement.go\<close>. \<open>Clock_Filter\<close> models
  \<^verbatim>\<open>filter.go\<close>: the ring refines the list of the last eight samples, the estimate is the best
  of them. \<open>Selection\<close> is \<^verbatim>\<open>select.go\<close> and \<open>Selection_Correct\<close> shows that survivors are eligible, covered by
  a majority, ranked and preferred as configured, and that the code never indexes out of range.
  \<open>Discipline_Loop\<close> is \<^verbatim>\<open>loop.go\<close>: in every run on finite inputs frequencies stay within 500 ppm, steps within
  their budget. \<open>Discipline_System\<close> is \<^verbatim>\<open>system.go\<close>, an \<open>inductive\<close> relation composing its operations
  to runs, and \<open>System_Correct\<close> proves what holds in all of them: status is usable only while
  synchronized, a step starts again from nothing, further steps need fresh evidence, a
  sample is used once and only from the selected source, holdover ends, nothing panics.

  \<^bold>\<open>Client.\<close> \<open>NTP_Exchange\<close> models \<^verbatim>\<open>source/poll.go\<close> and \<^verbatim>\<open>exchange\<close> of \<^verbatim>\<open>source/ntp.go\<close>: what an exchange accepts, and that
  its offset is wrong by at most half the delay. \<open>NTP_Client\<close> is the poller of \<^verbatim>\<open>ntp.go\<close> from the choice of an address to
  the measurement it sends and the rounds of \<^verbatim>\<open>Run\<close>. \<open>Client_Correct\<close> composes its operations to runs with a log of the
  replies used; the locale \<open>source_invariant\<close> carries an invariant over all of them and is interpreted on the poll
  bounds, the addresses, the pairing of samples with metadata and the origin of the log. So a server's demand to slow down or
  to stop is honoured and moves the poll interval within bounds only, each measurement describes one exchange, and a dead address is left. \<open>Interoperation\<close> puts
  client and server together: what \<open>Handle\<close> returns for a request of \<open>exchange\<close> is read by it as the reply.

  \<^bold>\<open>Reference clocks.\<close> \<open>NMEA_Sentence\<close> models \<^verbatim>\<open>refclock/nmea_sentence.go\<close>, the parser of a GPS receiver's sentences: an accepted
  sentence gives exactly the instant its fields name, and no corruption of one byte passes its checksum.

  \<^bold>\<open>Leap seconds.\<close> \<open>Leap_Table\<close> models \<^verbatim>\<open>leap.go\<close> and \<^verbatim>\<open>object.go\<close>: a parsed table is what the lines of the file say, the
  queries agree, an update never changes the past. \<open>Leap_Wire\<close> models \<^verbatim>\<open>wire.go\<close>: the decoder
  accepts exactly what the encoder writes and the chunks join to the file. \<open>Leap_Distributor\<close> models
  \<^verbatim>\<open>distributor.go\<close>; its budgets are a step relation at the grain of the atomic
  load and compare-and-swap, bounded under every interleaving.

  \<^bold>\<open>Server.\<close> \<open>Rate_Limit\<close> models \<^verbatim>\<open>ratelimit.go\<close>, with the heap of buckets its map and its list share;
  the invariant of the table is proved once in the locale \<open>bucket_table\<close> and interpreted on the
  code's operations. \<open>Server_Stats\<close> models \<^verbatim>\<open>stats.go\<close>, \<open>Responder\<close> models \<^verbatim>\<open>martian.go\<close> and
  \<^verbatim>\<open>responder.go\<close> with the whole of \<open>Handle\<close>: no response is larger than its request, keys are
  required where configured, spoofed datagrams spend no budget of a key, and each datagram is
  counted once.

  \<^bold>\<open>Bounds and fuel.\<close> There is no fuel: every loop of the code is a recursion with a termination proof,
  and the concurrent retry loop of the budgets is a step relation. The datagrams read in an exchange are the finite list
  of those that arrive before its deadline, after which the read ends. \<^verbatim>\<open>Run\<close>, which loops until the daemon stops, is modelled
  by its rounds.

  \<^bold>\<open>Not modelled.\<close> The engine, the listener, the control socket, the monitor, the statistics
  files, the fetching and storing of leap lists, the readers of the reference clocks (\<^verbatim>\<open>nmea.go\<close>, \<^verbatim>\<open>pps.go\<close>) and the commands are goroutines, sockets, files and text around the
  components above. The kernel clock, serial ports, PPS devices and socket timestamps are system calls;
  what they return is an argument of the definitions. The configuration is decoded by a package
  outside the repository.
\<close>

end
